(* ===== verification/Prelude.thy ===== *)
theory Prelude
  imports Main "HOL-Library.Word" "HOL-Library.Monad_Syntax"
begin

text \<open>
  Shared vocabulary of the development: fixed-width integers, pointer-and-size pairs,
  bounds-checked memory, counted loops, first-match search in fixed arrays, and the
  refinement interface that the storage components are proved against.

  Conventions used by every component theory:
  \<^item> a C++ \<open>std::uintN_t\<close> is an \<open>N word\<close>, so that \<open>+\<close>, \<open>-\<close> and the bit operations wrap as
    the code's do; a signed \<open>std::intN_t\<close> is kept as its bit pattern and read with \<open>sint\<close>;
  \<^item> a \<open>std::size_t\<close> is a \<open>nat\<close>, and every guard of the code against exceeding
    \<open>std::numeric_limits<std::size_t>::max()\<close> is written out with \<open>SIZE_MAX\<close>;
  \<^item> a pointer passed together with its length is a \<open>span\<close>; a \<open>std::array<T, N>\<close> is a list;
  \<^item> an operation that touches memory returns an \<open>option\<close>, and \<open>None\<close> stands for a read or a
    write outside the object, which C++ leaves undefined. A theorem that an operation
    returns \<open>Some\<close> is therefore a memory-safety theorem.
\<close>

unbundle bit_operations_syntax

section \<open>Machine integers\<close>

type_synonym byte = "8 word"
type_synonym u16 = "16 word"
type_synonym u32 = "32 word"
type_synonym u64 = "64 word"

definition SIZE_MAX :: nat where
  "SIZE_MAX = 2 ^ 64 - 1"

definition INT64_MAX :: u64 where
  "INT64_MAX = 0x7FFFFFFFFFFFFFFF"

section \<open>Pointers and bounds-checked memory\<close>

named_theorems mem_simps
  \<open>rewrites memory operations to single block reads and writes\<close>

text \<open>
  A pointer and the size that accompanies it: \<open>Null n\<close> is a null pointer with a claimed size
  of \<open>n\<close> bytes, \<open>Span bs\<close> a pointer to \<open>length bs\<close> bytes.
\<close>

datatype span = Null nat | Span "byte list"

fun span_size :: "span \<Rightarrow> nat" where
  "span_size (Null n) = n"
| "span_size (Span bs) = length bs"

fun null_span :: "span \<Rightarrow> bool" where
  "null_span (Null n) = True"
| "null_span (Span bs) = False"

fun deref :: "span \<Rightarrow> byte list option" where
  "deref (Null n) = None"
| "deref (Span bs) = Some bs"

definition valid_span :: "span \<Rightarrow> bool" where
  "valid_span p \<longleftrightarrow> \<not> null_span p \<or> span_size p = 0"

fun span_bytes :: "span \<Rightarrow> byte list" where
  "span_bytes (Null n) = []"
| "span_bytes (Span bs) = bs"

fun option_list :: "'a option \<Rightarrow> 'a list" where
  "option_list None = []"
| "option_list (Some x) = [x]"

text \<open>Array indexing and \<open>memcpy\<close>: \<open>None\<close> outside the bounds.\<close>

definition rd :: "'a list \<Rightarrow> nat \<Rightarrow> 'a option" where
  "rd bs i = (if i < length bs then Some (bs ! i) else None)"

definition wr :: "'a list \<Rightarrow> nat \<Rightarrow> 'a \<Rightarrow> 'a list option" where
  "wr bs i v = (if i < length bs then Some (bs[i := v]) else None)"

definition rd_block :: "'a list \<Rightarrow> nat \<Rightarrow> nat \<Rightarrow> 'a list option" where
  "rd_block bs off n = (if off + n \<le> length bs then Some (take n (drop off bs)) else None)"

definition wr_block :: "'a list \<Rightarrow> nat \<Rightarrow> 'a list \<Rightarrow> 'a list option" where
  "wr_block bs off xs =
     (if off + length xs \<le> length bs
      then Some (take off bs @ xs @ drop (off + length xs) bs) else None)"

text \<open>The loop \<open>for (i = first; count iterations; ++i) body\<close>.\<close>

primrec for_loop :: "nat \<Rightarrow> nat \<Rightarrow> (nat \<Rightarrow> 's \<Rightarrow> 's option) \<Rightarrow> 's \<Rightarrow> 's option" where
  "for_loop i 0 body s = Some s"
| "for_loop i (Suc k) body s = Option.bind (body i s) (for_loop (Suc i) k body)"

lemma length_span_bytes: "valid_span p \<Longrightarrow> length (span_bytes p) = span_size p"
  by (cases p) (auto simp: valid_span_def)

lemma rd_in [simp]: "i < length bs \<Longrightarrow> rd bs i = Some (bs ! i)"
  by (simp add: rd_def)

lemma wr_eq_block [mem_simps]: "wr bs i v = wr_block bs i [v]"
  by (simp add: wr_def wr_block_def upd_conv_take_nth_drop)

lemma length_wr_block: "wr_block bs off xs = Some bs' \<Longrightarrow> length bs' = length bs"
  by (auto simp: wr_block_def split: if_splits)

lemma wr_block_Nil [simp]: "off \<le> length bs \<Longrightarrow> wr_block bs off [] = Some bs"
  by (simp add: wr_block_def)

lemma rd_block_all [simp]: "rd_block bs 0 (length bs) = Some bs"
  by (simp add: rd_block_def)

lemma wr_block_fuse [mem_simps]:
  "off' = off + length xs \<Longrightarrow>
   Option.bind (wr_block bs off xs) (\<lambda>b. wr_block b off' ys) = wr_block bs off (xs @ ys)"
  by (cases "off + length xs \<le> length bs") (auto simp: wr_block_def ac_simps)

lemma wr_block_fuse_bind [mem_simps]:
  "off' = off + length xs \<Longrightarrow>
   Option.bind (wr_block bs off xs) (\<lambda>b. Option.bind (wr_block b off' ys) k) =
   Option.bind (wr_block bs off (xs @ ys)) k"
  by (simp flip: wr_block_fuse)

lemma for_loop_wr:
  "for_loop i n (\<lambda>i b. wr b (start + i) (f i)) bs =
     (if n = 0 then Some bs else wr_block bs (start + i) (map f [i..<i + n]))"
proof (induction n arbitrary: i bs)
  case 0
  then show ?case by simp
next
  case (Suc n)
  have up: "[i..<i + Suc n] = i # [Suc i..<Suc i + n]"
    by (simp add: upt_rec)
  show ?case
  proof (cases "n = 0")
    case True
    then show ?thesis by (cases "start + i < length bs") (simp_all add: wr_eq_block wr_block_def)
  next
    case False
    have "for_loop i (Suc n) (\<lambda>i b. wr b (start + i) (f i)) bs =
        Option.bind (wr_block bs (start + i) [f i])
          (\<lambda>b. wr_block b (start + Suc i) (map f [Suc i..<Suc i + n]))"
      using False by (simp add: wr_eq_block Suc.IH [unfolded wr_eq_block] cong: bind_option_cong)
    also have "\<dots> = wr_block bs (start + i) ([f i] @ map f [Suc i..<Suc i + n])"
      by (rule wr_block_fuse) simp
    finally show ?thesis by (simp only: up) simp
  qed
qed

lemma drop_split:
  assumes "k + n \<le> length m"
  shows "drop k m = take n (drop k m) @ drop (k + n) m"
  by (metis append_take_drop_id drop_drop add.commute)

lemma drop_2: "Suc k < length m \<Longrightarrow> drop k m = [m ! k, m ! Suc k] @ drop (Suc (Suc k)) m"
  by (simp add: Cons_nth_drop_Suc)

lemma for_loop_zero:
  "for_loop (length pre) n (\<lambda>i b. wr b i 0) (pre @ rest) =
   (if n \<le> length rest then Some (pre @ replicate n 0 @ drop n rest) else None)"
proof (induction n arbitrary: pre rest)
  case 0
  then show ?case by simp
next
  case (Suc n)
  show ?case
  proof (cases rest)
    case Nil
    then show ?thesis by (simp add: wr_def)
  next
    case (Cons x xs)
    have "for_loop (length (pre @ [0])) n (\<lambda>i b. wr b i 0) ((pre @ [0]) @ xs) =
      (if n \<le> length xs then Some ((pre @ [0]) @ replicate n 0 @ drop n xs) else None)"
      by (rule Suc.IH)
    with Cons show ?thesis by (simp add: wr_def)
  qed
qed

lemma for_loop_fold:
  assumes "\<And>j s. i \<le> j \<Longrightarrow> j < i + n \<Longrightarrow> body j s = Some (f j s)"
  shows "for_loop i n body s = Some (fold f [i..<i + n] s)"
  using assms
proof (induction n arbitrary: i s)
  case 0
  then show ?case by simp
next
  case (Suc n)
  have up: "[i..<i + Suc n] = i # [Suc i..<Suc i + n]"
    by (simp add: upt_rec)
  from Suc show ?case unfolding up by simp
qed


section \<open>First-match search in a fixed array\<close>

primrec find_index :: "('a \<Rightarrow> bool) \<Rightarrow> 'a list \<Rightarrow> nat option" where
  "find_index P [] = None"
| "find_index P (x # xs) = (if P x then Some 0 else map_option Suc (find_index P xs))"

lemma find_index_Some:
  "find_index P xs = Some i \<longleftrightarrow> i < length xs \<and> P (xs ! i) \<and> (\<forall>j < i. \<not> P (xs ! j))"
proof (induction xs arbitrary: i)
  case Nil
  then show ?case by simp
next
  case (Cons x xs)
  then show ?case by (cases i) (auto simp: All_less_Suc2)
qed

lemma find_index_None: "find_index P xs = None \<longleftrightarrow> (\<forall>x \<in> set xs. \<not> P x)"
  by (induction xs) auto

lemma find_index_cong:
  "(\<And>x. x \<in> set xs \<Longrightarrow> P x = Q x) \<Longrightarrow> find_index P xs = find_index Q xs"
  by (induction xs) auto

lemma find_index_map: "find_index P (map f xs) = find_index (\<lambda>x. P (f x)) xs"
  by (induction xs) auto

lemma find_index_nth: "find_index (\<lambda>i. P (xs ! i)) [0..<length xs] = find_index P xs"
  using find_index_map [of P "nth xs" "[0..<length xs]"] by (simp add: map_nth)

lemma find_index_SomeD:
  assumes "find_index P xs = Some i"
  shows "i < length xs" and "P (xs ! i)"
  using assms by (simp_all add: find_index_Some)

lemma count_update_add:
  "i < length xs \<Longrightarrow> \<not> P (xs ! i) \<Longrightarrow> P v \<Longrightarrow>
   length (filter P (xs[i := v])) = Suc (length (filter P xs))"
  by (induction xs arbitrary: i) (auto split: nat.splits)

lemma count_update_del:
  "i < length xs \<Longrightarrow> P (xs ! i) \<Longrightarrow> \<not> P v \<Longrightarrow>
   Suc (length (filter P (xs[i := v]))) = length (filter P xs)"
  by (induction xs arbitrary: i) (auto split: nat.splits)

lemma count_update_same:
  "i < length xs \<Longrightarrow> P (xs ! i) = P v \<Longrightarrow>
   length (filter P (xs[i := v])) = length (filter P xs)"
  by (induction xs arbitrary: i) (auto split: nat.splits)


section \<open>Running operations, and refinement of a specification\<close>

primrec run_ops :: "('op \<Rightarrow> 's \<Rightarrow> ('r \<times> 's) option) \<Rightarrow> 'op list \<Rightarrow> 's \<Rightarrow> ('r list \<times> 's) option" where
  "run_ops step [] s = Some ([], s)"
| "run_ops step (x # xs) s = do {
     (r, s) \<leftarrow> step x s;
     (rs, s) \<leftarrow> run_ops step xs s;
     Some (r # rs, s) }"

primrec run_spec :: "('op \<Rightarrow> 's \<Rightarrow> 'r \<times> 's) \<Rightarrow> 'op list \<Rightarrow> 's \<Rightarrow> 'r list \<times> 's" where
  "run_spec step [] s = ([], s)"
| "run_spec step (x # xs) s =
     (let (r, s) = step x s; (rs, s) = run_spec step xs s in (r # rs, s))"

text \<open>
  The contract between a stateful component and its specification: under the invariant each
  operation touches only its own memory, keeps the invariant, and returns the result and
  reaches the abstract state the specification prescribes.
\<close>

locale refinement =
  fixes inv :: "'c \<Rightarrow> bool"
    and abs :: "'c \<Rightarrow> 'a"
    and cstep :: "'op \<Rightarrow> 'c \<Rightarrow> ('r \<times> 'c) option"
    and astep :: "'op \<Rightarrow> 'a \<Rightarrow> 'r \<times> 'a"
  assumes step_refines:
    "inv c \<Longrightarrow> \<exists>r c'. cstep x c = Some (r, c') \<and> inv c' \<and> astep x (abs c) = (r, abs c')"
begin

lemma step_cases:
  assumes "inv c"
  obtains r c' where "cstep x c = Some (r, c')" "inv c'" "astep x (abs c) = (r, abs c')"
  using step_refines [OF assms] by blast

lemma run_refines:
  assumes "inv c"
  shows "\<exists>rs c'. run_ops cstep xs c = Some (rs, c') \<and> inv c' \<and> run_spec astep xs (abs c) = (rs, abs c')"
  using assms
proof (induction xs arbitrary: c)
  case Nil
  then show ?case by simp
next
  case (Cons x xs)
  from Cons.prems obtain r d where d: "cstep x c = Some (r, d)" "inv d" "astep x (abs c) = (r, abs d)"
    by (rule step_cases)
  from Cons.IH [OF d(2)] obtain rs c' where
    "run_ops cstep xs d = Some (rs, c')" "inv c'" "run_spec astep xs (abs d) = (rs, abs c')"
    by blast
  with d show ?case by simp
qed

lemma run_safe: "inv c \<Longrightarrow> run_ops cstep xs c \<noteq> None"
  using run_refines [of c xs] by auto

end

lemma wr_modify:
  "Option.bind (wr b i v) (\<lambda>b. Option.bind (if c then Option.bind (rd b i) (\<lambda>x. wr b i (f x)) else Some b) k) =
   Option.bind (wr b i (if c then f v else v)) k"
  by (cases "i < length b") (simp_all add: wr_def)

lemma for_loop_invariant:
  assumes "P i s" "\<And>j s. i \<le> j \<Longrightarrow> j < i + n \<Longrightarrow> P j s \<Longrightarrow> \<exists>s'. body j s = Some s' \<and> P (Suc j) s'"
  shows "\<exists>s'. for_loop i n body s = Some s' \<and> P (i + n) s'"
  using assms
proof (induction n arbitrary: i s)
  case 0
  then show ?case by simp
next
  case (Suc n)
  from Suc.prems(2) [of i s] Suc.prems(1) obtain s' where s': "body i s = Some s'" "P (Suc i) s'" by auto
  have "\<exists>s''. for_loop (Suc i) n body s' = Some s'' \<and> P (Suc i + n) s''"
    by (rule Suc.IH) (use s' Suc.prems(2) in auto)
  with s' show ?case by auto
qed

lemma for_loop_cong:
  assumes "\<And>j s. i \<le> j \<Longrightarrow> j < i + n \<Longrightarrow> body j s = body' j s"
  shows "for_loop i n body s = for_loop i n body' s"
  using assms by (induction n arbitrary: i s) (simp_all cong: bind_option_cong)

lemma for_loop_blocks:
  assumes "\<And>j. length (f j) = w"
  shows "for_loop i n (\<lambda>j b. wr_block b (start + w * j) (f j)) b =
    (if n = 0 then Some b else wr_block b (start + w * i) (concat (map f [i..<i + n])))"
proof (induction n arbitrary: i b)
  case 0
  then show ?case by simp
next
  case (Suc n)
  have up: "[i..<i + Suc n] = i # [Suc i..<Suc i + n]" by (simp add: upt_rec)
  show ?case
  proof (cases "n = 0")
    case False
    have "for_loop i (Suc n) (\<lambda>j b. wr_block b (start + w * j) (f j)) b =
      Option.bind (wr_block b (start + w * i) (f i))
        (\<lambda>b. wr_block b (start + w * Suc i) (concat (map f [Suc i..<Suc i + n])))"
      using False by (simp add: Suc.IH cong: bind_option_cong)
    also have "\<dots> = wr_block b (start + w * i) (f i @ concat (map f [Suc i..<Suc i + n]))"
      by (rule wr_block_fuse) (simp add: assms)
    finally show ?thesis by (simp only: up) simp
  next
    case True
    then show ?thesis by (cases "wr_block b (start + w * i) (f i)") simp_all
  qed
qed

lemma word_increment:
  fixes x y :: "'a::len word"
  assumes "x < y"
  shows "unat (x + 1) = unat x + 1" "x + 1 \<le> y"
proof -
  have "unat y < 2 ^ LENGTH('a)" by (rule unsigned_less)
  then have "unat x + 1 < 2 ^ LENGTH('a)" using assms unfolding word_less_nat_alt by linarith
  then show u: "unat (x + 1) = unat x + 1" by (simp add: unat_word_ariths)
  show "x + 1 \<le> y" using assms u by (simp add: word_le_nat_alt word_less_nat_alt)
qed

lemma guard_chain:
  "A \<or> B \<or> C \<or> D \<Longrightarrow>
   \<exists>e \<in> {a, b, c, d}. (if A then g a else if B then g b else if C then g c else if D then g d else X) = g e"
  by auto

end
