(* ===== verification/Wire.thy ===== *)
theory Wire
  imports Prelude
begin

text \<open>
  Integers on the wire and the identifier types of the protocol. Every RTPS source file has its
  own copy of the same \<open>read_u16\<close>, \<open>read_u32\<close>, \<open>write_u16\<close> and \<open>write_u32\<close> helpers
  (\<open>src/src/rtps/*.cpp\<close>); they are modelled once here, together with the integer loops of
  \<open>src/src/serialization/cdr.cpp\<close>. The locale \<open>byte_codec\<close> is what their clients rely on:
  a codec reads back what it wrote and touches its own bytes only.
\<close>

unbundle bit_operations_syntax

section \<open>Identifier types\<close>

record protocol_version =
  pv_major :: byte
  pv_minor :: byte

text \<open>The \<open>std::array\<close> members are lists; \<open>wf_*\<close> states their lengths.\<close>

type_synonym vendor_id = "byte list"
type_synonym guid_prefix = "byte list"
type_synonym entity_id = "byte list"

definition wf_vendor_id :: "vendor_id \<Rightarrow> bool" where
  "wf_vendor_id v \<longleftrightarrow> length v = 2"

definition wf_guid_prefix :: "guid_prefix \<Rightarrow> bool" where
  "wf_guid_prefix p \<longleftrightarrow> length p = 12"

definition wf_entity_id :: "entity_id \<Rightarrow> bool" where
  "wf_entity_id e \<longleftrightarrow> length e = 4"

definition unsupported_version :: "protocol_version \<Rightarrow> bool" where
  "unsupported_version v \<longleftrightarrow> pv_major v \<noteq> 2 \<or> pv_minor v = 0 \<or> pv_minor v > 5"

section \<open>Integers in memory\<close>

datatype byte_order = big_endian | little_endian | other_order byte

definition shift_index :: "byte_order \<Rightarrow> nat \<Rightarrow> nat \<Rightarrow> nat" where
  "shift_index order width i = (if order = little_endian then i else width - 1 - i)"

definition store_word :: "byte_order \<Rightarrow> nat \<Rightarrow> nat \<Rightarrow> 'a::len word \<Rightarrow> byte list \<Rightarrow> byte list option" where
  "store_word order width start v bs =
     for_loop 0 width
       (\<lambda>i b. wr b (start + i) (ucast (drop_bit (shift_index order width i * 8) v AND 0xFF))) bs"

definition load_word :: "byte_order \<Rightarrow> nat \<Rightarrow> nat \<Rightarrow> byte list \<Rightarrow> 'a::len word option" where
  "load_word order width start bs =
     for_loop 0 width
       (\<lambda>i v. do {
          b \<leftarrow> rd bs (start + i);
          Some (v OR push_bit (shift_index order width i * 8) (ucast b)) }) 0"

definition word_bytes :: "byte_order \<Rightarrow> nat \<Rightarrow> 'a::len word \<Rightarrow> byte list" where
  "word_bytes order width v =
     map (\<lambda>i. ucast (drop_bit (shift_index order width i * 8) v AND 0xFF)) [0..<width]"

definition bytes_word :: "byte_order \<Rightarrow> byte list \<Rightarrow> 'a::len word" where
  "bytes_word order xs =
     fold (\<lambda>i v. v OR push_bit (shift_index order (length xs) i * 8) (ucast (xs ! i)))
       [0..<length xs] 0"


definition read_u16 :: "byte_order \<Rightarrow> nat \<Rightarrow> byte list \<Rightarrow> u16 option" where
  "read_u16 order off input = do {
     b0 \<leftarrow> rd input off;
     b1 \<leftarrow> rd input (off + 1);
     if order = little_endian
     then Some ((ucast b0 :: u16) OR push_bit 8 (ucast b1))
     else Some (push_bit 8 (ucast b0 :: u16) OR ucast b1) }"

definition write_u16 :: "byte_order \<Rightarrow> nat \<Rightarrow> u16 \<Rightarrow> byte list \<Rightarrow> byte list option" where
  "write_u16 order off v output =
     (if order = little_endian
      then do {
        output \<leftarrow> wr output off (ucast (v AND 0xFF));
        wr output (off + 1) (ucast (drop_bit 8 v AND 0xFF)) }
      else do {
        output \<leftarrow> wr output off (ucast (drop_bit 8 v AND 0xFF));
        wr output (off + 1) (ucast (v AND 0xFF)) })"

definition read_u32 :: "byte_order \<Rightarrow> nat \<Rightarrow> byte list \<Rightarrow> u32 option" where
  "read_u32 order off input = load_word order 4 off input"

definition write_u32 :: "byte_order \<Rightarrow> nat \<Rightarrow> u32 \<Rightarrow> byte list \<Rightarrow> byte list option" where
  "write_u32 order off v output = store_word order 4 off v output"

definition write_sequence_number :: "byte_order \<Rightarrow> nat \<Rightarrow> u64 \<Rightarrow> byte list \<Rightarrow> byte list option" where
  "write_sequence_number order off v output = do {
     output \<leftarrow> write_u32 order off (ucast (drop_bit 32 v)) output;
     write_u32 order (off + 4) (ucast (v AND 0xFFFFFFFF)) output }"

section \<open>Reads and writes as blocks of bytes\<close>

lemma store_word_block [mem_simps]:
  "0 < width \<Longrightarrow> store_word order width start v bs = wr_block bs start (word_bytes order width v)"
  by (simp add: store_word_def for_loop_wr word_bytes_def)

lemma length_word_bytes [simp]: "length (word_bytes order width v) = width"
  by (simp add: word_bytes_def)

lemma load_word_block [mem_simps]:
  assumes "start + width \<le> length bs"
  shows "load_word order width start bs =
    Some (bytes_word order (take width (drop start bs)) :: 'a::len word)"
proof -
  have "for_loop 0 width
       (\<lambda>i v. do { b \<leftarrow> rd bs (start + i);
          Some (v OR push_bit (shift_index order width i * 8) (ucast b)) }) (0 :: 'a word)
     = Some (fold (\<lambda>i v. v OR push_bit (shift_index order width i * 8) (ucast (bs ! (start + i)))) [0..<0 + width] 0)"
    by (rule for_loop_fold) (use assms in simp)
  moreover have "fold (\<lambda>i v. v OR push_bit (shift_index order width i * 8) (ucast (bs ! (start + i)))) [0..<width] (0 :: 'a word)
     = bytes_word order (take width (drop start bs))"
    using assms unfolding bytes_word_def by (intro fold_cong) auto
  ultimately show ?thesis unfolding load_word_def by simp
qed

lemma bit_fold_or:
  "bit (fold (\<lambda>i v. v OR g i) is (a :: 'a::len word)) k \<longleftrightarrow> bit a k \<or> (\<exists>i \<in> set is. bit (g i) k)"
  by (induction "is" arbitrary: a) (auto simp: bit_or_iff)

lemma bit_255 [simp]: "bit (255 :: 'a::len word) n \<longleftrightarrow> n < 8 \<and> n < LENGTH('a)"
proof -
  have eq: "(255 :: 'a word) = mask 8"
    by (simp add: mask_eq_exp_minus_1)
  show ?thesis unfolding eq by (auto simp: bit_mask_iff)
qed

lemma bit_low_byte:
  "bit (ucast (ucast (w AND 0xFF :: 'a::len word) :: byte) :: 'a word) n \<longleftrightarrow>
   n < 8 \<and> n < LENGTH('a) \<and> bit w n"
  by (simp only: bit_ucast_iff bit_and_iff bit_255) auto

lemma shift_index_less: "i < width \<Longrightarrow> shift_index order width i < width"
  by (auto simp: shift_index_def)

lemma shift_index_surj: "j < width \<Longrightarrow> \<exists>i < width. shift_index order width i = j"
  by (rule exI [of _ "shift_index order width j"]) (auto simp: shift_index_def)

lemma bytes_word_bytes [simp]:
  "bytes_word order (word_bytes order width v) = (take_bit (8 * width) v :: 'a::len word)"
proof (rule bit_word_eqI)
  fix k assume k: "k < LENGTH('a)"
  have "bit (bytes_word order (word_bytes order width v) :: 'a word) k \<longleftrightarrow>
    (\<exists>i < width. bit (push_bit (shift_index order width i * 8)
       (ucast (ucast (drop_bit (shift_index order width i * 8) v AND 0xFF :: 'a word) :: byte)) :: 'a word) k)"
    by (auto simp: bytes_word_def word_bytes_def bit_fold_or)
  also have "\<dots> \<longleftrightarrow> (\<exists>j < width. bit (push_bit (j * 8)
       (ucast (ucast (drop_bit (j * 8) v AND 0xFF :: 'a word) :: byte)) :: 'a word) k)"
    using shift_index_surj shift_index_less by metis
  also have "\<dots> \<longleftrightarrow> (\<exists>j < width. j * 8 \<le> k \<and> k < j * 8 + 8 \<and> bit v k)"
    using k by (intro ex_cong1) (auto simp: bit_push_bit_iff bit_drop_bit_eq bit_low_byte)
  also have "\<dots> \<longleftrightarrow> bit (take_bit (8 * width) v) k"
    using k by (auto simp: bit_take_bit_iff intro!: exI [of _ "k div 8"])
  finally show "bit (bytes_word order (word_bytes order width v) :: 'a word) k = bit (take_bit (8 * width) v) k" .
qed

lemma upt_2: "[0..<2] = [0, 1]" and upt_4: "[0..<4] = [0, 1, 2, 3 :: nat]"
  by (simp_all add: upt_rec)

lemma read_u16_block [mem_simps]:
  assumes "off + 2 \<le> length bs"
  shows "read_u16 order off bs = Some (bytes_word order (take 2 (drop off bs)))"
proof -
  obtain a b where "take 2 (drop off bs) = [a, b]" "bs ! off = a" "bs ! (off + 1) = b"
  proof
    show "take 2 (drop off bs) = [bs ! off, bs ! (off + 1)]"
      using assms by (auto simp: list_eq_iff_nth_eq less_Suc_eq numeral_2_eq_2)
  qed simp_all
  then show ?thesis
    using assms by (simp add: read_u16_def bytes_word_def shift_index_def upt_2)
qed

lemma write_u16_block [mem_simps]:
  "write_u16 order off v bs = wr_block bs off (word_bytes order 2 v)"
  by (simp add: write_u16_def mem_simps word_bytes_def shift_index_def upt_2)

section \<open>The codec interface\<close>

locale byte_codec =
  fixes width :: nat
    and enc :: "byte_order \<Rightarrow> 'v \<Rightarrow> byte list"
    and dec :: "byte_order \<Rightarrow> byte list \<Rightarrow> 'v"
    and put :: "byte_order \<Rightarrow> nat \<Rightarrow> 'v \<Rightarrow> byte list \<Rightarrow> byte list option"
    and get :: "byte_order \<Rightarrow> nat \<Rightarrow> byte list \<Rightarrow> 'v option"
  assumes length_enc: "length (enc order v) = width"
    and dec_enc: "dec order (enc order v) = v"
    and put_block: "put order off v bs = wr_block bs off (enc order v)"
    and get_block: "off + width \<le> length bs \<Longrightarrow> get order off bs = Some (dec order (take width (drop off bs)))"
begin

lemma put_in_bounds: "off + width \<le> length bs \<Longrightarrow> \<exists>bs'. put order off v bs = Some bs'"
  by (simp add: put_block wr_block_def length_enc)

lemma put_length: "put order off v bs = Some bs' \<Longrightarrow> length bs' = length bs"
  by (auto simp: put_block dest: length_wr_block)

lemma get_after_put: "put order off v bs = Some bs' \<Longrightarrow> get order off bs' = Some v"
  by (auto simp: put_block wr_block_def length_enc get_block dec_enc split: if_splits)

lemma put_frame:
  "put order off v bs = Some bs' \<Longrightarrow> i < off \<or> off + width \<le> i \<Longrightarrow> i < length bs \<Longrightarrow> bs' ! i = bs ! i"
  by (auto simp: put_block wr_block_def length_enc nth_append split: if_splits)

end

lemma take_bit_word_full [simp]: "LENGTH('a) \<le> n \<Longrightarrow> take_bit n (w :: 'a::len word) = w"
  by (rule bit_word_eqI) (simp add: bit_take_bit_iff)

lemma unat_ucast_up [simp]:
  "LENGTH('a) \<le> LENGTH('b) \<Longrightarrow> unat (ucast (w :: 'a::len word) :: 'b::len word) = unat w"
  by (simp add: unsigned_ucast_eq take_bit_nat_eq_self_iff)
    (meson unsigned_less order_less_le_trans power_increasing one_le_numeral)

lemma word_bytes_ucast:
  assumes "8 * width \<le> LENGTH('a)" "8 * width \<le> LENGTH('b)"
  shows "word_bytes order width (ucast (v :: 'a::len word) :: 'b::len word) = word_bytes order width v"
proof -
  have "ucast (drop_bit (j * 8) (ucast v :: 'b word) AND 0xFF) =
      (ucast (drop_bit (j * 8) v AND 0xFF) :: byte)" if "j < width" for j
  proof (rule bit_word_eqI)
    fix n assume "n < LENGTH(8)"
    then have n: "n < 8" by simp
    with that have "j * 8 + n < 8 * width" by linarith
    with assms have "j * 8 + n < LENGTH('a)" "j * 8 + n < LENGTH('b)" by linarith+
    with n assms show "bit (ucast (drop_bit (j * 8) (ucast v :: 'b word) AND 0xFF) :: byte) n =
        bit (ucast (drop_bit (j * 8) v AND 0xFF) :: byte) n"
      by (simp only: bit_ucast_iff bit_and_iff bit_drop_bit_eq bit_255 comp_def) auto
  qed
  then show ?thesis
    by (auto simp: word_bytes_def shift_index_less)
qed

lemma word_bytes_1 [simp]: "word_bytes order 1 (v :: byte) = [v]"
proof -
  have "(v AND 0xFF :: byte) = v"
    by (rule bit_word_eqI) (simp only: bit_and_iff bit_255, simp)
  then show ?thesis by (simp add: word_bytes_def shift_index_def)
qed

lemma ucast_take_bit: "LENGTH('a) \<le> n \<Longrightarrow> n \<le> LENGTH('b) \<Longrightarrow>
  (ucast (take_bit n (ucast (v :: 'a::len word) :: 'b::len word)) :: 'a word) = v"
  by (rule bit_word_eqI) (simp add: bit_ucast_iff bit_take_bit_iff)

lemma shift_index_inj: "i < width \<Longrightarrow> j < width \<Longrightarrow> shift_index order width i = shift_index order width j \<Longrightarrow> i = j"
  by (auto simp: shift_index_def split: if_splits)

lemma word_bytes_bytes_word:
  assumes "length xs = width" "8 * width \<le> LENGTH('a::len)"
  shows "word_bytes order width (bytes_word order xs :: 'a word) = xs"
proof (rule nth_equalityI)
  show "length (word_bytes order width (bytes_word order xs :: 'a word)) = length xs"
    using assms by simp
  fix i assume "i < length (word_bytes order width (bytes_word order xs :: 'a word))"
  then have i: "i < width" by simp
  let ?j = "shift_index order width i"
  have j: "?j < width" using i by (rule shift_index_less)
  have "bit (ucast (drop_bit (?j * 8) (bytes_word order xs :: 'a word) AND 0xFF) :: byte) n = bit (xs ! i) n"
    if n: "n < 8" for n
  proof -
    have jn: "?j * 8 + n < LENGTH('a)" using j n assms(2) by linarith
    have "bit (bytes_word order xs :: 'a word) (?j * 8 + n) \<longleftrightarrow>
      (\<exists>i' < width. shift_index order width i' * 8 \<le> ?j * 8 + n \<and>
         bit (xs ! i') (?j * 8 + n - shift_index order width i' * 8))"
      using assms jn by (auto simp: bytes_word_def bit_fold_or bit_push_bit_iff bit_ucast_iff)
    also have "\<dots> \<longleftrightarrow> bit (xs ! i) n"
    proof
      assume "\<exists>i' < width. shift_index order width i' * 8 \<le> ?j * 8 + n \<and>
         bit (xs ! i') (?j * 8 + n - shift_index order width i' * 8)"
      then obtain i' where i': "i' < width" "shift_index order width i' * 8 \<le> ?j * 8 + n"
        "bit (xs ! i') (?j * 8 + n - shift_index order width i' * 8)" by blast
      from i'(3) have "?j * 8 + n - shift_index order width i' * 8 < 8"
        using bit_imp_le_length by fastforce
      with i'(2) n have "shift_index order width i' = ?j" by linarith
      then have "i' = i" by (rule shift_index_inj [OF i'(1) i])
      with i'(3) show "bit (xs ! i) n" by simp
    qed (use i in auto)
    finally show ?thesis using n jn
      by (simp only: bit_ucast_iff bit_and_iff bit_255 bit_drop_bit_eq comp_def) auto
  qed
  then have "ucast (drop_bit (?j * 8) (bytes_word order xs :: 'a word) AND 0xFF) = xs ! i"
    by (intro bit_word_eqI) simp
  then show "word_bytes order width (bytes_word order xs :: 'a word) ! i = xs ! i"
    using i by (simp add: word_bytes_def)
qed

interpretation u16_codec: byte_codec 2 "\<lambda>order (v :: u16). word_bytes order 2 v" bytes_word write_u16 read_u16
  by unfold_locales (simp_all add: mem_simps)

interpretation u32_codec: byte_codec 4 "\<lambda>order (v :: u32). word_bytes order 4 v" bytes_word write_u32 read_u32
  by unfold_locales (simp_all add: mem_simps write_u32_def read_u32_def)

lemma split_sequence [simp]:
  "push_bit 32 (ucast (ucast (drop_bit 32 v) :: u32) :: u64) OR ucast (ucast (v AND 0xFFFFFFFF) :: u32) = (v :: u64)"
proof -
  have m: "(0xFFFFFFFF :: u64) = mask 32" by (simp add: mask_eq_exp_minus_1)
  show ?thesis unfolding m
    by (rule bit_word_eqI)
      (auto simp: bit_or_iff bit_push_bit_iff bit_ucast_iff bit_drop_bit_eq bit_and_iff bit_mask_iff)
qed

lemma sint_high_nonneg:
  assumes "v \<le> INT64_MAX"
  shows "0 \<le> sint (ucast (drop_bit 32 v) :: u32)"
proof -
  have "\<not> bit v 63"
  proof
    assume "bit v 63"
    then have "bit (unat v) 63" by (simp add: bit_unsigned_iff)
    then have "odd (unat v div 2 ^ 63)" by (simp add: bit_iff_odd)
    then have "2 ^ 63 \<le> unat v" by (cases "unat v < 2 ^ 63") auto
    moreover have "unat v \<le> unat INT64_MAX" using assms by (simp add: word_le_nat_alt)
    ultimately show False by (simp add: INT64_MAX_def)
  qed
  then show ?thesis
    using bit_last_iff [of "ucast (drop_bit 32 v) :: u32"] by (simp add: bit_ucast_iff bit_drop_bit_eq)
qed

lemma join_sequence_le:
  assumes "\<not> sint (hi :: u32) < 0"
  shows "push_bit 32 (ucast hi :: u64) OR ucast (lo :: u32) \<le> INT64_MAX"
proof -
  let ?v = "push_bit 32 (ucast hi :: u64) OR ucast lo"
  have "\<not> bit hi 31" using assms bit_last_iff [of hi] by simp
  moreover have "bit (push_bit 32 (ucast hi :: u64)) 63 \<longleftrightarrow> bit hi 31"
    by (simp only: bit_push_bit_iff bit_ucast_iff) simp
  moreover have "\<not> bit (ucast lo :: u64) 63"
    using bit_imp_le_length [of lo 63] by (simp only: bit_ucast_iff) auto
  ultimately have top: "\<not> bit ?v 63" by (simp only: bit_or_iff) blast
  have "take_bit 63 ?v = ?v"
  proof (rule bit_word_eqI)
    fix n assume "n < LENGTH(64)"
    then have "n < 63 \<or> n = 63" by auto
    with top show "bit (take_bit 63 ?v) n = bit ?v n"
      by (simp only: bit_take_bit_iff) blast
  qed
  then have "take_bit 63 (unat ?v) = unat ?v" by (simp only: unsigned_take_bit_eq [symmetric])
  then have "unat ?v < 2 ^ 63" using take_bit_nat_less_exp [of 63 "unat ?v"] by (simp only:)
  then show ?thesis by (simp add: word_le_nat_alt INT64_MAX_def)
qed

lemma write_u32_fun: "write_u32 order off v = (\<lambda>b. wr_block b off (word_bytes order 4 v))"
  by (simp add: fun_eq_iff u32_codec.put_block)

end
