(* ===== verification/Router.thy ===== *)
theory Router
  imports Wire
begin

text \<open>
  The submessage router, \<open>src/include/openrtdds/rtps/message_router.hpp\<close> and
  \<open>src/src/rtps/message_router.cpp\<close>: \<open>find_submessage\<close> walks a received message, tracks the
  context that INFO submessages set, and returns a view of one submessage. A view's
  content pointer and size are the slice of the message they denote.
\<close>

unbundle bit_operations_syntax

section \<open>Model\<close>

definition submessage_id_pad :: byte where "submessage_id_pad = 0x01"

definition submessage_id_acknack :: byte where "submessage_id_acknack = 0x06"

definition submessage_id_heartbeat :: byte where "submessage_id_heartbeat = 0x07"

definition submessage_id_info_timestamp :: byte where "submessage_id_info_timestamp = 0x09"

definition submessage_id_info_source :: byte where "submessage_id_info_source = 0x0C"

definition submessage_id_info_destination :: byte where "submessage_id_info_destination = 0x0E"

definition submessage_id_data :: byte where "submessage_id_data = 0x15"

definition rtps_header_size :: nat where "rtps_header_size = 20"

definition submessage_header_size :: nat where "submessage_header_size = 4"

datatype message_route_error =
  route_invalid_argument | route_truncated | route_invalid_protocol | route_unsupported_version
  | route_malformed_submessage | route_invalid_info_submessage | route_submessage_not_found

record rtps_timestamp =
  ts_seconds :: u32
  ts_fraction :: u32

record route_context =
  rc_version :: protocol_version
  rc_vendor_id :: vendor_id
  rc_source :: guid_prefix
  rc_destination :: guid_prefix
  rc_has_destination :: bool
  rc_timestamp :: rtps_timestamp
  rc_has_timestamp :: bool

record routed_submessage_view =
  rv_version :: protocol_version
  rv_vendor_id :: vendor_id
  rv_source_guid_prefix :: guid_prefix
  rv_destination_guid_prefix :: guid_prefix
  rv_has_destination :: bool
  rv_source_timestamp :: rtps_timestamp
  rv_has_source_timestamp :: bool
  rv_id :: byte
  rv_flags :: byte
  rv_byte_order :: byte_order
  rv_content :: "byte list"
  rv_offset :: nat

definition nonzero_prefix :: "guid_prefix \<Rightarrow> bool" where
  "nonzero_prefix prefix = list_ex (\<lambda>octet. octet \<noteq> 0) prefix"

definition apply_info ::
  "byte \<Rightarrow> byte \<Rightarrow> byte_order \<Rightarrow> byte list \<Rightarrow> route_context \<Rightarrow> (message_route_error + route_context) option" where
  "apply_info sid flags order content ctx =
     (if sid = submessage_id_info_destination then
        if length content \<noteq> 12 then Some (Inl route_invalid_info_submessage)
        else do {
          d \<leftarrow> rd_block content 0 12;
          Some (Inr (ctx\<lparr>rc_destination := d, rc_has_destination := nonzero_prefix d\<rparr>)) }
      else if sid = submessage_id_info_source then
        if length content \<noteq> 20 then Some (Inl route_invalid_info_submessage)
        else do {
          major \<leftarrow> rd content 4;
          minor \<leftarrow> rd content 5;
          let version = \<lparr>pv_major = major, pv_minor = minor\<rparr>;
          if unsupported_version version then Some (Inl route_unsupported_version)
          else do {
            vendor \<leftarrow> rd_block content 6 2;
            source \<leftarrow> rd_block content 8 12;
            Some (Inr (ctx\<lparr>rc_version := version, rc_vendor_id := vendor, rc_source := source\<rparr>)) } }
      else if sid = submessage_id_info_timestamp then
        if flags AND 0x02 \<noteq> 0 then
          if length content \<noteq> 0 then Some (Inl route_invalid_info_submessage)
          else Some (Inr (ctx\<lparr>rc_has_timestamp := False\<rparr>))
        else if length content \<noteq> 8 then Some (Inl route_invalid_info_submessage)
        else do {
          seconds \<leftarrow> read_u32 order 0 content;
          fraction \<leftarrow> read_u32 order 4 content;
          Some (Inr (ctx\<lparr>rc_timestamp := \<lparr>ts_seconds = seconds, ts_fraction = fraction\<rparr>,
                         rc_has_timestamp := True\<rparr>)) }
      else Some (Inr ctx))"

text \<open>The local variables of the walk; \<open>found\<close> is \<open>candidate \<noteq> None\<close>.\<close>

record route_walk_state =
  wk_context :: route_context
  wk_candidate :: "routed_submessage_view option"
  wk_occurrence :: nat
  wk_offset :: nat

definition flags_order :: "byte \<Rightarrow> byte_order" where
  "flags_order flags = (if flags AND 0x01 \<noteq> 0 then little_endian else big_endian)"

definition routed_view :: "route_context \<Rightarrow> byte \<Rightarrow> byte \<Rightarrow> byte list \<Rightarrow> nat \<Rightarrow> routed_submessage_view" where
  "routed_view ctx sid flags content offset =
     \<lparr>rv_version = rc_version ctx, rv_vendor_id = rc_vendor_id ctx,
      rv_source_guid_prefix = rc_source ctx, rv_destination_guid_prefix = rc_destination ctx,
      rv_has_destination = rc_has_destination ctx, rv_source_timestamp = rc_timestamp ctx,
      rv_has_source_timestamp = rc_has_timestamp ctx, rv_id = sid, rv_flags = flags,
      rv_byte_order = flags_order flags, rv_content = content, rv_offset = offset\<rparr>"

text \<open>One iteration of the loop; the boolean is its \<open>break\<close>.\<close>

definition route_step ::
  "byte list \<Rightarrow> byte \<Rightarrow> nat \<Rightarrow> route_walk_state \<Rightarrow> (message_route_error + bool \<times> route_walk_state) option" where
  "route_step message wanted_id wanted_occurrence st =
     (let offset = wk_offset st; message_size = length message
      in if message_size - offset < submessage_header_size
         then Some (Inl route_malformed_submessage)
         else do {
           sid \<leftarrow> rd message offset;
           flags \<leftarrow> rd message (offset + 1);
           let order = flags_order flags;
           declared \<leftarrow> read_u16 order (offset + 2) message;
           let content_offset = offset + submessage_header_size;
           let available = message_size - content_offset;
           let (content_size, extends_to_end) =
                 (if declared = 0
                  then if sid = submessage_id_pad \<or> sid = submessage_id_info_timestamp
                       then (0, False) else (available, True)
                  else (unat declared, False));
           if content_size > available then Some (Inl route_truncated)
           else do {
             content \<leftarrow> rd_block message content_offset content_size;
             let candidate =
                   (if sid = wanted_id \<and> wk_occurrence st = wanted_occurrence
                    then Some (routed_view (wk_context st) sid flags content offset)
                    else wk_candidate st);
             let occurrence = (if sid = wanted_id then wk_occurrence st + 1 else wk_occurrence st);
             info \<leftarrow> apply_info sid flags order content (wk_context st);
             case info of
               Inl e \<Rightarrow> Some (Inl e)
             | Inr ctx \<Rightarrow>
                 Some (Inr (extends_to_end,
                   \<lparr>wk_context = ctx, wk_candidate = candidate, wk_occurrence = occurrence,
                    wk_offset = content_offset + content_size\<rparr>)) } })"

lemma route_step_advances:
  "route_step message wanted n st = Some (Inr (brk, st')) \<Longrightarrow>
   wk_offset st < wk_offset st' \<and> wk_offset st' \<le> length message"
  by (auto simp: route_step_def Let_def submessage_header_size_def rd_block_def
      split: if_splits sum.splits bind_splits)

function route_walk ::
  "byte list \<Rightarrow> byte \<Rightarrow> nat \<Rightarrow> route_walk_state \<Rightarrow> (message_route_error + route_walk_state) option" where
  "route_walk message wanted_id wanted_occurrence st =
     (if wk_offset st < length message
      then (case route_step message wanted_id wanted_occurrence st of
              None \<Rightarrow> None
            | Some (Inl e) \<Rightarrow> Some (Inl e)
            | Some (Inr (brk, st')) \<Rightarrow>
                if brk then Some (Inr st')
                else route_walk message wanted_id wanted_occurrence st')
      else Some (Inr st))"
  by pat_completeness auto

termination
  by (relation "measure (\<lambda>(message, _, _, st). length message - wk_offset st)")
    (auto dest: route_step_advances)

declare route_walk.simps [simp del]

definition find_submessage ::
  "span \<Rightarrow> byte \<Rightarrow> nat \<Rightarrow> (message_route_error + routed_submessage_view) option" where
  "find_submessage message wanted_id wanted_occurrence =
     (if null_span message \<and> span_size message \<noteq> 0 then Some (Inl route_invalid_argument)
      else if span_size message < rtps_header_size then Some (Inl route_truncated)
      else do {
        m \<leftarrow> deref message;
        magic \<leftarrow> rd_block m 0 4;
        if magic \<noteq> [0x52, 0x54, 0x50, 0x53] then Some (Inl route_invalid_protocol)
        else do {
          major \<leftarrow> rd m 4;
          minor \<leftarrow> rd m 5;
          let version = \<lparr>pv_major = major, pv_minor = minor\<rparr>;
          if unsupported_version version then Some (Inl route_unsupported_version)
          else do {
            vendor \<leftarrow> rd_block m 6 2;
            source \<leftarrow> rd_block m 8 12;
            r \<leftarrow> route_walk m wanted_id wanted_occurrence
                  \<lparr>wk_context =
                     \<lparr>rc_version = version, rc_vendor_id = vendor, rc_source = source,
                      rc_destination = replicate 12 0, rc_has_destination = False,
                      rc_timestamp = \<lparr>ts_seconds = 0, ts_fraction = 0\<rparr>, rc_has_timestamp = False\<rparr>,
                   wk_candidate = None, wk_occurrence = 0, wk_offset = rtps_header_size\<rparr>;
            case r of
              Inl e \<Rightarrow> Some (Inl e)
            | Inr st \<Rightarrow>
                if wk_offset st \<noteq> length m then Some (Inl route_malformed_submessage)
                else (case wk_candidate st of
                        None \<Rightarrow> Some (Inl route_submessage_not_found)
                      | Some v \<Rightarrow> Some (Inr v)) } } })"

section \<open>Reference semantics\<close>

text \<open>
  Submessages as a sender means them, their bytes on the wire, and the effect of the INFO
  submessages on the context of those that follow.
\<close>

datatype rtps_submessage =
  InfoDestination byte guid_prefix
  | InfoSource byte "byte list" protocol_version vendor_id guid_prefix
  | InfoTimestamp byte rtps_timestamp
  | InfoTimestampInvalid byte
  | Submessage byte byte "byte list"

fun sm_id :: "rtps_submessage \<Rightarrow> byte" where
  "sm_id (InfoDestination flags p) = submessage_id_info_destination"
| "sm_id (InfoSource flags unused v vendor p) = submessage_id_info_source"
| "sm_id (InfoTimestamp flags t) = submessage_id_info_timestamp"
| "sm_id (InfoTimestampInvalid flags) = submessage_id_info_timestamp"
| "sm_id (Submessage sid flags content) = sid"

fun sm_flags :: "rtps_submessage \<Rightarrow> byte" where
  "sm_flags (InfoDestination flags p) = flags"
| "sm_flags (InfoSource flags unused v vendor p) = flags"
| "sm_flags (InfoTimestamp flags t) = flags"
| "sm_flags (InfoTimestampInvalid flags) = flags"
| "sm_flags (Submessage sid flags content) = flags"

fun sm_content :: "rtps_submessage \<Rightarrow> byte list" where
  "sm_content (InfoDestination flags p) = p"
| "sm_content (InfoSource flags unused v vendor p) = unused @ [pv_major v, pv_minor v] @ vendor @ p"
| "sm_content (InfoTimestamp flags t) =
     word_bytes (flags_order flags) 4 (ts_seconds t) @ word_bytes (flags_order flags) 4 (ts_fraction t)"
| "sm_content (InfoTimestampInvalid flags) = []"
| "sm_content (Submessage sid flags content) = content"

fun sm_ok :: "rtps_submessage \<Rightarrow> bool" where
  "sm_ok (InfoDestination flags p) = wf_guid_prefix p"
| "sm_ok (InfoSource flags unused v vendor p) =
     (length unused = 4 \<and> \<not> unsupported_version v \<and> wf_vendor_id vendor \<and> wf_guid_prefix p)"
| "sm_ok (InfoTimestamp flags t) = (flags AND 0x02 = 0)"
| "sm_ok (InfoTimestampInvalid flags) = (flags AND 0x02 \<noteq> 0)"
| "sm_ok (Submessage sid flags content) =
     (sid \<notin> {submessage_id_info_destination, submessage_id_info_source, submessage_id_info_timestamp})"

fun info_update :: "rtps_submessage \<Rightarrow> route_context \<Rightarrow> route_context" where
  "info_update (InfoDestination flags p) ctx =
     ctx\<lparr>rc_destination := p, rc_has_destination := nonzero_prefix p\<rparr>"
| "info_update (InfoSource flags unused v vendor p) ctx =
     ctx\<lparr>rc_version := v, rc_vendor_id := vendor, rc_source := p\<rparr>"
| "info_update (InfoTimestamp flags t) ctx = ctx\<lparr>rc_timestamp := t, rc_has_timestamp := True\<rparr>"
| "info_update (InfoTimestampInvalid flags) ctx = ctx\<lparr>rc_has_timestamp := False\<rparr>"
| "info_update (Submessage sid flags content) ctx = ctx"

text \<open>
  A submessage declares its length, which may be zero for PAD and INFO_TS only; the last one
  may instead declare zero and extend to the end of the message.
\<close>

definition encode_submessage :: "rtps_submessage \<Rightarrow> byte list" where
  "encode_submessage s =
     [sm_id s, sm_flags s] @ word_bytes (flags_order (sm_flags s)) 2 (of_nat (length (sm_content s)) :: u16) @
     sm_content s"

definition encode_open_submessage :: "rtps_submessage \<Rightarrow> byte list" where
  "encode_open_submessage s = [sm_id s, sm_flags s, 0, 0] @ sm_content s"

definition zero_length_id :: "byte \<Rightarrow> bool" where
  "zero_length_id sid \<longleftrightarrow> sid = submessage_id_pad \<or> sid = submessage_id_info_timestamp"

definition closed_ok :: "rtps_submessage \<Rightarrow> bool" where
  "closed_ok s \<longleftrightarrow> sm_ok s \<and> length (sm_content s) < 2 ^ 16 \<and> (sm_content s = [] \<longrightarrow> zero_length_id (sm_id s))"

definition open_ok :: "rtps_submessage \<Rightarrow> bool" where
  "open_ok s \<longleftrightarrow> sm_ok s \<and> \<not> zero_length_id (sm_id s)"

definition encode_submessages :: "rtps_submessage list \<Rightarrow> rtps_submessage option \<Rightarrow> byte list" where
  "encode_submessages subs tail =
     concat (map encode_submessage subs) @ (case tail of None \<Rightarrow> [] | Some s \<Rightarrow> encode_open_submessage s)"

definition rtps_header :: "protocol_version \<Rightarrow> vendor_id \<Rightarrow> guid_prefix \<Rightarrow> byte list" where
  "rtps_header version vendor prefix =
     [0x52, 0x54, 0x50, 0x53, pv_major version, pv_minor version] @ vendor @ prefix"

definition initial_context :: "protocol_version \<Rightarrow> vendor_id \<Rightarrow> guid_prefix \<Rightarrow> route_context" where
  "initial_context version vendor prefix =
     \<lparr>rc_version = version, rc_vendor_id = vendor, rc_source = prefix,
      rc_destination = replicate 12 0, rc_has_destination = False,
      rc_timestamp = \<lparr>ts_seconds = 0, ts_fraction = 0\<rparr>, rc_has_timestamp = False\<rparr>"

primrec route_spec ::
  "byte \<Rightarrow> nat \<Rightarrow> nat \<Rightarrow> route_context \<Rightarrow> rtps_submessage list \<Rightarrow> routed_submessage_view option" where
  "route_spec wanted n offset ctx [] = None"
| "route_spec wanted n offset ctx (s # subs) =
     (if sm_id s = wanted \<and> n = 0
      then Some (routed_view ctx (sm_id s) (sm_flags s) (sm_content s) offset)
      else route_spec wanted (if sm_id s = wanted then n - 1 else n)
             (offset + 4 + length (sm_content s)) (info_update s ctx) subs)"

definition route_advance ::
  "byte \<Rightarrow> nat \<Rightarrow> rtps_submessage \<Rightarrow> route_walk_state \<Rightarrow> route_walk_state" where
  "route_advance wanted n s st =
     \<lparr>wk_context = info_update s (wk_context st),
      wk_candidate = (if sm_id s = wanted \<and> wk_occurrence st = n
        then Some (routed_view (wk_context st) (sm_id s) (sm_flags s) (sm_content s) (wk_offset st))
        else wk_candidate st),
      wk_occurrence = (if sm_id s = wanted then wk_occurrence st + 1 else wk_occurrence st),
      wk_offset = wk_offset st + 4 + length (sm_content s)\<rparr>"

section \<open>Lemmas\<close>

lemma apply_info_total: "\<exists>r. apply_info sid flags order content ctx = Some r"
  by (auto simp: apply_info_def rd_block_def read_u32_def load_word_block Let_def)

lemma submessage_ids_distinct [simp]:
  "submessage_id_info_source \<noteq> submessage_id_info_destination"
  "submessage_id_info_timestamp \<noteq> submessage_id_info_destination"
  "submessage_id_info_timestamp \<noteq> submessage_id_info_source"
  by (simp_all add: submessage_id_info_source_def submessage_id_info_destination_def
    submessage_id_info_timestamp_def)

lemma apply_info_ok:
  assumes "sm_ok s"
  shows "apply_info (sm_id s) (sm_flags s) (flags_order (sm_flags s)) (sm_content s) ctx =
    Some (Inr (info_update s ctx))"
proof (cases s)
  case (InfoSource flags unused v vendor p)
  with assms have u: "length unused = 4" "length vendor = 2" "length p = 12" "\<not> unsupported_version v"
    by (simp_all add: wf_vendor_id_def wf_guid_prefix_def)
  then show ?thesis
    by (cases v) (simp add: InfoSource apply_info_def rd_block_def nth_append Let_def)
qed (use assms in \<open>auto simp: apply_info_def rd_block_def wf_guid_prefix_def u32_codec.get_block\<close>)

lemma route_step_total:
  assumes "wk_offset st \<le> length message"
  shows "\<exists>r. route_step message wanted n st = Some r"
proof (cases "length message - wk_offset st < 4")
  case False
  let ?o = "wk_offset st"
  have fl: "?o < length message" "Suc ?o < length message" using False by auto
  from False obtain d where d: "read_u16 (flags_order (message ! Suc ?o)) (Suc (Suc ?o)) message = Some d"
    using u16_codec.get_block [of "Suc (Suc ?o)" message] by fastforce
  define cs where "cs = (if d = 0 then if message ! ?o = submessage_id_pad \<or> message ! ?o = submessage_id_info_timestamp
    then (0, False) else (length message - (?o + 4), True) else (unat d, False))"
  show ?thesis
  proof (cases "fst cs > length message - (?o + 4)")
    case True
    with fl d False show ?thesis
      by (simp add: route_step_def submessage_header_size_def cs_def [symmetric] split_def)
  next
    case in_bounds: False
    then have "rd_block message (?o + 4) (fst cs) = Some (take (fst cs) (drop (?o + 4) message))"
      using False by (auto simp: rd_block_def)
    moreover obtain i where "apply_info (message ! ?o) (message ! Suc ?o) (flags_order (message ! Suc ?o))
        (take (fst cs) (drop (?o + 4) message)) (wk_context st) = Some i"
      using apply_info_total by blast
    ultimately show ?thesis using fl d False in_bounds
      by (cases i) (simp_all add: route_step_def submessage_header_size_def cs_def [symmetric] split_def Let_def)
  qed
qed (simp add: route_step_def submessage_header_size_def)

lemma route_walk_total:
  "wk_offset st \<le> length message \<Longrightarrow> \<exists>r. route_walk message wanted n st = Some r"
proof (induction message wanted n st rule: route_walk.induct)
  case (1 message wanted n st)
  then show ?case
    using route_step_total [of st message wanted n] route_step_advances [of message wanted n st]
    by (subst route_walk.simps) (auto split: sum.splits)
qed

lemma route_step_encoded:
  assumes "message = pre @ [sm_id s, sm_flags s] @ word_bytes (flags_order (sm_flags s)) 2 (d :: u16) @ sm_content s @ post"
    and "wk_offset st = length pre" "sm_ok s"
    and "if d = 0 then if zero_length_id (sm_id s) then sm_content s = [] \<and> \<not> brk else post = [] \<and> brk
         else unat d = length (sm_content s) \<and> \<not> brk"
  shows "route_step message wanted n st = Some (Inr (brk, route_advance wanted n s st))"
proof -
  let ?o = "length pre"
  have nth: "message ! ?o = sm_id s" "message ! Suc ?o = sm_flags s"
    and len: "length message = ?o + 4 + length (sm_content s) + length post"
    using assms(1) by (simp_all add: nth_append)
  have "take 2 (drop (Suc (Suc ?o)) message) = word_bytes (flags_order (sm_flags s)) 2 d"
    using assms(1) by simp
  then have rd: "read_u16 (flags_order (sm_flags s)) (Suc (Suc ?o)) message = Some d"
    using len by (subst u16_codec.get_block) simp_all
  have "rd_block message (?o + 4) (length (sm_content s)) = Some (sm_content s)"
    using assms(1) len by (simp add: rd_block_def)
  moreover have "apply_info (sm_id s) (sm_flags s) (flags_order (sm_flags s)) (sm_content s) (wk_context st) =
      Some (Inr (info_update s (wk_context st)))"
    using assms(3) by (rule apply_info_ok)
  ultimately show ?thesis
    using nth len rd assms(2,4)
    by (auto simp: route_step_def submessage_header_size_def zero_length_id_def Let_def route_advance_def
        split: if_splits)
qed

lemma route_step_closed:
  assumes "closed_ok s" "wk_offset st = length pre"
  shows "route_step (pre @ encode_submessage s @ post) wanted n st = Some (Inr (False, route_advance wanted n s st))"
proof (rule route_step_encoded)
  let ?d = "of_nat (length (sm_content s)) :: u16"
  show "pre @ encode_submessage s @ post = pre @ [sm_id s, sm_flags s] @
      word_bytes (flags_order (sm_flags s)) 2 ?d @ sm_content s @ post"
    by (simp add: encode_submessage_def)
  have "unat ?d = length (sm_content s)" using assms(1) by (simp add: closed_ok_def unat_of_nat)
  then show "if ?d = 0 then if zero_length_id (sm_id s) then sm_content s = [] \<and> \<not> False else post = [] \<and> False
      else unat ?d = length (sm_content s) \<and> \<not> False"
    using assms(1) by (auto simp: closed_ok_def unat_eq_0)
qed (use assms in \<open>simp_all add: closed_ok_def\<close>)

lemma route_step_open:
  assumes "open_ok s" "wk_offset st = length pre"
  shows "route_step (pre @ encode_open_submessage s) wanted n st = Some (Inr (True, route_advance wanted n s st))"
proof (rule route_step_encoded [where d = 0 and post = "[]"])
  show "pre @ encode_open_submessage s = pre @ [sm_id s, sm_flags s] @
      word_bytes (flags_order (sm_flags s)) 2 (0 :: u16) @ sm_content s @ []"
    by (simp add: encode_open_submessage_def word_bytes_def upt_2)
qed (use assms in \<open>simp_all add: open_ok_def\<close>)

lemma route_walk_closed:
  assumes "closed_ok s" "wk_offset st = length pre"
  shows "route_walk (pre @ encode_submessage s @ post) wanted n st =
    route_walk (pre @ encode_submessage s @ post) wanted n (route_advance wanted n s st)"
  using assms route_step_closed [OF assms]
  by (subst route_walk.simps) (simp add: encode_submessage_def)

lemma route_walk_open:
  assumes "open_ok s" "wk_offset st = length pre"
  shows "route_walk (pre @ encode_open_submessage s) wanted n st = Some (Inr (route_advance wanted n s st))"
  using assms route_step_open [OF assms]
  by (subst route_walk.simps) (simp add: encode_open_submessage_def)

lemma length_encode_submessage [simp]: "length (encode_submessage s) = 4 + length (sm_content s)"
  by (simp add: encode_submessage_def)

lemma route_walk_spec:
  assumes "list_all closed_ok subs" "pred_option open_ok tail" "wk_offset st = length pre"
    and "wk_occurrence st \<le> n \<Longrightarrow> wk_candidate st = None"
  shows "\<exists>st'. route_walk (pre @ encode_submessages subs tail) wanted n st = Some (Inr st') \<and>
    wk_offset st' = length (pre @ encode_submessages subs tail) \<and>
    wk_candidate st' =
      (if wk_occurrence st \<le> n
       then route_spec wanted (n - wk_occurrence st) (length pre) (wk_context st) (subs @ option_list tail)
       else wk_candidate st)"
  using assms
proof (induction subs arbitrary: pre st)
  case Nil
  show ?case
  proof (cases tail)
    case None
    with Nil show ?thesis by (subst route_walk.simps) (simp add: encode_submessages_def)
  next
    case (Some s)
    with Nil route_walk_open [of s st pre wanted n] show ?thesis
      by (auto simp: encode_submessages_def route_advance_def encode_open_submessage_def)
  qed
next
  case (Cons s subs)
  let ?pre = "pre @ encode_submessage s"
  have eq: "pre @ encode_submessages (s # subs) tail = ?pre @ encode_submessages subs tail"
    by (simp add: encode_submessages_def)
  have "\<exists>st'. route_walk (?pre @ encode_submessages subs tail) wanted n (route_advance wanted n s st) = Some (Inr st') \<and>
    wk_offset st' = length (?pre @ encode_submessages subs tail) \<and>
    wk_candidate st' =
      (if wk_occurrence (route_advance wanted n s st) \<le> n
       then route_spec wanted (n - wk_occurrence (route_advance wanted n s st)) (length ?pre)
              (wk_context (route_advance wanted n s st)) (subs @ option_list tail)
       else wk_candidate (route_advance wanted n s st))"
    by (rule Cons.IH) (use Cons.prems in \<open>auto simp: route_advance_def split: if_splits\<close>)
  then show ?case
    using Cons.prems route_walk_closed [of s st pre "encode_submessages subs tail" wanted n]
    by (auto simp: eq route_advance_def Suc_diff_le diff_Suc ac_simps split: if_splits nat.splits)
qed

lemma find_submessage_header:
  assumes "\<not> unsupported_version version" "wf_vendor_id vendor" "wf_guid_prefix prefix"
  shows "find_submessage (Span (rtps_header version vendor prefix @ bs)) wanted n =
    Option.bind (route_walk (rtps_header version vendor prefix @ bs) wanted n
        \<lparr>wk_context = initial_context version vendor prefix, wk_candidate = None, wk_occurrence = 0,
         wk_offset = rtps_header_size\<rparr>)
      (\<lambda>r. case r of
         Inl e \<Rightarrow> Some (Inl e)
       | Inr st \<Rightarrow>
           if wk_offset st \<noteq> 20 + length bs then Some (Inl route_malformed_submessage)
           else (case wk_candidate st of
                   None \<Rightarrow> Some (Inl route_submessage_not_found)
                 | Some v \<Rightarrow> Some (Inr v)))"
  using assms
  by (cases version) (simp add: find_submessage_def rtps_header_def rtps_header_size_def wf_vendor_id_def
      wf_guid_prefix_def rd_block_def initial_context_def)

lemma length_rtps_header:
  "wf_vendor_id vendor \<Longrightarrow> wf_guid_prefix prefix \<Longrightarrow> length (rtps_header version vendor prefix) = rtps_header_size"
  by (simp add: rtps_header_def rtps_header_size_def wf_vendor_id_def wf_guid_prefix_def)

lemma find_submessage_encoded:
  assumes "\<not> unsupported_version version" "wf_vendor_id vendor" "wf_guid_prefix prefix"
    and "list_all closed_ok subs" "pred_option open_ok tail"
  shows "find_submessage (Span (rtps_header version vendor prefix @ encode_submessages subs tail)) wanted n =
    Some (case route_spec wanted n rtps_header_size (initial_context version vendor prefix) (subs @ option_list tail) of
            None \<Rightarrow> Inl route_submessage_not_found
          | Some v \<Rightarrow> Inr v)"
  using assms length_rtps_header [OF assms(2,3), of version]
    route_walk_spec [OF assms(4,5), of "\<lparr>wk_context = initial_context version vendor prefix, wk_candidate = None,
      wk_occurrence = 0, wk_offset = rtps_header_size\<rparr>" "rtps_header version vendor prefix" n wanted]
  by (auto simp: find_submessage_header rtps_header_size_def split: option.splits)

lemma find_submessage_total: "\<exists>r. find_submessage message wanted n = Some r"
proof (cases "\<exists>m. message = Span m \<and> 20 \<le> length m")
  case True
  then obtain m where m: "message = Span m" "20 \<le> length m" by blast
  obtain r where "route_walk m wanted n \<lparr>wk_context = initial_context \<lparr>pv_major = m ! 4, pv_minor = m ! 5\<rparr>
      (take 2 (drop 6 m)) (take 12 (drop 8 m)), wk_candidate = None, wk_occurrence = 0, wk_offset = 20\<rparr> = Some r"
    using route_walk_total [of "\<lparr>wk_context = initial_context \<lparr>pv_major = m ! 4, pv_minor = m ! 5\<rparr>
      (take 2 (drop 6 m)) (take 12 (drop 8 m)), wk_candidate = None, wk_occurrence = 0, wk_offset = 20\<rparr>" m wanted n] m
    by auto
  with m show ?thesis
    by (cases r) (auto simp: find_submessage_def rtps_header_size_def rd_block_def Let_def initial_context_def
        split: option.splits)
next
  case False
  then show ?thesis
    by (cases message) (auto simp: find_submessage_def rtps_header_size_def)
qed

lemma split_8: "length xs = 8 \<Longrightarrow> take 4 xs @ take 4 (drop 4 xs) = xs"
  using append_take_drop_id [of 4 xs] by simp

lemma apply_info_decode:
  assumes "apply_info sid flags (flags_order flags) content ctx = Some (Inr ctx')"
  shows "\<exists>s. sm_ok s \<and> sm_id s = sid \<and> sm_flags s = flags \<and> sm_content s = content \<and> ctx' = info_update s ctx"
proof -
  consider (dst) "sid = submessage_id_info_destination" | (src) "sid = submessage_id_info_source"
    | (ts) "sid = submessage_id_info_timestamp"
    | (other) "sid \<notin> {submessage_id_info_destination, submessage_id_info_source, submessage_id_info_timestamp}"
    by blast
  then show ?thesis
  proof cases
    case dst
    with assms show ?thesis
      by (intro exI [of _ "InfoDestination flags content"])
        (auto simp: apply_info_def rd_block_def wf_guid_prefix_def split: if_splits)
  next
    case src
    with assms have len: "length content = 20" by (auto simp: apply_info_def split: if_splits)
    then have "content = take 4 content @ [content ! 4, content ! 5] @ take 2 (drop 6 content) @ take 12 (drop 8 content)"
      by (intro nth_equalityI) (auto simp: nth_append less_Suc_eq numeral_eq_Suc nth_Cons')
    with src assms len show ?thesis
      by (intro exI [of _ "InfoSource flags (take 4 content) \<lparr>pv_major = content ! 4, pv_minor = content ! 5\<rparr>
          (take 2 (drop 6 content)) (take 12 (drop 8 content))"])
        (auto simp: apply_info_def rd_block_def wf_guid_prefix_def wf_vendor_id_def Let_def split: if_splits)
  next
    case ts
    show ?thesis
    proof (cases "flags AND 0x02 \<noteq> 0")
      case True
      with ts assms show ?thesis
        by (intro exI [of _ "InfoTimestampInvalid flags"]) (auto simp: apply_info_def split: if_splits)
    next
      case False
      with ts assms have len: "length content = 8" by (auto simp: apply_info_def split: if_splits)
      let ?s = "bytes_word (flags_order flags) (take 4 content)"
        and ?f = "bytes_word (flags_order flags) (take 4 (drop 4 content))"
      from ts False assms len have "ctx' = ctx\<lparr>rc_timestamp := \<lparr>ts_seconds = ?s, ts_fraction = ?f\<rparr>, rc_has_timestamp := True\<rparr>"
        by (auto simp: apply_info_def u32_codec.get_block)
      with ts False len show ?thesis
        by (intro exI [of _ "InfoTimestamp flags \<lparr>ts_seconds = ?s, ts_fraction = ?f\<rparr>"])
          (simp add: word_bytes_bytes_word split_8)
    qed
  next
    case other
    with assms show ?thesis
      by (intro exI [of _ "Submessage sid flags content"]) (auto simp: apply_info_def)
  qed
qed

lemma route_step_decode:
  assumes "route_step m wanted n st = Some (Inr (brk, st'))" "wk_offset st \<le> length m"
  shows "\<exists>s. st' = route_advance wanted n s st \<and>
    (if brk then open_ok s \<and> drop (wk_offset st) m = encode_open_submessage s
     else closed_ok s \<and> drop (wk_offset st) m = encode_submessage s @ drop (wk_offset st') m)"
proof -
  let ?o = "wk_offset st"
  let ?sid = "m ! ?o" and ?flags = "m ! Suc ?o"
  let ?order = "flags_order ?flags"
  from assms have len: "?o + 4 \<le> length m"
    by (auto simp: route_step_def submessage_header_size_def Let_def split: if_splits)
  define d :: u16 where "d = bytes_word ?order (take 2 (drop (Suc (Suc ?o)) m))"
  have rd: "read_u16 ?order (Suc (Suc ?o)) m = Some d"
    using len by (simp add: u16_codec.get_block d_def)
  define size where "size = (if d = 0 then if zero_length_id ?sid then 0 else length m - (?o + 4) else unat d)"
  define content where "content = take size (drop (?o + 4) m)"
  have lens: "?o < length m" "Suc ?o < length m" "\<not> length m - ?o < 4" using len by auto
  from assms(1) rd lens have size: "size \<le> length m - (?o + 4)"
    by (auto simp: route_step_def submessage_header_size_def Let_def size_def zero_length_id_def split: if_splits)
  then have block: "rd_block m (?o + 4) size = Some content"
    using len by (auto simp: rd_block_def content_def)
  from assms(1) rd lens block obtain ctx' where
    info: "apply_info ?sid ?flags ?order content (wk_context st) = Some (Inr ctx')"
    and brk: "brk \<longleftrightarrow> d = 0 \<and> \<not> zero_length_id ?sid"
    and st': "st' = \<lparr>wk_context = ctx', wk_candidate = (if ?sid = wanted \<and> wk_occurrence st = n
        then Some (routed_view (wk_context st) ?sid ?flags content ?o) else wk_candidate st),
        wk_occurrence = (if ?sid = wanted then wk_occurrence st + 1 else wk_occurrence st),
        wk_offset = ?o + 4 + size\<rparr>"
    by (auto simp: route_step_def submessage_header_size_def Let_def size_def zero_length_id_def
        split: if_splits bind_splits sum.splits)
  from apply_info_decode [OF info] obtain s where
    s: "sm_ok s" "sm_id s = ?sid" "sm_flags s = ?flags" "sm_content s = content" "ctx' = info_update s (wk_context st)"
    by blast
  have cl: "length content = size" using size len by (simp add: content_def)
  with s st' have adv: "st' = route_advance wanted n s st" by (simp add: route_advance_def)
  have wb: "word_bytes ?order 2 d = take 2 (drop (Suc (Suc ?o)) m)"
    using len by (simp add: d_def word_bytes_bytes_word)
  have "drop ?o m = [?sid, ?flags] @ word_bytes ?order 2 d @ content @ drop (?o + 4 + size) m"
  proof -
    have "Suc (Suc ?o) + 2 = ?o + 4" by simp
    from drop_split [of "Suc (Suc ?o)" 2 m, unfolded this] len
    have "drop (Suc (Suc ?o)) m = word_bytes ?order 2 d @ drop (?o + 4) m" by (simp add: wb)
    with drop_2 [of ?o m] drop_split [of "?o + 4" size m] lens len size show ?thesis
      by (simp add: content_def)
  qed
  moreover have "word_bytes ?order 2 (0 :: u16) = [0, 0]" by (simp add: word_bytes_def upt_2)
  moreover have "d = of_nat size" if "d \<noteq> 0" using that by (simp add: size_def)
  moreover have "size < 2 ^ 16" if "d \<noteq> 0"
    using that unsigned_less [of d] by (simp add: size_def)
  ultimately have "if brk then open_ok s \<and> drop ?o m = encode_open_submessage s
     else closed_ok s \<and> drop ?o m = encode_submessage s @ drop (wk_offset st') m"
    using s cl st' brk size
    by (cases "d = 0") (auto simp: size_def open_ok_def closed_ok_def encode_open_submessage_def encode_submessage_def
        unat_eq_0 split: if_splits)
  with adv show ?thesis by blast
qed

lemma route_walk_decode:
  "route_walk m wanted n st = Some (Inr st') \<Longrightarrow> wk_offset st \<le> length m \<Longrightarrow>
   \<exists>subs tail. list_all closed_ok subs \<and> pred_option open_ok tail \<and> drop (wk_offset st) m = encode_submessages subs tail"
proof (induction m wanted n st rule: route_walk.induct)
  case (1 m wanted n st)
  show ?case
  proof (cases "wk_offset st < length m")
    case False
    with 1 show ?thesis
      by (intro exI [of _ "[]"] exI [of _ None]) (simp add: encode_submessages_def)
  next
    case True
    with 1 obtain brk st'' where step: "route_step m wanted n st = Some (Inr (brk, st''))"
      by (subst (asm) route_walk.simps) (auto split: option.splits sum.splits)
    from route_step_decode [OF step "1.prems"(2)] obtain s where
      s: "if brk then open_ok s \<and> drop (wk_offset st) m = encode_open_submessage s
        else closed_ok s \<and> drop (wk_offset st) m = encode_submessage s @ drop (wk_offset st'') m" by blast
    show ?thesis
    proof (cases brk)
      case True
      with s show ?thesis by (intro exI [of _ "[]"] exI [of _ "Some s"]) (simp add: encode_submessages_def)
    next
      case False
      from 1 True step False have "route_walk m wanted n st'' = Some (Inr st')"
        by (subst (asm) route_walk.simps) simp
      with "1.IH" [OF True step refl refl False] route_step_advances [OF step] obtain subs tail where
        "list_all closed_ok subs" "pred_option open_ok tail" "drop (wk_offset st'') m = encode_submessages subs tail"
        by blast
      with False s show ?thesis
        by (intro exI [of _ "s # subs"] exI [of _ tail]) (simp add: encode_submessages_def)
    qed
  qed
qed

lemma find_submessage_decode:
  assumes "find_submessage (Span m) wanted n = Some (Inr v)"
  shows "\<exists>version vendor prefix subs tail. \<not> unsupported_version version \<and> wf_vendor_id vendor \<and> wf_guid_prefix prefix \<and>
    list_all closed_ok subs \<and> pred_option open_ok tail \<and>
    m = rtps_header version vendor prefix @ encode_submessages subs tail"
proof -
  let ?v = "\<lparr>pv_major = m ! 4, pv_minor = m ! 5\<rparr>" and ?vendor = "take 2 (drop 6 m)" and ?p = "take 12 (drop 8 m)"
  from assms have len: "20 \<le> length m"
    by (auto simp: find_submessage_def rtps_header_size_def split: if_splits)
  with assms have magic: "take 4 m = [0x52, 0x54, 0x50, 0x53]" and v: "\<not> unsupported_version ?v"
    by (auto simp: find_submessage_def rtps_header_size_def rd_block_def Let_def split: if_splits)
  have "m = take 4 m @ [m ! 4, m ! 5] @ ?vendor @ ?p @ drop 20 m"
    using len drop_2 [of 4 m] drop_split [of 6 2 m] drop_split [of 8 12 m] append_take_drop_id [of 4 m]
    by simp
  then have m: "m = rtps_header ?v ?vendor ?p @ drop 20 m" by (simp add: rtps_header_def magic)
  have wf: "wf_vendor_id ?vendor" "wf_guid_prefix ?p"
    using len by (simp_all add: wf_vendor_id_def wf_guid_prefix_def)
  from find_submessage_header [OF v wf, of "drop 20 m" wanted n] assms
  obtain st where "route_walk m wanted n \<lparr>wk_context = initial_context ?v ?vendor ?p, wk_candidate = None,
      wk_occurrence = 0, wk_offset = rtps_header_size\<rparr> = Some (Inr st)"
    unfolding m [symmetric] 
    by (auto split: bind_splits sum.splits)
  with route_walk_decode [OF this] len obtain subs tail where
    "list_all closed_ok subs" "pred_option open_ok tail" "drop 20 m = encode_submessages subs tail"
    by (auto simp: rtps_header_size_def)
  with v wf m show ?thesis by metis
qed

section \<open>Properties\<close>

text \<open>C3: The router accepts a message and returns a view exactly when the message is a
  supported header followed by well-formed submessages (the last of which may extend to the end
  of the message) and has the wanted occurrence of the wanted submessage; the view then carries
  that submessage's flags, content and offset and the source, destination and timestamp set by
  the INFO submessages before it, and by no later one.\<close>

theorem find_submessage_correct:
  "find_submessage message wanted n = Some (Inr view) \<longleftrightarrow>
   (\<exists>version vendor prefix subs tail.
      \<not> unsupported_version version \<and> wf_vendor_id vendor \<and> wf_guid_prefix prefix \<and>
      list_all closed_ok subs \<and> pred_option open_ok tail \<and>
      message = Span (rtps_header version vendor prefix @ encode_submessages subs tail) \<and>
      route_spec wanted n rtps_header_size (initial_context version vendor prefix) (subs @ option_list tail) =
        Some view)" (is "?found \<longleftrightarrow> ?spec")
proof
  assume found: ?found
  then obtain m where m: "message = Span m"
    by (cases message) (auto simp: find_submessage_def rtps_header_size_def split: if_splits)
  from find_submessage_decode [OF found [unfolded m]] obtain version vendor prefix subs tail where
    wf: "\<not> unsupported_version version" "wf_vendor_id vendor" "wf_guid_prefix prefix"
      "list_all closed_ok subs" "pred_option open_ok tail"
    and eq: "m = rtps_header version vendor prefix @ encode_submessages subs tail" by blast
  from found m eq find_submessage_encoded [OF wf, of wanted n] have
    "route_spec wanted n rtps_header_size (initial_context version vendor prefix) (subs @ option_list tail) = Some view"
    by (simp split: option.splits)
  with wf m eq show ?spec by blast
next
  assume ?spec
  then show ?found using find_submessage_encoded by fastforce
qed

text \<open>C26: The router terminates and reads no byte outside the message, whatever the message:
  null, truncated, or with lengths and INFO contents chosen by an attacker.\<close>

theorem find_submessage_safe: "\<exists>r. find_submessage message wanted n = Some r"
  by (rule find_submessage_total)

end
