(* ===== verification/Data_Message.thy ===== *)
theory Data_Message
  imports Router
begin

text \<open>
  The DATA message builder and parser, \<open>src/include/openrtdds/rtps/data_message.hpp\<close> and
  \<open>src/src/rtps/data_message.cpp\<close>. The builder's buffer pointer and capacity are one span; the
  view's payload pointer and size are the slice of the message they denote.
\<close>

unbundle bit_operations_syntax

section \<open>Model\<close>

definition data_fixed_content_size :: nat where "data_fixed_content_size = 20"

definition data_message_overhead :: nat where
  "data_message_overhead = rtps_header_size + submessage_header_size + data_fixed_content_size"

definition minimum_serialized_payload_size :: nat where "minimum_serialized_payload_size = 4"

definition maximum_udp_payload_size :: nat where "maximum_udp_payload_size = 65507"

definition octets_to_inline_qos :: u16 where "octets_to_inline_qos = 16"

datatype rtps_error =
  rtps_none | rtps_invalid_argument | rtps_buffer_overflow | rtps_message_too_large | rtps_truncated
  | rtps_invalid_protocol | rtps_unsupported_version | rtps_unsupported_submessage
  | rtps_unsupported_feature | rtps_invalid_submessage | rtps_invalid_sequence_number
  | rtps_invalid_serialized_payload

fun route_error :: "message_route_error \<Rightarrow> rtps_error" where
  "route_error route_invalid_argument = rtps_invalid_argument"
| "route_error route_truncated = rtps_truncated"
| "route_error route_invalid_protocol = rtps_invalid_protocol"
| "route_error route_unsupported_version = rtps_unsupported_version"
| "route_error route_submessage_not_found = rtps_unsupported_submessage"
| "route_error route_malformed_submessage = rtps_invalid_submessage"
| "route_error route_invalid_info_submessage = rtps_invalid_submessage"

record data_message_config =
  dc_version :: protocol_version
  dc_vendor_id :: vendor_id
  dc_guid_prefix :: guid_prefix
  dc_reader_id :: entity_id
  dc_writer_id :: entity_id
  dc_sequence_number :: u64
  dc_byte_order :: byte_order

record data_message_builder =
  db_buffer :: span
  db_size :: nat
  db_error :: rtps_error

record data_message_view =
  dv_version :: protocol_version
  dv_vendor_id :: vendor_id
  dv_guid_prefix :: guid_prefix
  dv_destination_guid_prefix :: guid_prefix
  dv_has_destination :: bool
  dv_source_timestamp_seconds :: u32
  dv_source_timestamp_fraction :: u32
  dv_has_source_timestamp :: bool
  dv_reader_id :: entity_id
  dv_writer_id :: entity_id
  dv_sequence_number :: u64
  dv_byte_order :: byte_order
  dv_payload :: "byte list"

definition supported_byte_order :: "byte_order \<Rightarrow> bool" where
  "supported_byte_order order \<longleftrightarrow> order = big_endian \<or> order = little_endian"

definition supported_serialized_payload :: "span \<Rightarrow> bool option" where
  "supported_serialized_payload payload =
     (if null_span payload \<or> span_size payload < minimum_serialized_payload_size then Some False
      else do {
        p \<leftarrow> deref payload;
        b0 \<leftarrow> rd p 0;
        b1 \<leftarrow> rd p 1;
        Some (b0 = 0 \<and> b1 \<le> 3) })"

definition data_builder_new :: "span \<Rightarrow> data_message_builder" where
  "data_builder_new buffer =
     \<lparr>db_buffer = buffer, db_size = 0,
      db_error = (if null_span buffer \<and> span_size buffer \<noteq> 0 then rtps_invalid_argument else rtps_none)\<rparr>"

definition db_fail :: "rtps_error \<Rightarrow> data_message_builder \<Rightarrow> (bool \<times> data_message_builder) option" where
  "db_fail e d = Some (False, if db_error d = rtps_none then d\<lparr>db_error := e\<rparr> else d)"

definition data_write ::
  "data_message_config \<Rightarrow> byte list \<Rightarrow> byte list \<Rightarrow> byte list option" where
  "data_write c payload b =
     (let order = dc_byte_order c
      in do {
        b \<leftarrow> wr b 0 0x52;
        b \<leftarrow> wr b 1 0x54;
        b \<leftarrow> wr b 2 0x50;
        b \<leftarrow> wr b 3 0x53;
        b \<leftarrow> wr b 4 (pv_major (dc_version c));
        b \<leftarrow> wr b 5 (pv_minor (dc_version c));
        b \<leftarrow> wr_block b 6 (dc_vendor_id c);
        b \<leftarrow> wr_block b 8 (dc_guid_prefix c);
        b \<leftarrow> wr b 20 submessage_id_data;
        b \<leftarrow> wr b 21 0x04;
        b \<leftarrow> (if order = little_endian then do { x \<leftarrow> rd b 21; wr b 21 (x OR 0x01) } else Some b);
        b \<leftarrow> write_u16 order 22 (of_nat (data_fixed_content_size + length payload)) b;
        b \<leftarrow> write_u16 order 24 0 b;
        b \<leftarrow> write_u16 order 26 octets_to_inline_qos b;
        b \<leftarrow> wr_block b 28 (dc_reader_id c);
        b \<leftarrow> wr_block b 32 (dc_writer_id c);
        b \<leftarrow> write_u32 order 36 (ucast (drop_bit 32 (dc_sequence_number c))) b;
        b \<leftarrow> write_u32 order 40 (ucast (dc_sequence_number c AND 0xFFFFFFFF)) b;
        wr_block b 44 payload })"

definition data_build ::
  "data_message_config \<Rightarrow> span \<Rightarrow> data_message_builder \<Rightarrow> (bool \<times> data_message_builder) option" where
  "data_build c serialized_payload d =
     (let d = d\<lparr>db_size := 0, db_error := rtps_none\<rparr>;
          capacity = span_size (db_buffer d);
          payload_size = span_size serialized_payload
      in if null_span (db_buffer d) \<and> capacity \<noteq> 0 then db_fail rtps_invalid_argument d
         else if unsupported_version (dc_version c) then db_fail rtps_unsupported_version d
         else if \<not> supported_byte_order (dc_byte_order c) then db_fail rtps_invalid_argument d
         else if dc_sequence_number c = 0 \<or> dc_sequence_number c > INT64_MAX
         then db_fail rtps_invalid_sequence_number d
         else do {
           supported \<leftarrow> supported_serialized_payload serialized_payload;
           if \<not> supported then db_fail rtps_invalid_serialized_payload d
           else if payload_size > SIZE_MAX - data_message_overhead then db_fail rtps_message_too_large d
           else
             let message_size = data_message_overhead + payload_size
             in if message_size > maximum_udp_payload_size then db_fail rtps_message_too_large d
                else if message_size > capacity then db_fail rtps_buffer_overflow d
                else if data_fixed_content_size + payload_size > 0xFFFF then db_fail rtps_message_too_large d
                else do {
                  b \<leftarrow> deref (db_buffer d);
                  payload \<leftarrow> deref serialized_payload;
                  b \<leftarrow> data_write c payload b;
                  Some (True, d\<lparr>db_buffer := Span b, db_size := message_size\<rparr>) } })"

text \<open>The parser, on the content of the routed DATA submessage.\<close>

definition parse_data_content ::
  "routed_submessage_view \<Rightarrow> (rtps_error + data_message_view) option" where
  "parse_data_content routed =
     (let flags = rv_flags routed; order = rv_byte_order routed; content = rv_content routed;
          content_size = length content
      in if flags AND 0x04 = 0 then Some (Inl rtps_invalid_submessage)
         else if flags AND (0x02 OR 0x08 OR 0x10) \<noteq> 0 then Some (Inl rtps_unsupported_feature)
         else if content_size < data_fixed_content_size + minimum_serialized_payload_size
         then Some (Inl rtps_invalid_submessage)
         else do {
           extra_flags \<leftarrow> read_u16 order 0 content;
           if extra_flags \<noteq> 0 then Some (Inl rtps_unsupported_feature)
           else do {
             inline_qos_offset \<leftarrow> read_u16 order 2 content;
             if inline_qos_offset < octets_to_inline_qos then Some (Inl rtps_invalid_submessage)
             else
               let payload_offset = 4 + unat inline_qos_offset
               in if payload_offset > content_size \<or>
                     content_size - payload_offset < minimum_serialized_payload_size
                  then Some (Inl rtps_invalid_submessage)
                  else do {
                    sequence_high \<leftarrow> read_u32 order 12 content;
                    sequence_low \<leftarrow> read_u32 order 16 content;
                    if sint sequence_high < 0 then Some (Inl rtps_invalid_sequence_number)
                    else
                      let sequence_number = push_bit 32 (ucast sequence_high :: u64) OR ucast sequence_low
                      in if sequence_number = 0 then Some (Inl rtps_invalid_sequence_number)
                         else do {
                           payload \<leftarrow> rd_block content payload_offset (content_size - payload_offset);
                           supported \<leftarrow> supported_serialized_payload (Span payload);
                           if \<not> supported then Some (Inl rtps_invalid_serialized_payload)
                           else do {
                             reader_id \<leftarrow> rd_block content 4 4;
                             writer_id \<leftarrow> rd_block content 8 4;
                             Some (Inr
                               \<lparr>dv_version = rv_version routed, dv_vendor_id = rv_vendor_id routed,
                                dv_guid_prefix = rv_source_guid_prefix routed,
                                dv_destination_guid_prefix = rv_destination_guid_prefix routed,
                                dv_has_destination = rv_has_destination routed,
                                dv_source_timestamp_seconds = ts_seconds (rv_source_timestamp routed),
                                dv_source_timestamp_fraction = ts_fraction (rv_source_timestamp routed),
                                dv_has_source_timestamp = rv_has_source_timestamp routed,
                                dv_reader_id = reader_id, dv_writer_id = writer_id,
                                dv_sequence_number = sequence_number, dv_byte_order = order,
                                dv_payload = payload\<rparr>) } } } } })"

definition parse_data_message :: "span \<Rightarrow> (rtps_error + data_message_view) option" where
  "parse_data_message message = do {
     routed \<leftarrow> find_submessage message submessage_id_data 0;
     case routed of
       Inl e \<Rightarrow> Some (Inl (route_error e))
     | Inr routed \<Rightarrow> parse_data_content routed }"

definition data_flags :: "byte_order \<Rightarrow> byte" where
  "data_flags order = (if order = little_endian then 0x04 OR 0x01 else 0x04)"

definition data_submessage :: "data_message_config \<Rightarrow> byte list \<Rightarrow> rtps_submessage" where
  "data_submessage c payload =
     Submessage submessage_id_data (data_flags (dc_byte_order c))
       (word_bytes (dc_byte_order c) 2 (0 :: u16) @ word_bytes (dc_byte_order c) 2 octets_to_inline_qos @
        dc_reader_id c @ dc_writer_id c @
        word_bytes (dc_byte_order c) 4 (ucast (drop_bit 32 (dc_sequence_number c)) :: u32) @
        word_bytes (dc_byte_order c) 4 (ucast (dc_sequence_number c AND 0xFFFFFFFF) :: u32) @ payload)"

definition data_bytes :: "data_message_config \<Rightarrow> byte list \<Rightarrow> byte list" where
  "data_bytes c payload =
     rtps_header (dc_version c) (dc_vendor_id c) (dc_guid_prefix c) @ encode_submessages [data_submessage c payload] None"

definition wf_data_config :: "data_message_config \<Rightarrow> bool" where
  "wf_data_config c \<longleftrightarrow> wf_vendor_id (dc_vendor_id c) \<and> wf_guid_prefix (dc_guid_prefix c) \<and>
     wf_entity_id (dc_reader_id c) \<and> wf_entity_id (dc_writer_id c)"

definition data_view :: "data_message_config \<Rightarrow> byte list \<Rightarrow> data_message_view" where
  "data_view c payload =
     \<lparr>dv_version = dc_version c, dv_vendor_id = dc_vendor_id c, dv_guid_prefix = dc_guid_prefix c,
      dv_destination_guid_prefix = replicate 12 0, dv_has_destination = False,
      dv_source_timestamp_seconds = 0, dv_source_timestamp_fraction = 0, dv_has_source_timestamp = False,
      dv_reader_id = dc_reader_id c, dv_writer_id = dc_writer_id c, dv_sequence_number = dc_sequence_number c,
      dv_byte_order = dc_byte_order c, dv_payload = payload\<rparr>"

definition data_config_ok :: "data_message_config \<Rightarrow> byte list \<Rightarrow> bool" where
  "data_config_ok c payload \<longleftrightarrow> \<not> unsupported_version (dc_version c) \<and> supported_byte_order (dc_byte_order c) \<and>
     dc_sequence_number c \<noteq> 0 \<and> dc_sequence_number c \<le> INT64_MAX \<and>
     4 \<le> length payload \<and> payload ! 0 = 0 \<and> payload ! 1 \<le> 3 \<and>
     data_message_overhead + length payload \<le> maximum_udp_payload_size"

definition demo_data_config :: data_message_config where
  "demo_data_config =
     \<lparr>dc_version = \<lparr>pv_major = 2, pv_minor = 5\<rparr>, dc_vendor_id = [1, 2], dc_guid_prefix = [1, 2, 3, 4, 5, 6, 7, 8, 9, 10, 11, 12],
      dc_reader_id = [0, 0, 0, 0], dc_writer_id = [0, 0, 1, 2], dc_sequence_number = 0x100000007,
      dc_byte_order = little_endian\<rparr>"

lemma flags_order_data [simp]: "supported_byte_order order \<Longrightarrow> flags_order (data_flags order) = order"
  by (auto simp: supported_byte_order_def flags_order_def data_flags_def)

lemma data_write_block:
  assumes "wf_data_config c" "supported_byte_order (dc_byte_order c)"
  shows "data_write c payload b = wr_block b 0 (data_bytes c payload)"
  using assms unfolding data_write_def Let_def wr_modify
  by (simp add: mem_simps wf_data_config_def wf_vendor_id_def wf_guid_prefix_def
      wf_entity_id_def data_bytes_def rtps_header_def encode_submessages_def encode_submessage_def data_submessage_def
      u32_codec.put_block data_flags_def [symmetric] data_fixed_content_size_def)

lemma length_data_bytes:
  assumes "wf_data_config c"
  shows "length (data_bytes c payload) = data_message_overhead + length payload"
  using assms
  by (simp add: data_bytes_def data_message_overhead_def wf_data_config_def wf_vendor_id_def wf_guid_prefix_def
      wf_entity_id_def rtps_header_def encode_submessages_def data_submessage_def rtps_header_size_def
      submessage_header_size_def data_fixed_content_size_def)

lemma supported_payload_Span:
  "supported_serialized_payload (Span p) = Some (4 \<le> length p \<and> p ! 0 = 0 \<and> p ! 1 \<le> 3)"
proof (cases "4 \<le> length p")
  case True
  then have "0 < length p" "1 < length p" by linarith+
  with True show ?thesis
    by (simp add: supported_serialized_payload_def minimum_serialized_payload_size_def rd_def)
qed (simp add: supported_serialized_payload_def minimum_serialized_payload_size_def)

lemma supported_payload_Null [simp]: "supported_serialized_payload (Null n) = Some False"
  by (simp add: supported_serialized_payload_def)

lemma parse_data_content_total: "\<exists>r. parse_data_content routed = Some r"
proof (cases "length (rv_content routed) < 24")
  case True
  then show ?thesis
    by (simp add: parse_data_content_def Let_def data_fixed_content_size_def minimum_serialized_payload_size_def)
next
  case False
  then show ?thesis
    by (auto simp: parse_data_content_def Let_def data_fixed_content_size_def minimum_serialized_payload_size_def
      u16_codec.get_block u32_codec.get_block rd_block_def supported_payload_Span)
qed

lemma data_flags_bits:
  "data_flags order AND 0x04 \<noteq> 0" "data_flags order AND (0x02 OR 0x08 OR 0x10) = 0"
  by (simp_all add: data_flags_def)

lemma data_submessage_simps [simp]:
  "sm_id (data_submessage c payload) = submessage_id_data"
  "sm_flags (data_submessage c payload) = data_flags (dc_byte_order c)"
  by (simp_all add: data_submessage_def)

lemma parse_data_content_view:
  assumes "wf_data_config c" "data_config_ok c payload"
  shows "parse_data_content (routed_view (initial_context (dc_version c) (dc_vendor_id c) (dc_guid_prefix c))
      (sm_id (data_submessage c payload)) (sm_flags (data_submessage c payload))
      (sm_content (data_submessage c payload)) off) = Some (Inr (data_view c payload))"
proof -
  define ct where "ct = sm_content (data_submessage c payload)"
  let ?o = "dc_byte_order c"
  let ?hi = "ucast (drop_bit 32 (dc_sequence_number c)) :: u32" and ?lo = "ucast (dc_sequence_number c AND 0xFFFFFFFF) :: u32"
  have len: "length (dc_reader_id c) = 4" "length (dc_writer_id c) = 4"
    using assms(1) by (simp_all add: wf_data_config_def wf_entity_id_def)
  have content: "ct = word_bytes ?o 2 (0 :: u16) @ word_bytes ?o 2 (16 :: u16) @
      dc_reader_id c @ dc_writer_id c @ word_bytes ?o 4 ?hi @ word_bytes ?o 4 ?lo @ payload"
    by (simp add: ct_def data_submessage_def octets_to_inline_qos_def)
  have "read_u16 ?o 0 ct = Some 0" "read_u16 ?o 2 ct = Some 16"
    "read_u32 ?o 12 ct = Some ?hi" "read_u32 ?o 16 ct = Some ?lo"
    "rd_block ct 4 4 = Some (dc_reader_id c)" "rd_block ct 8 4 = Some (dc_writer_id c)"
    "rd_block ct 20 (length payload) = Some payload"
    using len by (simp_all add: content u16_codec.get_block u32_codec.get_block rd_block_def)
  moreover have "length ct = 20 + length payload" using len by (simp add: content)
  moreover have "supported_serialized_payload (Span payload) = Some True" "4 \<le> length payload"
    using assms(2) by (simp_all add: data_config_ok_def supported_payload_Span)
  moreover have "flags_order (data_flags ?o) = ?o" "\<not> sint ?hi < 0" "dc_sequence_number c \<noteq> 0"
    using assms(2) by (auto simp: data_config_ok_def sint_high_nonneg not_less)
  ultimately show ?thesis
    using data_flags_bits [of ?o] unfolding ct_def [symmetric]
    by (simp add: parse_data_content_def routed_view_def data_fixed_content_size_def minimum_serialized_payload_size_def
        octets_to_inline_qos_def initial_context_def data_view_def Let_def)
qed

lemma data_submessage_closed:
  assumes "data_config_ok c payload" "wf_data_config c"
  shows "closed_ok (data_submessage c payload)"
  using assms
  by (auto simp: closed_ok_def data_submessage_def data_config_ok_def wf_data_config_def wf_entity_id_def
    data_message_overhead_def maximum_udp_payload_size_def rtps_header_size_def submessage_header_size_def
    data_fixed_content_size_def submessage_id_data_def submessage_id_info_destination_def
    submessage_id_info_source_def submessage_id_info_timestamp_def)

lemma data_build_cases:
  assumes "wf_data_config c" "payload = Span p" "db_buffer d = Span b" "data_config_ok c p"
  shows "data_build c payload d =
    (if data_message_overhead + length p \<le> length b
     then Some (True, \<lparr>db_buffer = Span (data_bytes c p @ drop (data_message_overhead + length p) b),
                       db_size = data_message_overhead + length p, db_error = rtps_none\<rparr>)
     else Some (False, d\<lparr>db_size := 0, db_error := rtps_buffer_overflow\<rparr>))"
proof -
  from assms(4) have guards: "\<not> unsupported_version (dc_version c)" "supported_byte_order (dc_byte_order c)"
    "dc_sequence_number c \<noteq> 0" "\<not> INT64_MAX < dc_sequence_number c"
    "supported_serialized_payload payload = Some True"
    "\<not> maximum_udp_payload_size < data_message_overhead + length p"
    "\<not> SIZE_MAX - data_message_overhead < length p" "\<not> 0xFFFF < data_fixed_content_size + length p"
    by (auto simp: data_config_ok_def assms(2) supported_payload_Span maximum_udp_payload_size_def
      SIZE_MAX_def data_message_overhead_def rtps_header_size_def submessage_header_size_def data_fixed_content_size_def)
  from assms(1) guards have w: "data_write c p b = wr_block b 0 (data_bytes c p)"
    by (simp add: data_write_block)
  show ?thesis
    using guards assms(1-3) w
    by (cases d) (auto simp: data_build_def Let_def wr_block_def length_data_bytes db_fail_def)
qed

lemma parse_data_bytes:
  assumes "wf_data_config c" "data_config_ok c payload"
  shows "parse_data_message (Span (data_bytes c payload)) = Some (Inr (data_view c payload))"
proof -
  let ?off = "rtps_header_size"
  have "find_submessage (Span (data_bytes c payload)) submessage_id_data 0 =
    Some (Inr (routed_view (initial_context (dc_version c) (dc_vendor_id c) (dc_guid_prefix c))
      (sm_id (data_submessage c payload)) (sm_flags (data_submessage c payload))
      (sm_content (data_submessage c payload)) ?off))"
    unfolding data_bytes_def
    using assms data_submessage_closed [OF assms(2,1)]
    by (subst find_submessage_encoded) (auto simp: wf_data_config_def data_config_ok_def)
  then show ?thesis
    by (simp add: parse_data_message_def parse_data_content_view [OF assms, simplified])
qed

lemma data_build_success:
  assumes "data_build c payload d = Some (True, d')"
  obtains p b where "payload = Span p" "db_buffer d = Span b" "data_config_ok c p"
    "data_message_overhead + length p \<le> length b"
proof -
  obtain p where p: "payload = Span p"
    using assms by (cases payload) (auto simp: data_build_def Let_def db_fail_def split: if_splits)
  moreover obtain b where "db_buffer d = Span b"
    using assms p by (cases "db_buffer d")
      (auto simp: data_build_def Let_def db_fail_def supported_payload_Span split: if_splits)
  ultimately show thesis
    using assms by (intro that [of p b])
      (auto simp: data_build_def Let_def db_fail_def supported_payload_Span data_config_ok_def
        split: if_splits)
qed

lemma data_build_total:
  assumes "wf_data_config c"
  shows "\<exists>d'. data_build c payload d = Some (db_error d' = rtps_none, d') \<and>
    span_size (db_buffer d') = span_size (db_buffer d) \<and> db_size d' \<le> span_size (db_buffer d)"
proof (cases "\<exists>p b. payload = Span p \<and> db_buffer d = Span b \<and> data_config_ok c p")
  case True
  then obtain p b where "payload = Span p" "db_buffer d = Span b" "data_config_ok c p" by blast
  with data_build_cases [OF assms this(1,2,3)] length_data_bytes [OF assms, of p] show ?thesis by simp
next
  case False
  then show ?thesis
    by (cases payload; cases "db_buffer d")
      (auto simp: data_build_def Let_def db_fail_def supported_payload_Span data_config_ok_def
        not_less length_data_bytes [OF assms])
qed


section \<open>Properties\<close>

text \<open>C29: For a configuration with complete identifiers, the builder stays inside its buffer and
  succeeds exactly when the version, byte order, sequence number and payload are supported, the
  message fits a UDP datagram and the buffer can hold it; otherwise it returns false with its
  error set, and in no case does it report more bytes than the buffer has.\<close>

theorem data_build_correct:
  assumes "wf_data_config c"
  shows "\<exists>d'. data_build c payload d = Some (db_error d' = rtps_none, d') \<and>
    db_size d' \<le> span_size (db_buffer d) \<and> span_size (db_buffer d') = span_size (db_buffer d) \<and>
    (db_error d' = rtps_none \<longleftrightarrow>
      (\<exists>p b. payload = Span p \<and> db_buffer d = Span b \<and> data_config_ok c p \<and>
         data_message_overhead + length p \<le> length b))"
proof -
  from data_build_total [OF assms, of payload d] obtain d' where
    d': "data_build c payload d = Some (db_error d' = rtps_none, d')"
    "span_size (db_buffer d') = span_size (db_buffer d)" "db_size d' \<le> span_size (db_buffer d)" by blast
  have "db_error d' = rtps_none \<longleftrightarrow> (\<exists>p b. payload = Span p \<and> db_buffer d = Span b \<and> data_config_ok c p \<and>
         data_message_overhead + length p \<le> length b)"
  proof
    assume "db_error d' = rtps_none"
    with d' have "data_build c payload d = Some (True, d')" by simp
    then show "\<exists>p b. payload = Span p \<and> db_buffer d = Span b \<and> data_config_ok c p \<and>
         data_message_overhead + length p \<le> length b" by (rule data_build_success) blast
  qed (use d' data_build_cases [OF assms] in auto)
  with d' show ?thesis by blast
qed

text \<open>C4: Whenever the builder succeeds, the parser of the bytes it reports returns the
  configuration's version, identifiers, sequence number and byte order, no destination and no
  timestamp, and the payload that was given.\<close>

theorem data_roundtrip:
  assumes "wf_data_config c" "data_build c payload d = Some (True, d')"
  shows "parse_data_message (Span (take (db_size d') (span_bytes (db_buffer d')))) =
    Some (Inr (data_view c (span_bytes payload)))"
proof -
  from assms(2) obtain p b where p: "payload = Span p" "db_buffer d = Span b" "data_config_ok c p"
    "data_message_overhead + length p \<le> length b" by (rule data_build_success)
  with data_build_cases [OF assms(1) p(1,2,3)] assms length_data_bytes [OF assms(1), of p]
  have "take (db_size d') (span_bytes (db_buffer d')) = data_bytes c p" by auto
  with p parse_data_bytes [OF assms(1) p(3)] show ?thesis by simp
qed


lemma demo_data_config_ok: "wf_data_config demo_data_config" "data_config_ok demo_data_config [0, 1, 0, 0]"
  by (simp_all add: demo_data_config_def wf_data_config_def wf_vendor_id_def wf_guid_prefix_def wf_entity_id_def
    data_config_ok_def unsupported_version_def supported_byte_order_def INT64_MAX_def data_message_overhead_def
    rtps_header_size_def submessage_header_size_def data_fixed_content_size_def maximum_udp_payload_size_def)

lemma data_message_overhead_44: "data_message_overhead = 44"
  by (simp add: data_message_overhead_def rtps_header_size_def submessage_header_size_def data_fixed_content_size_def)

theorem data_build_correct_witness:
  "\<exists>d'. data_build demo_data_config (Span [0, 1, 0, 0]) (data_builder_new (Span (replicate 48 0))) = Some (True, d') \<and>
     db_error d' = rtps_none"
  using data_build_correct [OF demo_data_config_ok(1), of "Span [0, 1, 0, 0]" "data_builder_new (Span (replicate 48 0))"]
    demo_data_config_ok(2)
  by (auto simp: data_builder_new_def data_message_overhead_44)

theorem data_roundtrip_witness:
  "\<exists>d'. data_build demo_data_config (Span [0, 1, 0, 0]) (data_builder_new (Span (replicate 48 0))) = Some (True, d') \<and>
     parse_data_message (Span (take (db_size d') (span_bytes (db_buffer d')))) =
       Some (Inr (data_view demo_data_config [0, 1, 0, 0]))"
proof -
  obtain d' where "data_build demo_data_config (Span [0, 1, 0, 0]) (data_builder_new (Span (replicate 48 0))) = Some (True, d')"
    using data_build_cases [OF demo_data_config_ok(1) refl _ demo_data_config_ok(2),
        of "data_builder_new (Span (replicate 48 0))" "replicate 48 0"]
    by (simp add: data_builder_new_def data_message_overhead_44)
  with data_roundtrip [OF demo_data_config_ok(1) this] show ?thesis by simp
qed

lemma data_builder_new_simps [simp]: "db_buffer (data_builder_new s) = s"
  by (simp add: data_builder_new_def)

lemma data_build_iff:
  assumes "wf_data_config c" "data_build c (Span p) (data_builder_new s) = Some (db_error b = rtps_none, b)"
  shows "db_error b = rtps_none \<longleftrightarrow> data_config_ok c p \<and> \<not> null_span s \<and> data_message_overhead + length p \<le> span_size s"
    and "db_error b = rtps_none \<Longrightarrow> db_size b \<noteq> 0"
proof -
  have success: "data_config_ok c p \<and> \<not> null_span s \<and> data_message_overhead + length p \<le> span_size s"
    if "db_error b = rtps_none"
  proof -
    have "data_build c (Span p) (data_builder_new s) = Some (True, b)" using assms(2) that by simp
    then show ?thesis by (rule data_build_success) auto
  qed
  have converse: "db_error b = rtps_none \<and> db_size b \<noteq> 0"
    if "data_config_ok c p" and notnull: "\<not> null_span s" and "data_message_overhead + length p \<le> span_size s"
  proof -
    obtain bs where s: "s = Span bs" using notnull by (cases s) auto
    from data_build_cases [OF assms(1) refl _ that(1), of "data_builder_new s" bs] assms(2) that(3) s
    show ?thesis by (auto simp: data_message_overhead_44)
  qed
  show "db_error b = rtps_none \<longleftrightarrow> data_config_ok c p \<and> \<not> null_span s \<and> data_message_overhead + length p \<le> span_size s"
    "db_error b = rtps_none \<Longrightarrow> db_size b \<noteq> 0" using success converse by blast+
qed

lemma parse_data_message_total: "\<exists>r. parse_data_message message = Some r"
proof -
  obtain r where r: "find_submessage message submessage_id_data 0 = Some r" using find_submessage_total by blast
  then show ?thesis using parse_data_content_total by (cases r) (auto simp: parse_data_message_def)
qed

end
