(* ===== verification/Parameter_List.thy ===== *)
theory Parameter_List
  imports Data_Message
begin

text \<open>
  What the two discovery protocols share: UDPv4 locators and bounded locator lists
  (\<open>src/include/openrtdds/rtps/spdp.hpp\<close>), the parameter-list writer and reader, and the encoding
  of durations. \<open>src/src/rtps/spdp.cpp\<close> and \<open>src/src/rtps/sedp.cpp\<close> each have a copy of the writer
  class and of the helper functions; the copies agree and are modelled once. The pointer that
  \<open>ParameterWriter::append\<close> returns is the offset of the value in the writer's buffer.
\<close>

unbundle bit_operations_syntax

section \<open>Model\<close>

subsection \<open>Locators\<close>

record locator =
  loc_kind :: u32
  loc_port :: u32
  loc_address :: "byte list"

definition default_locator :: locator where
  "default_locator = \<lparr>loc_kind = 1, loc_port = 0, loc_address = replicate 16 0\<rparr>"

definition or_bytes :: "byte list \<Rightarrow> byte" where
  "or_bytes bs = fold (OR) bs 0"

definition make_udp_v4_locator :: "byte list \<Rightarrow> u16 \<Rightarrow> locator \<Rightarrow> bool \<times> locator" where
  "make_udp_v4_locator address port l =
     (if port = 0 \<or> or_bytes address = 0 then (False, l)
      else (True, \<lparr>loc_kind = 1, loc_port = ucast port, loc_address = replicate 12 0 @ address\<rparr>))"

definition valid_udp_v4_locator :: "locator \<Rightarrow> bool" where
  "valid_udp_v4_locator l \<longleftrightarrow>
     \<not> (loc_kind l \<noteq> 1 \<or> loc_port l = 0 \<or> loc_port l > 65535) \<and>
     list_all (\<lambda>b. b = 0) (take 12 (loc_address l)) \<and>
     or_bytes (take 4 (drop 12 (loc_address l))) \<noteq> 0"

definition spdp_max_locators :: nat where "spdp_max_locators = 4"

record locator_list =
  ll_values :: "locator list"
  ll_size :: nat

definition empty_locators :: locator_list where
  "empty_locators = \<lparr>ll_values = replicate spdp_max_locators default_locator, ll_size = 0\<rparr>"

definition locators_push_back :: "locator \<Rightarrow> locator_list \<Rightarrow> (bool \<times> locator_list) option" where
  "locators_push_back l ls =
     (if ll_size ls \<ge> spdp_max_locators then Some (False, ls)
      else do {
        values \<leftarrow> wr (ll_values ls) (ll_size ls) l;
        Some (True, \<lparr>ll_values = values, ll_size = ll_size ls + 1\<rparr>) })"

definition valid_locators :: "locator_list \<Rightarrow> bool" where
  "valid_locators ls \<longleftrightarrow> ll_size ls \<le> spdp_max_locators \<and>
     list_all valid_udp_v4_locator (take (ll_size ls) (ll_values ls))"

subsection \<open>Writing parameters\<close>

definition pid_sentinel :: u16 where "pid_sentinel = 0x0001"

definition must_understand_mask :: u16 where "must_understand_mask = 0x4000"

text \<open>\<open>(size + 3) & ~3\<close>.\<close>

definition padded_size :: "nat \<Rightarrow> nat" where
  "padded_size n = (n + 3) div 4 * 4"

record parameter_writer =
  pw_buffer :: "byte list"
  pw_order :: byte_order
  pw_size :: nat

definition parameter_writer_new :: "byte list \<Rightarrow> byte_order \<Rightarrow> parameter_writer option" where
  "parameter_writer_new buffer order =
     (if length buffer \<ge> 4 then do {
        b \<leftarrow> wr buffer 0 0;
        b \<leftarrow> wr b 1 (if order = little_endian then 3 else 2);
        b \<leftarrow> wr b 2 0;
        b \<leftarrow> wr b 3 0;
        Some \<lparr>pw_buffer = b, pw_order = order, pw_size = 4\<rparr> }
      else Some \<lparr>pw_buffer = buffer, pw_order = order, pw_size = 0\<rparr>)"

definition parameter_append ::
  "u16 \<Rightarrow> nat \<Rightarrow> parameter_writer \<Rightarrow> (nat option \<times> parameter_writer) option" where
  "parameter_append pid value_size w =
     (let n = padded_size value_size; capacity = length (pw_buffer w)
      in if n > 65535 \<or> pw_size w > capacity \<or> capacity - pw_size w < 4 + n then Some (None, w)
         else do {
           b \<leftarrow> write_u16 (pw_order w) (pw_size w) pid (pw_buffer w);
           b \<leftarrow> write_u16 (pw_order w) (pw_size w + 2) (of_nat n) b;
           b \<leftarrow> wr_block b (pw_size w + 4) (replicate n 0);
           Some (Some (pw_size w + 4), w\<lparr>pw_buffer := b, pw_size := pw_size w + (4 + n)\<rparr>) })"

type_synonym parameter_step = "parameter_writer \<Rightarrow> (bool \<times> parameter_writer) option"

text \<open>Append a parameter and, when the pointer is not null, fill in its value through it.\<close>

definition append_value :: "u16 \<Rightarrow> nat \<Rightarrow> (nat \<Rightarrow> byte list \<Rightarrow> byte list option) \<Rightarrow> parameter_step" where
  "append_value pid value_size fill w = do {
     (value, w) \<leftarrow> parameter_append pid value_size w;
     case value of
       None \<Rightarrow> Some (False, w)
     | Some off \<Rightarrow> do { b \<leftarrow> fill off (pw_buffer w); Some (True, w\<lparr>pw_buffer := b\<rparr>) } }"

text \<open>\<open>complete = complete && next\<close>.\<close>

definition and_also :: "parameter_step \<Rightarrow> parameter_step \<Rightarrow> parameter_step" where
  "and_also first second w = do {
     (ok, w) \<leftarrow> first w;
     if ok then second w else Some (False, w) }"

definition parameter_finish :: parameter_step where
  "parameter_finish w = do {
     (value, w) \<leftarrow> parameter_append pid_sentinel 0 w;
     Some (value \<noteq> None, w) }"

definition append_locator :: "u16 \<Rightarrow> locator \<Rightarrow> byte_order \<Rightarrow> parameter_step" where
  "append_locator pid l order =
     append_value pid 24 (\<lambda>value b. do {
       b \<leftarrow> write_u32 order value (loc_kind l) b;
       b \<leftarrow> write_u32 order (value + 4) (loc_port l) b;
       wr_block b (value + 8) (loc_address l) })"

fun append_locators_from :: "u16 \<Rightarrow> locator list \<Rightarrow> byte_order \<Rightarrow> nat \<Rightarrow> nat \<Rightarrow> parameter_step" where
  "append_locators_from pid values order index 0 w = Some (True, w)"
| "append_locators_from pid values order index (Suc count) w =
     and_also (\<lambda>w. do { l \<leftarrow> rd values index; append_locator pid l order w })
       (append_locators_from pid values order (Suc index) count) w"

definition append_locators :: "u16 \<Rightarrow> locator_list \<Rightarrow> byte_order \<Rightarrow> parameter_step" where
  "append_locators pid ls order = append_locators_from pid (ll_values ls) order 0 (ll_size ls)"

definition append_string :: "u16 \<Rightarrow> byte list \<Rightarrow> nat \<Rightarrow> byte_order \<Rightarrow> parameter_step" where
  "append_string pid string_text n order =
     append_value pid (4 + n + 1) (\<lambda>value b. do {
       b \<leftarrow> write_u32 order value (of_nat (n + 1)) b;
       source \<leftarrow> rd_block string_text 0 n;
       b \<leftarrow> wr_block b (value + 4) source;
       wr b (value + 4 + n) 0 })"

subsection \<open>Durations\<close>

definition nanoseconds_per_second :: u64 where "nanoseconds_per_second = 1000000000"

definition duration_seconds :: "u64 \<Rightarrow> u64" where
  "duration_seconds d = d div nanoseconds_per_second"

definition duration_fraction :: "u64 \<Rightarrow> u32" where
  "duration_fraction d =
     (let remainder = d mod nanoseconds_per_second
      in ucast (push_bit 32 remainder div nanoseconds_per_second))"

definition write_duration :: "byte_order \<Rightarrow> nat \<Rightarrow> u64 \<Rightarrow> byte list \<Rightarrow> byte list option" where
  "write_duration order off d b = do {
     b \<leftarrow> write_u32 order off (ucast (duration_seconds d)) b;
     write_u32 order (off + 4) (duration_fraction d) b }"

definition duration_value :: "u32 \<Rightarrow> u32 \<Rightarrow> u64" where
  "duration_value seconds fraction =
     ucast seconds * nanoseconds_per_second + drop_bit 32 (ucast fraction * nanoseconds_per_second)"

subsection \<open>Reading parameters\<close>

text \<open>
  The loop over the parameters of a payload. \<open>handle\<close> is the \<open>switch\<close> of the caller, given the
  value as a slice of its declared length; the result carries whether the sentinel was seen.
\<close>

function parameter_walk ::
  "(byte_order \<Rightarrow> u16 \<Rightarrow> byte list \<Rightarrow> 's \<Rightarrow> ('e + 's) option) \<Rightarrow> 'e \<Rightarrow> byte_order \<Rightarrow> byte list \<Rightarrow> nat \<Rightarrow> 's
   \<Rightarrow> ('e + 's \<times> bool) option" where
  "parameter_walk handle malformed order payload offset st =
     (if offset + 4 \<le> length payload then do {
        pid \<leftarrow> read_u16 order offset payload;
        n \<leftarrow> map_option unat (read_u16 order (offset + 2) payload);
        if pid = pid_sentinel then Some (Inr (st, True))
        else if n mod 4 \<noteq> 0 \<or> n > length payload - (offset + 4) then Some (Inl malformed)
        else do {
          value \<leftarrow> rd_block payload (offset + 4) n;
          r \<leftarrow> handle order pid value st;
          case r of
            Inl e \<Rightarrow> Some (Inl e)
          | Inr st \<Rightarrow> parameter_walk handle malformed order payload (offset + 4 + n) st } }
      else Some (Inr (st, False)))"
  by pat_completeness auto
termination
  by (relation "measure (\<lambda>(handle, malformed, order, payload, offset, st). length payload - offset)") auto

declare parameter_walk.simps [simp del]

text \<open>A locator parameter: other transports are skipped, unusable and surplus UDPv4 ones refused.\<close>

datatype locator_error = locator_none | locator_malformed | locator_invalid | locator_exceeded

definition append_parsed_locator ::
  "byte list \<Rightarrow> byte_order \<Rightarrow> locator_list \<Rightarrow> (locator_error \<times> locator_list) option" where
  "append_parsed_locator value order output =
     (if length value \<noteq> 24 then Some (locator_malformed, output)
      else do {
        kind \<leftarrow> read_u32 order 0 value;
        if kind \<noteq> 1 then Some (locator_none, output)
        else do {
          port \<leftarrow> read_u32 order 4 value;
          address \<leftarrow> rd_block value 8 16;
          let l = \<lparr>loc_kind = kind, loc_port = port, loc_address = address\<rparr>;
          if \<not> valid_udp_v4_locator l then Some (locator_invalid, output)
          else do {
            (ok, output) \<leftarrow> locators_push_back l output;
            Some (if ok then locator_none else locator_exceeded, output) } } })"

type_synonym parameter = "u16 \<times> byte list"

definition padded_value :: "byte list \<Rightarrow> byte list" where
  "padded_value v = v @ replicate (padded_size (length v) - length v) 0"

definition parameter_bytes :: "byte_order \<Rightarrow> parameter \<Rightarrow> byte list" where
  "parameter_bytes order p =
     word_bytes order 2 (fst p) @ word_bytes order 2 (of_nat (padded_size (length (snd p))) :: u16) @ padded_value (snd p)"

definition parameters_bytes :: "byte_order \<Rightarrow> parameter list \<Rightarrow> byte list" where
  "parameters_bytes order ps = concat (map (parameter_bytes order) ps)"

definition parameter_ok :: "parameter \<Rightarrow> bool" where
  "parameter_ok p \<longleftrightarrow> fst p \<noteq> pid_sentinel \<and> padded_size (length (snd p)) \<le> 65535"

definition payload_bytes :: "byte_order \<Rightarrow> parameter list \<Rightarrow> byte list" where
  "payload_bytes order ps =
     [0, if order = little_endian then 3 else 2, 0, 0] @ parameters_bytes order ps @ parameter_bytes order (pid_sentinel, [])"

definition writes :: "byte_order \<Rightarrow> parameter_step \<Rightarrow> parameter list \<Rightarrow> bool" where
  "writes order step ps \<longleftrightarrow>
     (\<forall>X R. length (parameters_bytes order ps) \<le> length R \<longrightarrow>
       step \<lparr>pw_buffer = X @ R, pw_order = order, pw_size = length X\<rparr> =
         Some (True, \<lparr>pw_buffer = X @ parameters_bytes order ps @ drop (length (parameters_bytes order ps)) R,
           pw_order = order, pw_size = length X + length (parameters_bytes order ps)\<rparr>))"

definition locator_bytes :: "byte_order \<Rightarrow> locator \<Rightarrow> byte list" where
  "locator_bytes order l = word_bytes order 4 (loc_kind l) @ word_bytes order 4 (loc_port l) @ loc_address l"

definition string_bytes :: "byte_order \<Rightarrow> byte list \<Rightarrow> byte list" where
  "string_bytes order s = word_bytes order 4 (of_nat (length s + 1) :: u32) @ s @ [0]"

definition duration_bytes :: "byte_order \<Rightarrow> u64 \<Rightarrow> byte list" where
  "duration_bytes order d =
     word_bytes order 4 (ucast (duration_seconds d) :: u32) @ word_bytes order 4 (duration_fraction d)"

definition locators :: "locator_list \<Rightarrow> locator list" where
  "locators ls = take (ll_size ls) (ll_values ls)"

definition wf_locators :: "locator_list \<Rightarrow> bool" where
  "wf_locators ls \<longleftrightarrow> length (ll_values ls) = spdp_max_locators \<and> ll_size ls \<le> spdp_max_locators"

definition wf_locator :: "locator \<Rightarrow> bool" where
  "wf_locator l \<longleftrightarrow> length (loc_address l) = 16"

fun handle_all ::
  "(byte_order \<Rightarrow> u16 \<Rightarrow> byte list \<Rightarrow> 's \<Rightarrow> ('e + 's) option) \<Rightarrow> byte_order \<Rightarrow> parameter list \<Rightarrow> 's \<Rightarrow> ('e + 's) option" where
  "handle_all handle order [] st = Some (Inr st)"
| "handle_all handle order (p # ps) st = do {
     r \<leftarrow> handle order (fst p) (padded_value (snd p)) st;
     case r of Inl e \<Rightarrow> Some (Inl e) | Inr st \<Rightarrow> handle_all handle order ps st }"

text \<open>A result that is a failure or a good state.\<close>

fun handled :: "('e \<Rightarrow> bool) \<Rightarrow> ('s \<Rightarrow> bool) \<Rightarrow> 'e + 's \<Rightarrow> bool" where
  "handled failure good (Inl e) = failure e"
| "handled failure good (Inr st) = good st"

definition valid_locator_list :: "locator_list \<Rightarrow> bool" where
  "valid_locator_list ls \<longleftrightarrow> wf_locators ls \<and>
     list_all (\<lambda>l. wf_locator l \<and> valid_udp_v4_locator l) (locators ls)"

section \<open>The reference encoding\<close>

text \<open>A step writes exactly the given parameters whenever the buffer has room for them.\<close>

lemma padded_size_props: "n \<le> padded_size n" "padded_size n mod 4 = 0" "padded_size n < n + 4"
  unfolding padded_size_def by presburger+

lemma length_padded_value [simp]: "length (padded_value v) = padded_size (length v)"
  using padded_size_props(1) [of "length v"] by (simp add: padded_value_def)

lemma length_parameter_bytes [simp]: "length (parameter_bytes order p) = 4 + padded_size (length (snd p))"
  by (simp add: parameter_bytes_def)

lemma parameters_bytes_simps [simp]:
  "parameters_bytes order [] = []"
  "parameters_bytes order (p # ps) = parameter_bytes order p @ parameters_bytes order ps"
  "parameters_bytes order (ps @ qs) = parameters_bytes order ps @ parameters_bytes order qs"
  by (simp_all add: parameters_bytes_def)

lemma parameter_append_room:
  assumes "padded_size n \<le> 65535" "4 + padded_size n \<le> length R"
  shows "parameter_append pid n \<lparr>pw_buffer = X @ R, pw_order = order, pw_size = length X\<rparr> =
    Some (Some (length X + 4), \<lparr>pw_buffer = X @ word_bytes order 2 pid @ word_bytes order 2 (of_nat (padded_size n) :: u16) @
        replicate (padded_size n) 0 @ drop (4 + padded_size n) R,
      pw_order = order, pw_size = length X + (4 + padded_size n)\<rparr>)"
  using assms by (simp add: parameter_append_def Let_def mem_simps) (simp add: wr_block_def)

lemma writes_value:
  assumes "padded_size (length v) \<le> 65535"
    and fill: "\<And>off b. off + length v \<le> length b \<Longrightarrow> fill off b = wr_block b off v"
    and "n = length v"
  shows "writes order (append_value pid n fill) [(pid, v)]"
  unfolding writes_def
proof (intro allI impI)
  fix X R :: "byte list"
  let ?n = "padded_size (length v)"
  assume "length (parameters_bytes order [(pid, v)]) \<le> length R"
  then have room: "4 + ?n \<le> length R" by simp
  have n: "length v \<le> ?n" by (rule padded_size_props)
  let ?b = "X @ word_bytes order 2 pid @ word_bytes order 2 (of_nat ?n :: u16) @ replicate ?n 0 @ drop (4 + ?n) R"
  have "fill (length X + 4) ?b = Some (X @ word_bytes order 2 pid @ word_bytes order 2 (of_nat ?n :: u16) @ padded_value v @ drop (4 + ?n) R)"
    using n by (subst fill) (simp_all add: wr_block_def padded_value_def)
  then show "append_value pid n fill \<lparr>pw_buffer = X @ R, pw_order = order, pw_size = length X\<rparr> =
    Some (True, \<lparr>pw_buffer = X @ parameters_bytes order [(pid, v)] @ drop (length (parameters_bytes order [(pid, v)])) R,
           pw_order = order, pw_size = length X + length (parameters_bytes order [(pid, v)])\<rparr>)"
    unfolding parameters_bytes_simps append_Nil2 length_parameter_bytes snd_conv
    by (simp add: append_value_def assms(3) parameter_append_room [OF assms(1) room] parameter_bytes_def)
qed

lemma writes_and_also:
  assumes "writes order f ps" "writes order g qs"
  shows "writes order (and_also f g) (ps @ qs)"
  unfolding writes_def
proof (intro allI impI)
  fix X R :: "byte list"
  let ?ps = "parameters_bytes order ps" and ?qs = "parameters_bytes order qs"
  assume len: "length (parameters_bytes order (ps @ qs)) \<le> length R"
  then have f: "f \<lparr>pw_buffer = X @ R, pw_order = order, pw_size = length X\<rparr> =
      Some (True, \<lparr>pw_buffer = (X @ ?ps) @ drop (length ?ps) R, pw_order = order, pw_size = length (X @ ?ps)\<rparr>)"
    using assms(1) by (simp add: writes_def)
  have "length ?qs \<le> length (drop (length ?ps) R)" using len by simp
  then have "g \<lparr>pw_buffer = (X @ ?ps) @ drop (length ?ps) R, pw_order = order, pw_size = length (X @ ?ps)\<rparr> =
      Some (True, \<lparr>pw_buffer = (X @ ?ps) @ ?qs @ drop (length ?qs) (drop (length ?ps) R), pw_order = order,
         pw_size = length (X @ ?ps) + length ?qs\<rparr>)"
    using assms(2) unfolding writes_def by blast
  with f show "and_also f g \<lparr>pw_buffer = X @ R, pw_order = order, pw_size = length X\<rparr> =
      Some (True, \<lparr>pw_buffer = X @ parameters_bytes order (ps @ qs) @ drop (length (parameters_bytes order (ps @ qs))) R,
        pw_order = order, pw_size = length X + length (parameters_bytes order (ps @ qs))\<rparr>)"
    by (simp add: and_also_def add.commute)
qed

lemma writes_done: "writes order (\<lambda>w. Some (True, w)) []"
  by (simp add: writes_def)

lemma writes_if: "writes order f ps \<Longrightarrow> writes order (\<lambda>w. if c then f w else Some (True, w)) (if c then ps else [])"
  by (simp add: writes_done)

lemma writes_finish: "writes order parameter_finish [(pid_sentinel, [])]"
proof -
  have "padded_size 0 = 0" by (simp add: padded_size_def)
  then show ?thesis
    using parameter_append_room [of 0]
    by (simp add: writes_def parameter_finish_def parameter_bytes_def padded_value_def)
qed

lemma writes_locator:
  assumes "wf_locator l"
  shows "writes order (append_locator pid l order) [(pid, locator_bytes order l)]"
  unfolding append_locator_def
proof (rule writes_value)
  show "24 = length (locator_bytes order l)" using assms by (simp add: locator_bytes_def wf_locator_def)
  then show "padded_size (length (locator_bytes order l)) \<le> 65535" by (simp add: padded_size_def)
next
  fix off :: nat and b :: "byte list" assume "off + length (locator_bytes order l) \<le> length b"
  show "Option.bind (write_u32 order off (loc_kind l) b)
     (\<lambda>b. Option.bind (write_u32 order (off + 4) (loc_port l) b) (\<lambda>b. wr_block b (off + 8) (loc_address l))) =
    wr_block b off (locator_bytes order l)"
    by (simp add: locator_bytes_def u32_codec.put_block mem_simps)
qed

lemma writes_locators_from:
  assumes "list_all wf_locator (take n (drop i values))" "i + n \<le> length values"
  shows "writes order (append_locators_from pid values order i n)
    (map (\<lambda>l. (pid, locator_bytes order l)) (take n (drop i values)))"
  using assms
proof (induction n arbitrary: i)
  case 0
  have "append_locators_from pid values order i 0 = (\<lambda>w. Some (True, w))" by (simp add: fun_eq_iff)
  then show ?case by (simp add: writes_done)
next
  case (Suc n)
  have split: "take (Suc n) (drop i values) = values ! i # take n (drop (Suc i) values)"
    using Suc.prems(2) by (simp add: take_Suc_conv_app_nth [symmetric] Cons_nth_drop_Suc [symmetric])
  have step: "append_locators_from pid values order i (Suc n) =
      and_also (append_locator pid (values ! i) order) (append_locators_from pid values order (Suc i) n)"
    using Suc.prems(2) by (simp add: fun_eq_iff and_also_def)
  have "writes order (and_also (append_locator pid (values ! i) order) (append_locators_from pid values order (Suc i) n))
      ([(pid, locator_bytes order (values ! i))] @ map (\<lambda>l. (pid, locator_bytes order l)) (take n (drop (Suc i) values)))"
    using Suc by (intro writes_and_also writes_locator Suc.IH) (simp_all add: split)
  then show ?case by (simp add: step split)
qed

lemma writes_locators:
  assumes "list_all wf_locator (locators ls)" "wf_locators ls"
  shows "writes order (append_locators pid ls order) (map (\<lambda>l. (pid, locator_bytes order l)) (locators ls))"
  using writes_locators_from [of "ll_size ls" 0 "ll_values ls"] assms
  by (simp add: append_locators_def [abs_def] locators_def wf_locators_def)

lemma writes_string:
  assumes "n \<le> length s" "n \<le> 65000"
  shows "writes order (append_string pid s n order) [(pid, string_bytes order (take n s))]"
  unfolding append_string_def
proof (rule writes_value)
  show eq: "4 + n + 1 = length (string_bytes order (take n s))" using assms by (simp add: string_bytes_def)
  show "padded_size (length (string_bytes order (take n s))) \<le> 65535"
    unfolding eq [symmetric] using assms(2) padded_size_props(3) [of "4 + n + 1"] by linarith
next
  fix off :: nat and b :: "byte list" assume "off + length (string_bytes order (take n s)) \<le> length b"
  show "Option.bind (write_u32 order off (of_nat (n + 1)) b) (\<lambda>b. Option.bind (rd_block s 0 n)
      (\<lambda>source. Option.bind (wr_block b (off + 4) source) (\<lambda>b. wr b (off + 4 + n) 0))) =
    wr_block b off (string_bytes order (take n s))"
    using assms(1) by (simp add: string_bytes_def rd_block_def u32_codec.put_block mem_simps min_def)
qed

lemma write_duration_block: "write_duration order off d b = wr_block b off (duration_bytes order d)"
  by (simp add: write_duration_def duration_bytes_def u32_codec.put_block mem_simps)

lemma parameter_writer_new_bytes:
  assumes "4 \<le> n"
  shows "parameter_writer_new (replicate n 0) order =
    Some \<lparr>pw_buffer = [0, if order = little_endian then 3 else 2, 0, 0] @ replicate (n - 4) 0, pw_order = order, pw_size = 4\<rparr>"
proof -
  obtain m where n: "n = 4 + m" using assms le_Suc_ex by blast
  have "replicate n (0 :: byte) = [0, 0, 0, 0] @ replicate m 0"
    unfolding n replicate_add by (simp add: numeral_eq_Suc)
  then show ?thesis using n by (simp add: parameter_writer_new_def wr_def)
qed

lemma writes_payload:
  assumes "writes order step (ps @ [(pid_sentinel, [])])" "length (payload_bytes order ps) \<le> n"
  shows "Option.bind (parameter_writer_new (replicate n 0) order) step =
    Some (True, \<lparr>pw_buffer = payload_bytes order ps @ replicate (n - length (payload_bytes order ps)) 0,
      pw_order = order, pw_size = length (payload_bytes order ps)\<rparr>)"
proof -
  define h where "h = ([0, if order = little_endian then 3 else 2, 0, 0] :: byte list)"
  have h: "length h = 4" by (simp add: h_def)
  have bytes: "payload_bytes order ps = h @ parameters_bytes order (ps @ [(pid_sentinel, [])])"
    by (simp add: payload_bytes_def h_def)
  have n: "4 \<le> n" using assms(2) bytes h by simp
  have "length (parameters_bytes order (ps @ [(pid_sentinel, [])])) \<le> length (replicate (n - 4) (0 :: byte))"
    using assms(2) h unfolding bytes by simp
  then have "step \<lparr>pw_buffer = h @ replicate (n - 4) 0, pw_order = order, pw_size = length h\<rparr> =
      Some (True, \<lparr>pw_buffer = h @ parameters_bytes order (ps @ [(pid_sentinel, [])]) @
          drop (length (parameters_bytes order (ps @ [(pid_sentinel, [])]))) (replicate (n - 4) 0),
        pw_order = order, pw_size = length h + length (parameters_bytes order (ps @ [(pid_sentinel, [])]))\<rparr>)"
    using assms(1) unfolding writes_def by blast
  then show ?thesis
    unfolding parameter_writer_new_bytes [OF n] h_def [symmetric] bytes using h by (simp del: parameters_bytes_simps)
qed

section \<open>Reading back\<close>

lemma handle_all_append:
  "handle_all handle order (ps @ qs) st = do {
     r \<leftarrow> handle_all handle order ps st;
     case r of Inl e \<Rightarrow> Some (Inl e) | Inr st \<Rightarrow> handle_all handle order qs st }"
proof (induction ps arbitrary: st)
  case (Cons p ps)
  show ?case
  proof (cases "handle order (fst p) (padded_value (snd p)) st")
    case (Some r)
    then show ?thesis by (cases r) (simp_all add: Cons.IH)
  qed simp
qed simp

lemma parameter_walk_bytes:
  assumes "list_all parameter_ok ps"
  shows "parameter_walk handle malformed order
      (X @ parameters_bytes order ps @ parameter_bytes order (pid_sentinel, []) @ R) (length X) st =
    map_option (map_sum (\<lambda>e. e) (\<lambda>st. (st, True))) (handle_all handle order ps st)"
  using assms
proof (induction ps arbitrary: X st)
  case Nil
  have "read_u16 order (length X) (X @ parameter_bytes order (pid_sentinel, []) @ R) = Some pid_sentinel"
    by (simp add: u16_codec.get_block parameter_bytes_def)
  then show ?case by (simp add: parameter_walk.simps u16_codec.get_block)
next
  case (Cons p ps)
  obtain pid v where p: "p = (pid, v)" by fastforce
  let ?n = "padded_size (length v)" and ?rest = "parameters_bytes order ps @ parameter_bytes order (pid_sentinel, []) @ R"
  let ?payload = "X @ parameters_bytes order (p # ps) @ parameter_bytes order (pid_sentinel, []) @ R"
  have ok: "pid \<noteq> pid_sentinel" "?n \<le> 65535" using Cons.prems by (simp_all add: p parameter_ok_def)
  have n: "unat (of_nat ?n :: u16) = ?n" using ok(2) by (simp add: unat_of_nat)
  have payload: "?payload = X @ word_bytes order 2 pid @ word_bytes order 2 (of_nat ?n :: u16) @ padded_value v @ ?rest"
    by (simp add: p parameter_bytes_def)
  have reads: "read_u16 order (length X) ?payload = Some pid" "read_u16 order (length X + 2) ?payload = Some (of_nat ?n)"
    "rd_block ?payload (length X + 4) ?n = Some (padded_value v)" "length X + 4 + ?n \<le> length ?payload"
    unfolding payload by (simp_all add: u16_codec.get_block rd_block_def)
  have next_walk: "parameter_walk handle malformed order ?payload (length X + 4 + ?n) st' =
      map_option (map_sum (\<lambda>e. e) (\<lambda>st. (st, True))) (handle_all handle order ps st')" for st'
    using Cons.IH [of "X @ parameter_bytes order p" st'] Cons.prems by (simp add: p add.assoc)
  have step: "parameter_walk handle malformed order ?payload (length X) st =
      Option.bind (handle order pid (padded_value v) st)
        (\<lambda>r. case r of Inl e \<Rightarrow> Some (Inl e) | Inr st \<Rightarrow> parameter_walk handle malformed order ?payload (length X + 4 + ?n) st)"
    by (subst parameter_walk.simps) (use reads n ok padded_size_props(2) in simp)
  show ?case
    unfolding step next_walk
    by (cases "handle order pid (padded_value v) st") (auto simp: p split: sum.splits)
qed

text \<open>
  What a reader of parameters promises: it is total on every value, which for the model means that
  it reads no byte outside the value, and it keeps its invariant. The walk then terminates with a
  result on arbitrary bytes and keeps the invariant too.
\<close>

locale parameter_handler =
  fixes handle :: "byte_order \<Rightarrow> u16 \<Rightarrow> byte list \<Rightarrow> 's \<Rightarrow> ('e + 's) option"
    and malformed :: 'e
    and inv :: "'s \<Rightarrow> bool"
    and failure :: "'e \<Rightarrow> bool"
  assumes malformed_failure: "failure malformed"
    and handle_ok: "inv st \<Longrightarrow> \<exists>r. handle order pid value st = Some r \<and> handled failure inv r"
begin

lemma walk_ok:
  "inv st \<Longrightarrow> \<exists>r. parameter_walk handle malformed order payload offset st = Some r \<and>
     handled failure (\<lambda>(st', seen). inv st') r"
proof (induction "length payload - offset" arbitrary: offset st rule: less_induct)
  case less
  show ?case
  proof (cases "offset + 4 \<le> length payload")
    case False
    then show ?thesis using less.prems by (simp add: parameter_walk.simps)
  next
    case True
    define pid where "pid = (bytes_word order (take 2 (drop offset payload)) :: u16)"
    define z where "z = (bytes_word order (take 2 (drop (offset + 2) payload)) :: u16)"
    define n where "n = unat z"
    have reads: "read_u16 order offset payload = Some pid"
      "read_u16 order (offset + 2) payload = Some z"
      using True by (simp_all add: u16_codec.get_block pid_def z_def)
    show ?thesis
    proof (cases "pid = pid_sentinel \<or> n mod 4 \<noteq> 0 \<or> n > length payload - (offset + 4)")
      case stop: True
      then show ?thesis using True reads less.prems by (subst parameter_walk.simps) (auto simp: n_def malformed_failure)
    next
      case False
      then have slice: "rd_block payload (offset + 4) n = Some (take n (drop (offset + 4) payload))"
        using True unfolding rd_block_def by (subst if_P) arith+
      obtain r where r: "handle order pid (take n (drop (offset + 4) payload)) st = Some r"
        "handled failure inv r" using handle_ok [OF less.prems] by blast
      have walk: "parameter_walk handle malformed order payload offset st =
          (case r of Inl e \<Rightarrow> Some (Inl e) | Inr st \<Rightarrow> parameter_walk handle malformed order payload (offset + 4 + n) st)"
        by (subst parameter_walk.simps) (use True False reads slice r in \<open>simp add: n_def split: sum.split\<close>)
      show ?thesis
      proof (cases r)
        case (Inl e)
        then show ?thesis using walk r(2) by simp
      next
        case (Inr st1)
        then show ?thesis using walk r(2) True less.hyps [of "offset + 4 + n" st1] by simp
      qed
    qed
  qed
qed

end

lemma empty_locators_valid [simp]: "valid_locator_list empty_locators" "locators empty_locators = []"
  by (simp_all add: valid_locator_list_def empty_locators_def wf_locators_def locators_def)

lemma push_back_locators:
  assumes "wf_locators ls"
  shows "locators_push_back l ls =
    (if ll_size ls < spdp_max_locators then Some (True, \<lparr>ll_values = (ll_values ls)[ll_size ls := l], ll_size = ll_size ls + 1\<rparr>)
     else Some (False, ls))"
    and "ll_size ls < spdp_max_locators \<Longrightarrow>
      locators \<lparr>ll_values = (ll_values ls)[ll_size ls := l], ll_size = ll_size ls + 1\<rparr> = locators ls @ [l]"
  using assms by (auto simp: locators_push_back_def wf_locators_def wr_def locators_def take_Suc_conv_app_nth)

lemma append_parsed_locator_ok:
  assumes "valid_locator_list ls"
  shows "\<exists>e ls'. append_parsed_locator value order ls = Some (e, ls') \<and> valid_locator_list ls'"
proof (cases "length value = 24")
  case True
  then have "read_u32 order 0 value = Some (bytes_word order (take 4 value))"
    "read_u32 order 4 value = Some (bytes_word order (take 4 (drop 4 value)))"
    "rd_block value 8 16 = Some (take 16 (drop 8 value))" "length (take 16 (drop 8 value)) = 16"
    by (simp_all add: u32_codec.get_block rd_block_def)
  then show ?thesis
    using assms True push_back_locators [of ls]
    by (auto simp: append_parsed_locator_def valid_locator_list_def wf_locators_def wf_locator_def Let_def)
qed (use assms in \<open>simp add: append_parsed_locator_def\<close>)

lemma append_parsed_locator_bytes:
  assumes "wf_locators ls" "ll_size ls < spdp_max_locators" "wf_locator l" "valid_udp_v4_locator l"
  shows "append_parsed_locator (padded_value (locator_bytes order l)) order ls =
    Some (locator_none, \<lparr>ll_values = (ll_values ls)[ll_size ls := l], ll_size = ll_size ls + 1\<rparr>)"
proof -
  have pad: "padded_value (locator_bytes order l) = locator_bytes order l"
    using assms(3) by (simp add: padded_value_def padded_size_def locator_bytes_def wf_locator_def)
  have "length (locator_bytes order l) = 24" "read_u32 order 0 (locator_bytes order l) = Some (loc_kind l)"
    "read_u32 order 4 (locator_bytes order l) = Some (loc_port l)"
    "rd_block (locator_bytes order l) 8 16 = Some (loc_address l)"
    using assms(3) by (simp_all add: locator_bytes_def wf_locator_def u32_codec.get_block rd_block_def)
  moreover have "loc_kind l = 1" using assms(4) by (simp add: valid_udp_v4_locator_def)
  ultimately show ?thesis
    unfolding pad using assms push_back_locators(1) [OF assms(1)]
    by (cases l) (simp add: append_parsed_locator_def Let_def)
qed

section \<open>Durations\<close>

lemma floor_fraction:
  fixes r :: nat
  assumes "r < 1000000000"
  shows "(r * 2 ^ 32 div 1000000000) * 1000000000 div 2 ^ 32 \<le> r"
    and "r \<le> (r * 2 ^ 32 div 1000000000) * 1000000000 div 2 ^ 32 + 1"
    and "r * 2 ^ 32 div 1000000000 < 2 ^ 32"
proof -
  let ?f = "r * 2 ^ 32 div 1000000000"
  have f: "?f * 1000000000 \<le> r * 2 ^ 32" "r * 2 ^ 32 < (?f + 1) * 1000000000" by simp_all
  show "?f * 1000000000 div 2 ^ 32 \<le> r" using f(1) by simp
  show "r \<le> ?f * 1000000000 div 2 ^ 32 + 1" using f(2) by simp
  show "?f < 2 ^ 32" using assms f(1) by simp
qed

lemma sint_nonneg:
  assumes "unat (w :: u32) < 2 ^ 31"
  shows "\<not> sint w < 0"
proof -
  have "\<not> bit (unat w) 31" using assms by (simp add: bit_iff_odd)
  then have "\<not> bit w 31" by (simp add: bit_unsigned_iff)
  then show ?thesis using bit_last_iff [of w] by simp
qed

lemma duration_roundtrip:
  assumes "duration_seconds d \<le> 0x7FFFFFFF"
  shows "let d' = duration_value (ucast (duration_seconds d)) (duration_fraction d)
    in d' \<le> d \<and> unat d \<le> unat d' + 1 \<and> \<not> sint (ucast (duration_seconds d) :: u32) < 0"
proof -
  let ?s = "unat d div 1000000000" and ?r = "unat d mod 1000000000"
  have s: "?s < 2 ^ 31" using assms
    by (simp add: duration_seconds_def nanoseconds_per_second_def word_le_nat_alt unat_div_distrib)
  have r: "?r < 1000000000" by simp
  note fl = floor_fraction [OF r]
  have us: "unat (ucast (duration_seconds d) :: u32) = ?s"
    using s by (simp add: duration_seconds_def nanoseconds_per_second_def unsigned_ucast_eq unat_div_distrib take_bit_nat_eq_self)
  have ur: "unat (d mod nanoseconds_per_second) = ?r"
    by (simp add: nanoseconds_per_second_def unat_mod_distrib)
  have shift: "unat (push_bit 32 x) = unat x * 2 ^ 32" if "unat x < 2 ^ 32" for x :: u64
    using that by (simp add: push_bit_eq_mult unat_word_ariths)
  have up: "unat (push_bit 32 (d mod nanoseconds_per_second)) = ?r * 2 ^ 32"
    using shift [of "d mod nanoseconds_per_second"] ur r by (simp del: unat_mod_distrib)
  have uf: "unat (duration_fraction d) = ?r * 2 ^ 32 div 1000000000"
    using fl(3) up by (simp add: duration_fraction_def Let_def unsigned_ucast_eq unat_div_distrib nanoseconds_per_second_def take_bit_nat_eq_self)
  let ?r' = "(?r * 2 ^ 32 div 1000000000) * 1000000000 div 2 ^ 32"
  have "unat (drop_bit 32 (ucast (duration_fraction d) * nanoseconds_per_second)) = ?r'"
    using fl(3) uf by (simp add: drop_bit_eq_div unat_div_distrib unat_word_ariths nanoseconds_per_second_def)
  moreover have "unat (ucast (ucast (duration_seconds d) :: u32) * nanoseconds_per_second) = ?s * 1000000000"
    using s us by (simp add: unat_word_ariths nanoseconds_per_second_def)
  moreover have sum: "?s * 1000000000 + ?r' < 2 ^ 64"
  proof -
    have "unat d < 2 ^ 64" using unsigned_less [of d, where 'a = nat] by simp
    then show ?thesis using fl(1) div_mult_mod_eq [of "unat d" 1000000000] by linarith
  qed
  ultimately have v: "unat (duration_value (ucast (duration_seconds d)) (duration_fraction d)) = ?s * 1000000000 + ?r'"
    using sum by (simp add: duration_value_def unat_add_lem [THEN iffD1])
  have d: "unat d = ?s * 1000000000 + ?r" by (simp only: div_mult_mod_eq)
  have "\<not> sint (ucast (duration_seconds d) :: u32) < 0"
    by (rule sint_nonneg) (use us s in simp)
  moreover have "unat (duration_value (ucast (duration_seconds d)) (duration_fraction d)) \<le> unat d"
    "unat d \<le> unat (duration_value (ucast (duration_seconds d)) (duration_fraction d)) + 1"
    unfolding v using d fl(1,2) by linarith+
  ultimately show ?thesis by (simp add: Let_def word_le_nat_alt)
qed

lemma parameter_walk_payload:
  assumes "list_all parameter_ok ps"
  shows "parameter_walk handle malformed order (payload_bytes order ps) 4 st =
    map_option (map_sum (\<lambda>e. e) (\<lambda>st. (st, True))) (handle_all handle order ps st)"
proof -
  define h where "h = ([0, if order = little_endian then 3 else 2, 0, 0] :: byte list)"
  have "length h = 4" by (simp add: h_def)
  with parameter_walk_bytes [OF assms, where X = h and R = "[]" and handle = handle and malformed = malformed]
  show ?thesis by (simp add: payload_bytes_def h_def [symmetric])
qed

lemma handle_all_seq:
  "handle_all h order ps st = Some (Inr st1) \<Longrightarrow> handle_all h order (ps @ qs) st = handle_all h order qs st1"
  by (simp add: handle_all_append)

lemma writes_then:
  assumes "writes order f ps" "length (parameters_bytes order ps) \<le> length R"
  shows "and_also f g \<lparr>pw_buffer = X @ R, pw_order = order, pw_size = length X\<rparr> =
    g \<lparr>pw_buffer = (X @ parameters_bytes order ps) @ drop (length (parameters_bytes order ps)) R, pw_order = order,
       pw_size = length (X @ parameters_bytes order ps)\<rparr>"
  using assms by (simp add: writes_def and_also_def)

end
