(* ===== verification/Slot_Table.thy ===== *)
theory Slot_Table
  imports Prelude
begin

text \<open>
  Fixed arrays of slots with an \<open>occupied\<close> flag, as the discovery tables and the graph cache keep
  them: an entry is found by its key, stored in the first free slot, and blanked to remove it. The
  locale \<open>slot_table\<close> states what such a table is and proves once that it behaves as a finite map
  from keys to entries; the components interpret it on their own entries.
\<close>

definition slot_live :: "('e \<Rightarrow> bool) \<Rightarrow> ('e \<Rightarrow> 'k) \<Rightarrow> 'k \<Rightarrow> 'e \<Rightarrow> bool" where
  "slot_live occ key k e \<longleftrightarrow> occ e \<and> key e = k"

definition slot_map :: "('e \<Rightarrow> bool) \<Rightarrow> ('e \<Rightarrow> 'k) \<Rightarrow> 'e list \<Rightarrow> 'k \<rightharpoonup> 'e" where
  "slot_map occ key es k = map_option (nth es) (find_index (slot_live occ key k) es)"

definition slot_distinct :: "('e \<Rightarrow> bool) \<Rightarrow> ('e \<Rightarrow> 'k) \<Rightarrow> 'e list \<Rightarrow> bool" where
  "slot_distinct occ key es \<longleftrightarrow> distinct (map key (filter occ es))"

definition slot_remove :: "('e \<Rightarrow> bool) \<Rightarrow> 'e \<Rightarrow> ('e \<Rightarrow> bool) \<Rightarrow> 'e list \<Rightarrow> 'e list" where
  "slot_remove occ blank P es = map (\<lambda>e. if occ e \<and> P e then blank else e) es"

text \<open>
  One iteration of the loop that removes the due entries: entries, output array, its size, and the
  table's size counter.
\<close>

type_synonym ('e, 'r) sweep = "'e list \<times> 'r list \<times> nat \<times> nat"

definition slot_sweep ::
  "('e \<Rightarrow> bool) \<Rightarrow> ('e \<Rightarrow> bool) \<Rightarrow> ('e \<Rightarrow> 'r) \<Rightarrow> 'e \<Rightarrow> nat \<Rightarrow> ('e, 'r) sweep \<Rightarrow> ('e, 'r) sweep option" where
  "slot_sweep occ due report blank index = (\<lambda>(entries, out, out_size, table_size). do {
     e \<leftarrow> rd entries index;
     if \<not> occ e \<or> \<not> due e then Some (entries, out, out_size, table_size)
     else do {
       out \<leftarrow> wr out out_size (report e);
       entries \<leftarrow> wr entries index blank;
       Some (entries, out, out_size + 1, table_size - 1) } })"

definition slot_due :: "('e \<Rightarrow> bool) \<Rightarrow> ('e \<Rightarrow> bool) \<Rightarrow> 'e list \<Rightarrow> 'e list" where
  "slot_due occ due es = filter (\<lambda>e. occ e \<and> due e) es"

locale slot_table =
  fixes occ :: "'e \<Rightarrow> bool"
    and key :: "'e \<Rightarrow> 'k"
    and blank :: 'e
  assumes blank_free: "\<not> occ blank"
begin

lemma distinct_iff:
  "slot_distinct occ key es \<longleftrightarrow>
   (\<forall>i < length es. \<forall>j < length es. occ (es ! i) \<longrightarrow> occ (es ! j) \<longrightarrow> key (es ! i) = key (es ! j) \<longrightarrow> i = j)"
proof (induction es)
  case (Cons e es)
  have "slot_distinct occ key (e # es) \<longleftrightarrow>
      (occ e \<longrightarrow> (\<forall>x \<in> set es. occ x \<longrightarrow> key x \<noteq> key e)) \<and> slot_distinct occ key es"
    by (simp add: slot_distinct_def image_iff) metis
  then have "slot_distinct occ key (e # es) \<longleftrightarrow>
      (occ e \<longrightarrow> (\<forall>j < length es. occ (es ! j) \<longrightarrow> key (es ! j) \<noteq> key e)) \<and> slot_distinct occ key es"
    by (simp add: all_set_conv_all_nth)
  then show ?case unfolding Cons.IH by (simp add: All_less_Suc2) (safe; metis)
qed (simp add: slot_distinct_def)

lemma map_Some:
  assumes "slot_distinct occ key es" "i < length es" "occ (es ! i)" "key (es ! i) = k"
  shows "slot_map occ key es k = Some (es ! i)" "find_index (slot_live occ key k) es = Some i"
proof -
  have "find_index (slot_live occ key k) es \<noteq> None"
    using assms(2-4) by (auto simp: find_index_None slot_live_def)
  then obtain j where j: "find_index (slot_live occ key k) es = Some j" by blast
  then have "j < length es" "slot_live occ key k (es ! j)" by (auto dest: find_index_SomeD)
  with assms have "j = i" by (auto simp: distinct_iff slot_live_def)
  with j show "slot_map occ key es k = Some (es ! i)" "find_index (slot_live occ key k) es = Some i"
    by (simp_all add: slot_map_def)
qed

lemma map_SomeD: "slot_map occ key es k = Some e \<Longrightarrow> \<exists>i < length es. es ! i = e \<and> occ e \<and> key e = k"
  using find_index_SomeD [of "slot_live occ key k" es] by (auto simp: slot_map_def slot_live_def)

lemma map_None: "slot_map occ key es k = None \<longleftrightarrow> (\<forall>e \<in> set es. occ e \<longrightarrow> key e \<noteq> k)"
  by (auto simp: slot_map_def find_index_None slot_live_def)

lemma map_iff:
  assumes "slot_distinct occ key es"
  shows "slot_map occ key es k = Some e \<longleftrightarrow> (\<exists>i < length es. es ! i = e \<and> occ e \<and> key e = k)"
  using map_Some [OF assms] map_SomeD by blast

lemma map_dom: "dom (slot_map occ key es) = key ` set (filter occ es)"
  using map_None [of es] by (auto simp: dom_def)

lemma map_card: "slot_distinct occ key es \<Longrightarrow> card (dom (slot_map occ key es)) = length (filter occ es)"
  unfolding map_dom by (metis slot_distinct_def distinct_card length_map set_map)

lemma found:
  assumes "find_index (slot_live occ key k) es = Some i"
  shows "i < length es" "occ (es ! i)" "key (es ! i) = k" "slot_map occ key es k = Some (es ! i)"
  using assms find_index_SomeD [OF assms] by (auto simp: slot_live_def slot_map_def)

text \<open>Storing an entry for \<open>k\<close> in the slot that holds \<open>k\<close>, or in a free slot when no slot does.\<close>

lemma store:
  assumes dist: "slot_distinct occ key es" and i: "i < length es" and e: "occ e" "key e = k"
    and slot: "occ (es ! i) \<and> key (es ! i) = k \<or> \<not> occ (es ! i) \<and> slot_map occ key es k = None"
  shows "slot_distinct occ key (es[i := e])" "slot_map occ key (es[i := e]) = (slot_map occ key es)(k \<mapsto> e)"
proof -
  have other: "key (es ! j) \<noteq> k" if "j < length es" "j \<noteq> i" "occ (es ! j)" for j
    using that slot dist i by (auto simp: distinct_iff map_None)
  show d: "slot_distinct occ key (es[i := e])"
    unfolding distinct_iff length_list_update
  proof (intro allI impI)
    fix a b assume "a < length es" "b < length es" "occ (es[i := e] ! a)" "occ (es[i := e] ! b)"
      "key (es[i := e] ! a) = key (es[i := e] ! b)"
    then show "a = b" using dist [unfolded distinct_iff, rule_format, of a b] other [of a] other [of b] e i
      by (cases "a = i"; cases "b = i") simp_all
  qed
  show "slot_map occ key (es[i := e]) = (slot_map occ key es)(k \<mapsto> e)"
  proof (rule ext)
    fix l
    show "slot_map occ key (es[i := e]) l = ((slot_map occ key es)(k \<mapsto> e)) l"
    proof (cases "l = k")
      case True
      then show ?thesis using map_Some(1) [OF d, of i k] i e by simp
    next
      case False
      have "slot_map occ key (es[i := e]) l = Some x \<longleftrightarrow> slot_map occ key es l = Some x" for x
        unfolding map_iff [OF d] map_iff [OF dist] using False i e slot other
        by (auto simp: nth_list_update map_None) (metis nth_mem)+
      then show ?thesis using False by (metis fun_upd_other option.exhaust)
    qed
  qed
qed

lemma store_count:
  assumes "i < length es" "occ e"
  shows "length (filter occ (es[i := e])) = (if occ (es ! i) then length (filter occ es) else length (filter occ es) + 1)"
  using assms by (simp add: count_update_same count_update_add)

lemma remove:
  assumes "slot_distinct occ key es"
  shows "slot_distinct occ key (slot_remove occ blank P es)"
    "slot_map occ key (slot_remove occ blank P es) k = Option.bind (slot_map occ key es k) (\<lambda>e. if P e then None else Some e)"
proof -
  let ?es = "slot_remove occ blank P es"
  have nth: "?es ! i = (if occ (es ! i) \<and> P (es ! i) then blank else es ! i)" "length ?es = length es" if "i < length es" for i
    using that by (simp_all add: slot_remove_def)
  have len: "length ?es = length es" by (simp add: slot_remove_def)
  show d: "slot_distinct occ key ?es"
    using assms blank_free unfolding distinct_iff len by (auto simp: nth split: if_splits)
  have iff: "slot_map occ key ?es k = Some x \<longleftrightarrow> slot_map occ key es k = Some x \<and> \<not> P x" for x
    unfolding map_iff [OF d] map_iff [OF assms] len using blank_free by (auto simp: nth split: if_splits)
  show "slot_map occ key ?es k = Option.bind (slot_map occ key es k) (\<lambda>e. if P e then None else Some e)"
  proof (cases "slot_map occ key ?es k")
    case None
    then show ?thesis using iff by (cases "slot_map occ key es k") auto
  next
    case (Some x)
    then show ?thesis using iff [of x] by simp
  qed
qed

lemma remove_count:
  "length (filter occ (slot_remove occ blank P es)) + length (slot_due occ P es) = length (filter occ es)"
  by (induction es) (auto simp: slot_remove_def slot_due_def blank_free)

text \<open>The loop blanks the due entries in place and lists them in order.\<close>

lemma sweep_loop:
  assumes "n + length (slot_due occ due rest) \<le> length out"
  shows "for_loop (length pre) (length rest) (slot_sweep occ due report blank) (pre @ rest, out, n, sz) =
    Some (pre @ slot_remove occ blank due rest,
      take n out @ map report (slot_due occ due rest) @ drop (n + length (slot_due occ due rest)) out,
      n + length (slot_due occ due rest), sz - length (slot_due occ due rest))"
  using assms
proof (induction rest arbitrary: pre out n sz)
  case Nil
  then show ?case by (simp add: slot_due_def slot_remove_def)
next
  case (Cons e rest)
  show ?case
  proof (cases "occ e \<and> due e")
    case True
    then have keys: "slot_due occ due (e # rest) = e # slot_due occ due rest" by (simp add: slot_due_def)
    have "slot_sweep occ due report blank (length pre) (pre @ e # rest, out, n, sz) =
        Some ((pre @ [blank]) @ rest, out[n := report e], Suc n, sz - 1)"
      using True Cons.prems keys by (simp add: slot_sweep_def wr_def list_update_append)
    with Cons.IH [of "Suc n" "out[n := report e]" "pre @ [blank]" "sz - 1"] True Cons.prems show ?thesis
      unfolding keys by (simp add: slot_remove_def take_Suc_conv_app_nth)
  next
    case False
    then have keys: "slot_due occ due (e # rest) = slot_due occ due rest" by (auto simp: slot_due_def)
    have "slot_sweep occ due report blank (length pre) (pre @ e # rest, out, n, sz) = Some ((pre @ [e]) @ rest, out, n, sz)"
      using False by (auto simp: slot_sweep_def)
    with Cons.IH [of n out "pre @ [e]" sz] False Cons.prems show ?thesis
      unfolding keys by (auto simp: slot_remove_def)
  qed
qed

lemma due_keys:
  assumes "slot_distinct occ key es"
  shows "key ` set (slot_due occ due es) = {k. \<exists>e. slot_map occ key es k = Some e \<and> due e}"
    "distinct (map key (slot_due occ due es))"
proof -
  show "key ` set (slot_due occ due es) = {k. \<exists>e. slot_map occ key es k = Some e \<and> due e}"
    unfolding map_iff [OF assms] by (auto simp: slot_due_def in_set_conv_nth image_iff)
  have "slot_due occ due es = filter due (filter occ es)" by (simp add: slot_due_def)
  with assms show "distinct (map key (slot_due occ due es))"
    unfolding slot_distinct_def by (metis distinct_map_filter)
qed

lemma count_pos: "i < length es \<Longrightarrow> occ (es ! i) \<Longrightarrow> 0 < length (filter occ es)"
  by (auto simp: filter_empty_conv)

lemma no_free: "find_index (\<lambda>e. \<not> occ e) es = None \<Longrightarrow> length (filter occ es) = length es"
  by (simp add: find_index_None filter_id_conv)

lemma free:
  assumes "find_index (\<lambda>e. \<not> occ e) es = Some i"
  shows "i < length es" "\<not> occ (es ! i)" "length (filter occ es) < length es"
proof -
  show i: "i < length es" "\<not> occ (es ! i)" using find_index_SomeD [OF assms] by auto
  then show "length (filter occ es) < length es" by (intro length_filter_less [of "es ! i"]) auto
qed

lemma blank_table: "slot_distinct occ key (replicate n blank)" "slot_map occ key (replicate n blank) k = None"
  "length (filter occ (replicate n blank)) = 0"
  using blank_free by (simp_all add: slot_distinct_def map_None)

end

end
