(* ===== verification/Spdp.thy ===== *)
theory Spdp
  imports Parameter_List Slot_Table
begin

text \<open>
  Participant discovery, \<open>src/include/openrtdds/rtps/spdp.hpp\<close> and \<open>src/src/rtps/spdp.cpp\<close>: the
  port mapping, the announcement builder and parser over parameter lists, and the table of
  discovered participants with its leases.
\<close>

unbundle bit_operations_syntax

section \<open>Model\<close>

datatype spdp_error =
  spdp_none | spdp_invalid_argument | spdp_invalid_configuration | spdp_buffer_overflow | spdp_rtps_error
  | spdp_unsupported_representation | spdp_malformed_parameter | spdp_unknown_required_parameter
  | spdp_missing_required_parameter | spdp_duplicate_parameter | spdp_locator_bound_exceeded
  | spdp_invalid_locator | spdp_invalid_duration | spdp_invalid_identity | spdp_domain_mismatch
  | spdp_self_announcement | spdp_table_full | spdp_stale_announcement | spdp_time_regression
  | spdp_expiration_overflow | spdp_action_capacity_exceeded

record spdp_port_config =
  pc_port_base :: u32
  pc_domain_gain :: u32
  pc_participant_gain :: u32
  pc_multicast_offset :: u32
  pc_unicast_offset :: u32

definition default_port_config :: spdp_port_config where
  "default_port_config =
     \<lparr>pc_port_base = 7400, pc_domain_gain = 250, pc_participant_gain = 2, pc_multicast_offset = 0,
      pc_unicast_offset = 10\<rparr>"

text \<open>\<open>None\<close> is the return value false, with the output port untouched.\<close>

definition spdp_multicast_port :: "u32 \<Rightarrow> spdp_port_config \<Rightarrow> u16 option" where
  "spdp_multicast_port domain_id config =
     (let fixed = (ucast (pc_port_base config) :: u64) + ucast (pc_multicast_offset config)
      in if fixed > 65535 then None
         else
           let remaining = 65535 - fixed
           in if pc_domain_gain config \<noteq> 0 \<and> ucast domain_id > remaining div ucast (pc_domain_gain config) then None
              else
                let v = fixed + ucast (pc_domain_gain config) * ucast domain_id
                in if v = 0 then None else Some (ucast v))"

definition spdp_unicast_port :: "u32 \<Rightarrow> u32 \<Rightarrow> spdp_port_config \<Rightarrow> u16 option" where
  "spdp_unicast_port domain_id participant_id config =
     (let fixed = (ucast (pc_port_base config) :: u64) + ucast (pc_unicast_offset config)
      in if fixed > 65535 then None
         else
           let domain_term = ucast (pc_domain_gain config) * ucast domain_id
           in if domain_term > 65535 - fixed then None
              else
                let partial = fixed + domain_term; remaining = 65535 - partial
                in if pc_participant_gain config \<noteq> 0 \<and>
                      ucast participant_id > remaining div ucast (pc_participant_gain config) then None
                   else
                     let v = partial + ucast (pc_participant_gain config) * ucast participant_id
                     in if v = 0 then None else Some (ucast v))"

definition spdp_max_entity_name :: nat where "spdp_max_entity_name = 63"

definition spdp_endpoint_participant_announcer :: u32 where "spdp_endpoint_participant_announcer = push_bit 0 1"

definition spdp_endpoint_participant_detector :: u32 where "spdp_endpoint_participant_detector = push_bit 1 1"

record spdp_participant =
  pd_protocol_version :: protocol_version
  pd_vendor_id :: vendor_id
  pd_guid_prefix :: guid_prefix
  pd_domain_id :: u32
  pd_expects_inline_qos :: bool
  pd_metatraffic_unicast :: locator_list
  pd_metatraffic_multicast :: locator_list
  pd_default_unicast :: locator_list
  pd_default_multicast :: locator_list
  pd_available_builtin_endpoints :: u32
  pd_lease_duration_ns :: u64
  pd_entity_name :: "byte list"
  pd_entity_name_size :: nat

definition default_participant :: spdp_participant where
  "default_participant =
     \<lparr>pd_protocol_version = \<lparr>pv_major = 2, pv_minor = 5\<rparr>, pd_vendor_id = replicate 2 0, pd_guid_prefix = replicate 12 0,
      pd_domain_id = 0, pd_expects_inline_qos = False, pd_metatraffic_unicast = empty_locators,
      pd_metatraffic_multicast = empty_locators, pd_default_unicast = empty_locators,
      pd_default_multicast = empty_locators,
      pd_available_builtin_endpoints = spdp_endpoint_participant_announcer OR spdp_endpoint_participant_detector,
      pd_lease_duration_ns = 100000000000, pd_entity_name = replicate (spdp_max_entity_name + 1) 0,
      pd_entity_name_size = 0\<rparr>"

record spdp_config =
  sc_participant :: spdp_participant
  sc_sequence_number :: u64
  sc_submessage_byte_order :: byte_order
  sc_parameter_byte_order :: byte_order

record spdp_builder =
  sb_buffer :: span
  sb_size :: nat
  sb_error :: spdp_error
  sb_rtps_error :: rtps_error

record spdp_view =
  sv_participant :: spdp_participant
  sv_sequence_number :: u64
  sv_submessage_byte_order :: byte_order
  sv_parameter_byte_order :: byte_order

definition pid_participant_lease_duration :: u16 where "pid_participant_lease_duration = 0x0002"
definition pid_domain_id :: u16 where "pid_domain_id = 0x000F"
definition pid_protocol_version :: u16 where "pid_protocol_version = 0x0015"
definition pid_vendor_id :: u16 where "pid_vendor_id = 0x0016"
definition pid_default_unicast_locator :: u16 where "pid_default_unicast_locator = 0x0031"
definition pid_metatraffic_unicast_locator :: u16 where "pid_metatraffic_unicast_locator = 0x0032"
definition pid_metatraffic_multicast_locator :: u16 where "pid_metatraffic_multicast_locator = 0x0033"
definition pid_expects_inline_qos :: u16 where "pid_expects_inline_qos = 0x0043"
definition pid_default_multicast_locator :: u16 where "pid_default_multicast_locator = 0x0048"
definition pid_participant_guid :: u16 where "pid_participant_guid = 0x0050"
definition pid_builtin_endpoint_set :: u16 where "pid_builtin_endpoint_set = 0x0058"
definition pid_entity_name :: u16 where "pid_entity_name = 0x0062"

definition spdp_payload_capacity :: nat where "spdp_payload_capacity = 768"

definition entity_id_unknown :: entity_id where "entity_id_unknown = [0, 0, 0, 0]"
definition entity_id_participant :: entity_id where "entity_id_participant = [0, 0, 1, 0xC1]"
definition entity_id_spdp_writer :: entity_id where "entity_id_spdp_writer = [0, 1, 0, 0xC2]"
definition entity_id_spdp_reader :: entity_id where "entity_id_spdp_reader = [0, 1, 0, 0xC7]"

definition nonzero_guid :: "guid_prefix \<Rightarrow> bool" where
  "nonzero_guid p \<longleftrightarrow> list_ex (\<lambda>b. b \<noteq> 0) p"

definition spdp_builder_new :: "span \<Rightarrow> spdp_builder" where
  "spdp_builder_new buffer =
     \<lparr>sb_buffer = buffer, sb_size = 0,
      sb_error = (if null_span buffer \<and> span_size buffer \<noteq> 0 then spdp_invalid_argument else spdp_none),
      sb_rtps_error = rtps_none\<rparr>"

text \<open>The sum of two \<open>std::size_t\<close>, which wraps.\<close>

definition size_add :: "nat \<Rightarrow> nat \<Rightarrow> nat" where
  "size_add a b = (a + b) mod (SIZE_MAX + 1)"

text \<open>The parameters in the order in which \<open>build\<close> appends them.\<close>

definition spdp_parameters :: "spdp_participant \<Rightarrow> byte_order \<Rightarrow> parameter_step" where
  "spdp_parameters p order =
     and_also (append_value pid_protocol_version 2 (\<lambda>value b. do {
       b \<leftarrow> wr b value (pv_major (pd_protocol_version p));
       wr b (value + 1) (pv_minor (pd_protocol_version p)) }))
    (and_also (append_value pid_vendor_id 2 (\<lambda>value b. do {
       source \<leftarrow> rd_block (pd_vendor_id p) 0 2;
       wr_block b value source }))
    (and_also (append_value pid_domain_id 4 (\<lambda>value b. write_u32 order value (pd_domain_id p) b))
    (and_also (append_value pid_participant_guid 16 (\<lambda>value b. do {
       source \<leftarrow> rd_block (pd_guid_prefix p) 0 12;
       b \<leftarrow> wr_block b value source;
       wr_block b (value + 12) entity_id_participant }))
    (and_also (append_value pid_expects_inline_qos 1 (\<lambda>value b.
       wr b value (if pd_expects_inline_qos p then 1 else 0)))
    (and_also (append_value pid_builtin_endpoint_set 4 (\<lambda>value b.
       write_u32 order value (pd_available_builtin_endpoints p) b))
    (and_also (append_value pid_participant_lease_duration 8 (\<lambda>value b.
       write_duration order value (pd_lease_duration_ns p) b))
    (and_also (append_locators pid_metatraffic_unicast_locator (pd_metatraffic_unicast p) order)
    (and_also (append_locators pid_metatraffic_multicast_locator (pd_metatraffic_multicast p) order)
    (and_also (append_locators pid_default_unicast_locator (pd_default_unicast p) order)
    (and_also (append_locators pid_default_multicast_locator (pd_default_multicast p) order)
    (and_also (\<lambda>w. if pd_entity_name_size p \<noteq> 0
       then append_string pid_entity_name (pd_entity_name p) (pd_entity_name_size p) order w
       else Some (True, w))
     parameter_finish)))))))))))"

definition spdp_fail :: "spdp_error \<Rightarrow> spdp_builder \<Rightarrow> (bool \<times> spdp_builder) option" where
  "spdp_fail e d = Some (False, d\<lparr>sb_error := e\<rparr>)"

definition spdp_data_config :: "spdp_config \<Rightarrow> data_message_config" where
  "spdp_data_config c =
     \<lparr>dc_version = pd_protocol_version (sc_participant c), dc_vendor_id = pd_vendor_id (sc_participant c),
      dc_guid_prefix = pd_guid_prefix (sc_participant c), dc_reader_id = entity_id_unknown,
      dc_writer_id = entity_id_spdp_writer, dc_sequence_number = sc_sequence_number c,
      dc_byte_order = sc_submessage_byte_order c\<rparr>"

definition spdp_build :: "spdp_config \<Rightarrow> spdp_builder \<Rightarrow> (bool \<times> spdp_builder) option" where
  "spdp_build c d =
     (let d = d\<lparr>sb_size := 0, sb_error := spdp_none, sb_rtps_error := rtps_none\<rparr>;
          p = sc_participant c;
          builtin = spdp_endpoint_participant_announcer OR spdp_endpoint_participant_detector
      in if null_span (sb_buffer d) \<and> span_size (sb_buffer d) \<noteq> 0 \<or>
            \<not> supported_byte_order (sc_submessage_byte_order c) \<or> \<not> supported_byte_order (sc_parameter_byte_order c)
         then spdp_fail spdp_invalid_argument d
         else if unsupported_version (pd_protocol_version p) \<or> \<not> nonzero_guid (pd_guid_prefix p) \<or>
            pd_entity_name_size p > spdp_max_entity_name \<or> pd_lease_duration_ns p < 2 \<or>
            pd_available_builtin_endpoints p AND builtin \<noteq> builtin \<or> ll_size (pd_default_unicast p) = 0 \<or>
            size_add (ll_size (pd_metatraffic_unicast p)) (ll_size (pd_metatraffic_multicast p)) = 0
         then spdp_fail spdp_invalid_configuration d
         else if \<not> valid_locators (pd_metatraffic_unicast p) \<or> \<not> valid_locators (pd_metatraffic_multicast p) \<or>
            \<not> valid_locators (pd_default_unicast p) \<or> \<not> valid_locators (pd_default_multicast p)
         then spdp_fail spdp_invalid_locator d
         else if duration_seconds (pd_lease_duration_ns p) > 0x7FFFFFFF then spdp_fail spdp_invalid_duration d
         else do {
           w \<leftarrow> parameter_writer_new (replicate spdp_payload_capacity 0) (sc_parameter_byte_order c);
           (complete, w) \<leftarrow> spdp_parameters p (sc_parameter_byte_order c) w;
           if \<not> complete then spdp_fail spdp_buffer_overflow d
           else do {
             payload \<leftarrow> rd_block (pw_buffer w) 0 (pw_size w);
             (ok, b) \<leftarrow> data_build (spdp_data_config c) (Span payload) (data_builder_new (sb_buffer d));
             let d = d\<lparr>sb_buffer := db_buffer b\<rparr>;
             if \<not> ok then spdp_fail spdp_rtps_error (d\<lparr>sb_rtps_error := db_error b\<rparr>)
             else Some (True, d\<lparr>sb_size := db_size b\<rparr>) } })"

subsection \<open>Parsing\<close>

text \<open>The candidate and the flags of the parser's loop.\<close>

record spdp_parse =
  ps_participant :: spdp_participant
  ps_seen_protocol :: bool
  ps_seen_vendor :: bool
  ps_seen_guid :: bool
  ps_seen_domain :: bool
  ps_seen_inline :: bool
  ps_seen_endpoints :: bool
  ps_seen_lease :: bool
  ps_seen_name :: bool

fun spdp_locator_error :: "locator_error \<Rightarrow> spdp_error" where
  "spdp_locator_error locator_none = spdp_none"
| "spdp_locator_error locator_malformed = spdp_malformed_parameter"
| "spdp_locator_error locator_invalid = spdp_invalid_locator"
| "spdp_locator_error locator_exceeded = spdp_locator_bound_exceeded"

definition spdp_locator ::
  "byte list \<Rightarrow> byte_order \<Rightarrow> (spdp_participant \<Rightarrow> locator_list) \<Rightarrow> (locator_list \<Rightarrow> spdp_participant) \<Rightarrow> spdp_parse
   \<Rightarrow> (spdp_error + spdp_parse) option" where
  "spdp_locator value order get put st = do {
     (e, ls) \<leftarrow> append_parsed_locator value order (get (ps_participant st));
     Some (if e = locator_none then Inr (st\<lparr>ps_participant := put ls\<rparr>) else Inl (spdp_locator_error e)) }"

definition spdp_entity_name :: "byte list \<Rightarrow> byte_order \<Rightarrow> spdp_parse \<Rightarrow> (spdp_error + spdp_parse) option" where
  "spdp_entity_name value order st =
     (if ps_seen_name st then Some (Inl spdp_duplicate_parameter)
      else if length value < 8 then Some (Inl spdp_malformed_parameter)
      else do {
        string_size \<leftarrow> map_option unat (read_u32 order 0 value);
        if string_size = 0 \<or> string_size > length value - 4 \<or> string_size > spdp_max_entity_name + 1
        then Some (Inl spdp_malformed_parameter)
        else do {
          terminator \<leftarrow> rd value (4 + string_size - 1);
          if terminator \<noteq> 0 then Some (Inl spdp_malformed_parameter)
          else do {
            source \<leftarrow> rd_block value 4 (string_size - 1);
            name \<leftarrow> wr_block (pd_entity_name (ps_participant st)) 0 source;
            Some (Inr (st\<lparr>ps_participant := (ps_participant st)\<lparr>pd_entity_name_size := string_size - 1, pd_entity_name := name\<rparr>,
              ps_seen_name := True\<rparr>)) } } })"

definition spdp_lease :: "byte list \<Rightarrow> byte_order \<Rightarrow> spdp_parse \<Rightarrow> (spdp_error + spdp_parse) option" where
  "spdp_lease value order st =
     (if ps_seen_lease st then Some (Inl spdp_duplicate_parameter)
      else if length value \<noteq> 8 then Some (Inl spdp_malformed_parameter)
      else do {
        seconds \<leftarrow> read_u32 order 0 value;
        if sint seconds < 0 then Some (Inl spdp_invalid_duration)
        else do {
          fraction \<leftarrow> read_u32 order 4 value;
          let lease = duration_value seconds fraction;
          if lease = 0 then Some (Inl spdp_invalid_duration)
          else Some (Inr (st\<lparr>ps_participant := (ps_participant st)\<lparr>pd_lease_duration_ns := lease\<rparr>, ps_seen_lease := True\<rparr>)) } })"

definition spdp_parameter ::
  "byte_order \<Rightarrow> u16 \<Rightarrow> byte list \<Rightarrow> spdp_parse \<Rightarrow> (spdp_error + spdp_parse) option" where
  "spdp_parameter order pid value st =
     (let p = ps_participant st
      in if pid = 0 then Some (Inr st)
         else if pid = pid_protocol_version then
           (if ps_seen_protocol st then Some (Inl spdp_duplicate_parameter)
            else if length value \<noteq> 4 then Some (Inl spdp_malformed_parameter)
            else do {
              major \<leftarrow> rd value 0;
              minor \<leftarrow> rd value 1;
              Some (Inr (st\<lparr>ps_participant := p\<lparr>pd_protocol_version := \<lparr>pv_major = major, pv_minor = minor\<rparr>\<rparr>,
                ps_seen_protocol := True\<rparr>)) })
         else if pid = pid_vendor_id then
           (if ps_seen_vendor st then Some (Inl spdp_duplicate_parameter)
            else if length value \<noteq> 4 then Some (Inl spdp_malformed_parameter)
            else do {
              vendor \<leftarrow> rd_block value 0 2;
              Some (Inr (st\<lparr>ps_participant := p\<lparr>pd_vendor_id := vendor\<rparr>, ps_seen_vendor := True\<rparr>)) })
         else if pid = pid_domain_id then
           (if ps_seen_domain st then Some (Inl spdp_duplicate_parameter)
            else if length value \<noteq> 4 then Some (Inl spdp_malformed_parameter)
            else do {
              domain \<leftarrow> read_u32 order 0 value;
              Some (Inr (st\<lparr>ps_participant := p\<lparr>pd_domain_id := domain\<rparr>, ps_seen_domain := True\<rparr>)) })
         else if pid = pid_participant_guid then
           (if ps_seen_guid st then Some (Inl spdp_duplicate_parameter)
            else if length value \<noteq> 16 then Some (Inl spdp_malformed_parameter)
            else do {
              prefix \<leftarrow> rd_block value 0 12;
              entity \<leftarrow> rd_block value 12 4;
              if entity \<noteq> entity_id_participant then Some (Inl spdp_invalid_identity)
              else Some (Inr (st\<lparr>ps_participant := p\<lparr>pd_guid_prefix := prefix\<rparr>, ps_seen_guid := True\<rparr>)) })
         else if pid = pid_expects_inline_qos then
           (if ps_seen_inline st then Some (Inl spdp_duplicate_parameter)
            else if length value \<noteq> 4 then Some (Inl spdp_malformed_parameter)
            else do {
              b \<leftarrow> rd value 0;
              if b > 1 then Some (Inl spdp_malformed_parameter)
              else Some (Inr (st\<lparr>ps_participant := p\<lparr>pd_expects_inline_qos := (b \<noteq> 0)\<rparr>, ps_seen_inline := True\<rparr>)) })
         else if pid = pid_builtin_endpoint_set then
           (if ps_seen_endpoints st then Some (Inl spdp_duplicate_parameter)
            else if length value \<noteq> 4 then Some (Inl spdp_malformed_parameter)
            else do {
              endpoints \<leftarrow> read_u32 order 0 value;
              Some (Inr (st\<lparr>ps_participant := p\<lparr>pd_available_builtin_endpoints := endpoints\<rparr>, ps_seen_endpoints := True\<rparr>)) })
         else if pid = pid_participant_lease_duration then spdp_lease value order st
         else if pid = pid_metatraffic_unicast_locator
         then spdp_locator value order pd_metatraffic_unicast (\<lambda>ls. p\<lparr>pd_metatraffic_unicast := ls\<rparr>) st
         else if pid = pid_metatraffic_multicast_locator
         then spdp_locator value order pd_metatraffic_multicast (\<lambda>ls. p\<lparr>pd_metatraffic_multicast := ls\<rparr>) st
         else if pid = pid_default_unicast_locator
         then spdp_locator value order pd_default_unicast (\<lambda>ls. p\<lparr>pd_default_unicast := ls\<rparr>) st
         else if pid = pid_default_multicast_locator
         then spdp_locator value order pd_default_multicast (\<lambda>ls. p\<lparr>pd_default_multicast := ls\<rparr>) st
         else if pid = pid_entity_name then spdp_entity_name value order st
         else if pid AND must_understand_mask \<noteq> 0 then Some (Inl spdp_unknown_required_parameter)
         else Some (Inr st))"

definition spdp_accept :: "u32 \<Rightarrow> data_message_view \<Rightarrow> byte_order \<Rightarrow> spdp_parse \<times> bool \<Rightarrow> (spdp_error + spdp_view)" where
  "spdp_accept expected_domain_id data order = (\<lambda>(st, seen_sentinel).
     let p = ps_participant st
     in if \<not> seen_sentinel then Inl spdp_malformed_parameter
        else if \<not> ps_seen_protocol st \<or> \<not> ps_seen_vendor st \<or> \<not> ps_seen_guid st \<or> \<not> ps_seen_endpoints st \<or>
           ll_size (pd_default_unicast p) = 0 \<or>
           size_add (ll_size (pd_metatraffic_unicast p)) (ll_size (pd_metatraffic_multicast p)) = 0
        then Inl spdp_missing_required_parameter
        else if unsupported_version (pd_protocol_version p) \<or> \<not> nonzero_guid (pd_guid_prefix p) \<or>
           pd_guid_prefix p \<noteq> dv_guid_prefix data \<or>
           pv_major (pd_protocol_version p) \<noteq> pv_major (dv_version data) \<or>
           pv_minor (pd_protocol_version p) \<noteq> pv_minor (dv_version data) \<or> pd_vendor_id p \<noteq> dv_vendor_id data
        then Inl spdp_invalid_identity
        else if pd_domain_id p \<noteq> expected_domain_id then Inl spdp_domain_mismatch
        else Inr \<lparr>sv_participant = p, sv_sequence_number = dv_sequence_number data,
          sv_submessage_byte_order = dv_byte_order data, sv_parameter_byte_order = order\<rparr>)"

text \<open>
  The result of a parse: an error with the RTPS error that caused it, if any, or the view with the
  number of bytes consumed.
\<close>

definition parse_spdp_message :: "span \<Rightarrow> u32 \<Rightarrow> (spdp_error \<times> rtps_error + spdp_view \<times> nat) option" where
  "parse_spdp_message message expected_domain_id = do {
     data \<leftarrow> parse_data_message message;
     case data of
       Inl e \<Rightarrow> Some (Inl (spdp_rtps_error, e))
     | Inr data \<Rightarrow>
         if dv_writer_id data \<noteq> entity_id_spdp_writer \<or>
            dv_reader_id data \<noteq> entity_id_unknown \<and> dv_reader_id data \<noteq> entity_id_spdp_reader
         then Some (Inl (spdp_invalid_identity, rtps_none))
         else if length (dv_payload data) < 8 then Some (Inl (spdp_unsupported_representation, rtps_none))
         else do {
           b0 \<leftarrow> rd (dv_payload data) 0;
           b1 \<leftarrow> rd (dv_payload data) 1;
           if b0 \<noteq> 0 \<or> b1 \<noteq> 2 \<and> b1 \<noteq> 3 then Some (Inl (spdp_unsupported_representation, rtps_none))
           else do {
             let order = (if b1 = 3 then little_endian else big_endian);
             r \<leftarrow> parameter_walk spdp_parameter spdp_malformed_parameter order (dv_payload data) 4
               \<lparr>ps_participant = default_participant\<lparr>pd_domain_id := expected_domain_id\<rparr>, ps_seen_protocol = False,
                ps_seen_vendor = False, ps_seen_guid = False, ps_seen_domain = False, ps_seen_inline = False,
                ps_seen_endpoints = False, ps_seen_lease = False, ps_seen_name = False\<rparr>;
             Some (map_sum (\<lambda>e. (e, rtps_none)) (\<lambda>v. (v, span_size message))
               (case r of Inl e \<Rightarrow> Inl e | Inr s \<Rightarrow> spdp_accept expected_domain_id data order s)) } } }"

subsection \<open>The table of discovered participants\<close>

definition UINT64_MAX :: u64 where "UINT64_MAX = 0xFFFFFFFFFFFFFFFF"

datatype participant_update = pu_none | pu_added | pu_refreshed

record discovered_participant =
  dp_data :: spdp_participant
  dp_sequence_number :: u64
  dp_last_seen_ns :: u64
  dp_expires_at_ns :: u64
  dp_occupied :: bool

definition blank_participant :: discovered_participant where
  "blank_participant =
     \<lparr>dp_data = default_participant, dp_sequence_number = 0, dp_last_seen_ns = 0, dp_expires_at_ns = 0,
      dp_occupied = False\<rparr>"

record participant_table =
  pt_local_guid_prefix :: guid_prefix
  pt_entries :: "discovered_participant list"
  pt_size :: nat
  pt_last_time_ns :: u64

definition participant_table_new :: "nat \<Rightarrow> guid_prefix \<Rightarrow> participant_table" where
  "participant_table_new capacity local_prefix =
     \<lparr>pt_local_guid_prefix = local_prefix, pt_entries = replicate capacity blank_participant, pt_size = 0,
      pt_last_time_ns = 0\<rparr>"

definition dp_key :: "discovered_participant \<Rightarrow> guid_prefix" where
  "dp_key e = pd_guid_prefix (dp_data e)"

type_synonym upsert_result = "spdp_error \<times> participant_update \<times> nat"

definition participant_upsert ::
  "spdp_view \<Rightarrow> u64 \<Rightarrow> participant_table \<Rightarrow> upsert_result \<times> participant_table" where
  "participant_upsert v now_ns t =
     (let p = sv_participant v; expires = now_ns + pd_lease_duration_ns p
      in if now_ns < pt_last_time_ns t then ((spdp_time_regression, pu_none, 0), t)
         else if pd_guid_prefix p = pt_local_guid_prefix t then ((spdp_self_announcement, pu_none, 0), t)
         else if pd_lease_duration_ns p = 0 then ((spdp_invalid_duration, pu_none, 0), t)
         else if pd_lease_duration_ns p > UINT64_MAX - now_ns then ((spdp_expiration_overflow, pu_none, 0), t)
         else case find_index (slot_live dp_occupied dp_key (pd_guid_prefix p)) (pt_entries t) of
           Some index \<Rightarrow>
             let e = pt_entries t ! index
             in if sv_sequence_number v < dp_sequence_number e then ((spdp_stale_announcement, pu_none, index), t)
                else
                  let e = (if sv_sequence_number v > dp_sequence_number e
                           then e\<lparr>dp_data := p, dp_sequence_number := sv_sequence_number v\<rparr> else e)
                  in ((spdp_none, pu_refreshed, index),
                      t\<lparr>pt_entries := (pt_entries t)[index := e\<lparr>dp_last_seen_ns := now_ns, dp_expires_at_ns := expires\<rparr>],
                        pt_last_time_ns := now_ns\<rparr>)
         | None \<Rightarrow>
             (case find_index (\<lambda>e. \<not> dp_occupied e) (pt_entries t) of
                Some index \<Rightarrow>
                  ((spdp_none, pu_added, index),
                   t\<lparr>pt_entries := (pt_entries t)[index := (pt_entries t ! index)
                        \<lparr>dp_data := p, dp_sequence_number := sv_sequence_number v, dp_last_seen_ns := now_ns,
                         dp_expires_at_ns := expires, dp_occupied := True\<rparr>],
                     pt_size := pt_size t + 1, pt_last_time_ns := now_ns\<rparr>)
              | None \<Rightarrow> ((spdp_table_full, pu_none, 0), t)))"

definition lease_due :: "u64 \<Rightarrow> discovered_participant \<Rightarrow> bool" where
  "lease_due now_ns e \<longleftrightarrow> now_ns \<ge> dp_expires_at_ns e"

definition expire_step ::
  "u64 \<Rightarrow> nat \<Rightarrow> (discovered_participant, guid_prefix) sweep \<Rightarrow> (discovered_participant, guid_prefix) sweep option" where
  "expire_step now_ns = slot_sweep dp_occupied (lease_due now_ns) dp_key blank_participant"

text \<open>The output array is absent when its pointer is null.\<close>

definition participant_expire ::
  "u64 \<Rightarrow> guid_prefix list option \<Rightarrow> nat \<Rightarrow> participant_table
   \<Rightarrow> (spdp_error \<times> guid_prefix list option \<times> nat \<times> participant_table) option" where
  "participant_expire now_ns expired expired_capacity t =
     (if now_ns < pt_last_time_ns t then Some (spdp_time_regression, expired, 0, t)
      else
        let due = length (filter (\<lambda>e. dp_occupied e \<and> lease_due now_ns e) (pt_entries t))
        in if due \<noteq> 0 \<and> expired = None then Some (spdp_invalid_argument, expired, 0, t)
           else if due > expired_capacity then Some (spdp_action_capacity_exceeded, expired, 0, t)
           else do {
             (entries, out, expired_size, size) \<leftarrow>
               for_loop 0 (length (pt_entries t)) (expire_step now_ns)
                 (pt_entries t, case expired of None \<Rightarrow> [] | Some out \<Rightarrow> out, 0, pt_size t);
             Some (spdp_none, map_option (\<lambda>_. out) expired, expired_size,
               t\<lparr>pt_entries := entries, pt_size := size, pt_last_time_ns := now_ns\<rparr>) })"

definition participant_find :: "guid_prefix \<Rightarrow> participant_table \<Rightarrow> discovered_participant option" where
  "participant_find prefix t =
     map_option (nth (pt_entries t)) (find_index (slot_live dp_occupied dp_key prefix) (pt_entries t))"

definition locator_parameters :: "byte_order \<Rightarrow> u16 \<Rightarrow> locator_list \<Rightarrow> parameter list" where
  "locator_parameters order pid ls = map (\<lambda>l. (pid, locator_bytes order l)) (locators ls)"

definition spdp_parameter_list :: "byte_order \<Rightarrow> spdp_participant \<Rightarrow> parameter list" where
  "spdp_parameter_list order p =
     [(pid_protocol_version, [pv_major (pd_protocol_version p), pv_minor (pd_protocol_version p)])] @
     [(pid_vendor_id, pd_vendor_id p)] @
     [(pid_domain_id, word_bytes order 4 (pd_domain_id p))] @
     [(pid_participant_guid, pd_guid_prefix p @ entity_id_participant)] @
     [(pid_expects_inline_qos, [if pd_expects_inline_qos p then 1 else 0])] @
     [(pid_builtin_endpoint_set, word_bytes order 4 (pd_available_builtin_endpoints p))] @
     [(pid_participant_lease_duration, duration_bytes order (pd_lease_duration_ns p))] @
     locator_parameters order pid_metatraffic_unicast_locator (pd_metatraffic_unicast p) @
     locator_parameters order pid_metatraffic_multicast_locator (pd_metatraffic_multicast p) @
     locator_parameters order pid_default_unicast_locator (pd_default_unicast p) @
     locator_parameters order pid_default_multicast_locator (pd_default_multicast p) @
     (if pd_entity_name_size p \<noteq> 0
      then [(pid_entity_name, string_bytes order (take (pd_entity_name_size p) (pd_entity_name p)))] else [])"

definition locators_shape :: "locator_list \<Rightarrow> bool" where
  "locators_shape ls \<longleftrightarrow> length (ll_values ls) = spdp_max_locators \<and> list_all wf_locator (ll_values ls)"

definition wf_participant :: "spdp_participant \<Rightarrow> bool" where
  "wf_participant p \<longleftrightarrow> wf_vendor_id (pd_vendor_id p) \<and> wf_guid_prefix (pd_guid_prefix p) \<and>
     locators_shape (pd_metatraffic_unicast p) \<and> locators_shape (pd_metatraffic_multicast p) \<and>
     locators_shape (pd_default_unicast p) \<and> locators_shape (pd_default_multicast p) \<and>
     length (pd_entity_name p) = spdp_max_entity_name + 1"

definition announced_locators :: "spdp_participant \<Rightarrow> locator_list list" where
  "announced_locators p =
     [pd_metatraffic_unicast p, pd_metatraffic_multicast p, pd_default_unicast p, pd_default_multicast p]"

definition participant_ok :: "spdp_participant \<Rightarrow> bool" where
  "participant_ok p \<longleftrightarrow>
     pv_major (pd_protocol_version p) = 2 \<and> 1 \<le> unat (pv_minor (pd_protocol_version p)) \<and>
     unat (pv_minor (pd_protocol_version p)) \<le> 5 \<and>
     (\<exists>b \<in> set (pd_guid_prefix p). b \<noteq> 0) \<and> pd_entity_name_size p \<le> 63 \<and>
     2 \<le> unat (pd_lease_duration_ns p) \<and> unat (pd_lease_duration_ns p) < 2 ^ 31 * 10 ^ 9 \<and>
     bit (pd_available_builtin_endpoints p) 0 \<and> bit (pd_available_builtin_endpoints p) 1 \<and>
     locators (pd_default_unicast p) \<noteq> [] \<and>
     locators (pd_metatraffic_unicast p) @ locators (pd_metatraffic_multicast p) \<noteq> [] \<and>
     list_all valid_locators (announced_locators p)"

definition announcement_ok :: "spdp_config \<Rightarrow> bool" where
  "announcement_ok c \<longleftrightarrow> participant_ok (sc_participant c) \<and>
     supported_byte_order (sc_submessage_byte_order c) \<and> supported_byte_order (sc_parameter_byte_order c) \<and>
     1 \<le> unat (sc_sequence_number c) \<and> unat (sc_sequence_number c) < 2 ^ 63"

definition announcement_payload :: "spdp_config \<Rightarrow> byte list" where
  "announcement_payload c =
     payload_bytes (sc_parameter_byte_order c) (spdp_parameter_list (sc_parameter_byte_order c) (sc_participant c))"

definition spdp_parse_start :: "u32 \<Rightarrow> spdp_parse" where
  "spdp_parse_start expected_domain_id =
     \<lparr>ps_participant = default_participant\<lparr>pd_domain_id := expected_domain_id\<rparr>, ps_seen_protocol = False,
      ps_seen_vendor = False, ps_seen_guid = False, ps_seen_domain = False, ps_seen_inline = False,
      ps_seen_endpoints = False, ps_seen_lease = False, ps_seen_name = False\<rparr>"

definition push_locator :: "locator \<Rightarrow> locator_list \<Rightarrow> locator_list" where
  "push_locator l ls = \<lparr>ll_values = (ll_values ls)[ll_size ls := l], ll_size = ll_size ls + 1\<rparr>"

definition fresh_locators :: "locator list \<Rightarrow> locator_list" where
  "fresh_locators xs = fold push_locator xs empty_locators"

definition announced :: "spdp_participant \<Rightarrow> spdp_participant" where
  "announced p = p\<lparr>pd_metatraffic_unicast := fresh_locators (locators (pd_metatraffic_unicast p)),
     pd_metatraffic_multicast := fresh_locators (locators (pd_metatraffic_multicast p)),
     pd_default_unicast := fresh_locators (locators (pd_default_unicast p)),
     pd_default_multicast := fresh_locators (locators (pd_default_multicast p)),
     pd_lease_duration_ns := duration_value (ucast (duration_seconds (pd_lease_duration_ns p)))
       (duration_fraction (pd_lease_duration_ns p)),
     pd_entity_name := take (pd_entity_name_size p) (pd_entity_name p) @ replicate (64 - pd_entity_name_size p) 0\<rparr>"

definition participant_agrees :: "spdp_participant \<Rightarrow> spdp_participant \<Rightarrow> bool" where
  "participant_agrees p q \<longleftrightarrow>
     pd_protocol_version q = pd_protocol_version p \<and> pd_vendor_id q = pd_vendor_id p \<and>
     pd_guid_prefix q = pd_guid_prefix p \<and> pd_domain_id q = pd_domain_id p \<and>
     pd_expects_inline_qos q = pd_expects_inline_qos p \<and>
     pd_available_builtin_endpoints q = pd_available_builtin_endpoints p \<and>
     map locators (announced_locators q) = map locators (announced_locators p) \<and>
     take (pd_entity_name_size q) (pd_entity_name q) = take (pd_entity_name_size p) (pd_entity_name p) \<and>
     (unat (pd_lease_duration_ns q) = unat (pd_lease_duration_ns p) \<or>
      unat (pd_lease_duration_ns q) + 1 = unat (pd_lease_duration_ns p))"

definition demo_locator :: locator where
  "demo_locator = snd (make_udp_v4_locator [127, 0, 0, 1] 7410 default_locator)"

definition demo_participant :: spdp_participant where
  "demo_participant = default_participant\<lparr>pd_guid_prefix := [1, 2, 3, 4, 5, 6, 7, 8, 9, 10, 11, 12], pd_domain_id := 7,
     pd_default_unicast := push_locator demo_locator empty_locators,
     pd_metatraffic_unicast := push_locator demo_locator empty_locators, pd_lease_duration_ns := 1500000001\<rparr>"

definition demo_announcement :: spdp_config where
  "demo_announcement = \<lparr>sc_participant = demo_participant, sc_sequence_number = 3,
     sc_submessage_byte_order = little_endian, sc_parameter_byte_order = big_endian\<rparr>"

text \<open>An array of characters that holds a name of \<open>n\<close> bytes and nothing but zero bytes after it: the name is
  terminated inside the array.\<close>

definition zero_filled :: "byte list \<Rightarrow> nat \<Rightarrow> bool" where
  "zero_filled name n \<longleftrightarrow> n < length name \<and> list_all (\<lambda>b. b = 0) (drop n name)"

definition parse_inv :: "spdp_parse \<Rightarrow> bool" where
  "parse_inv st \<longleftrightarrow>
     (let p = ps_participant st
      in length (pd_vendor_id p) = 2 \<and> length (pd_guid_prefix p) = 12 \<and>
         list_all valid_locator_list (announced_locators p) \<and> pd_lease_duration_ns p \<noteq> 0 \<and>
         length (pd_entity_name p) = 64 \<and> zero_filled (pd_entity_name p) (pd_entity_name_size p) \<and>
         (\<not> ps_seen_name st \<longrightarrow> pd_entity_name_size p = 0))"

definition spdp_known :: "u16 set" where
  "spdp_known = {pid_metatraffic_unicast_locator, pid_metatraffic_multicast_locator, pid_default_unicast_locator,
     pid_default_multicast_locator, pid_protocol_version, pid_vendor_id, pid_domain_id, pid_participant_guid,
     pid_expects_inline_qos, pid_builtin_endpoint_set, pid_participant_lease_duration, pid_entity_name}"

definition accepted_view :: "u32 \<Rightarrow> data_message_view \<Rightarrow> spdp_view \<Rightarrow> bool" where
  "accepted_view domain data v \<longleftrightarrow>
     (let p = sv_participant v
      in pv_major (pd_protocol_version p) = 2 \<and> 1 \<le> unat (pv_minor (pd_protocol_version p)) \<and>
         unat (pv_minor (pd_protocol_version p)) \<le> 5 \<and>
         (\<exists>b \<in> set (pd_guid_prefix p). b \<noteq> 0) \<and> length (pd_guid_prefix p) = 12 \<and>
         pd_guid_prefix p = dv_guid_prefix data \<and> pd_protocol_version p = dv_version data \<and>
         pd_vendor_id p = dv_vendor_id data \<and> pd_domain_id p = domain \<and>
         list_all valid_locator_list (announced_locators p) \<and> locators (pd_default_unicast p) \<noteq> [] \<and>
         locators (pd_metatraffic_unicast p) @ locators (pd_metatraffic_multicast p) \<noteq> [] \<and>
         pd_lease_duration_ns p \<noteq> 0 \<and> pd_entity_name_size p < length (pd_entity_name p) \<and>
         zero_filled (pd_entity_name p) (pd_entity_name_size p) \<and>
         sv_sequence_number v = dv_sequence_number data)"

definition participants :: "participant_table \<Rightarrow> guid_prefix \<rightharpoonup> discovered_participant" where
  "participants t = slot_map dp_occupied dp_key (pt_entries t)"

definition participant_count :: "participant_table \<Rightarrow> nat" where
  "participant_count t = length (filter dp_occupied (pt_entries t))"

definition participant_inv :: "participant_table \<Rightarrow> bool" where
  "participant_inv t \<longleftrightarrow> slot_distinct dp_occupied dp_key (pt_entries t) \<and> pt_size t = participant_count t \<and>
     list_all (\<lambda>e. dp_occupied e \<longrightarrow> dp_key e \<noteq> pt_local_guid_prefix t \<and>
       dp_last_seen_ns e \<le> pt_last_time_ns t \<and> dp_last_seen_ns e < dp_expires_at_ns e) (pt_entries t)"

definition upserted_entry :: "spdp_view \<Rightarrow> u64 \<Rightarrow> discovered_participant option \<Rightarrow> discovered_participant" where
  "upserted_entry v now_ns old =
     (let expires = now_ns + pd_lease_duration_ns (sv_participant v);
          fresh = \<lparr>dp_data = sv_participant v, dp_sequence_number = sv_sequence_number v, dp_last_seen_ns = now_ns,
            dp_expires_at_ns = expires, dp_occupied = True\<rparr>
      in case old of
           None \<Rightarrow> fresh
         | Some e \<Rightarrow> if sv_sequence_number v > dp_sequence_number e then fresh
                    else e\<lparr>dp_last_seen_ns := now_ns, dp_expires_at_ns := expires\<rparr>)"

definition upsert_allowed :: "spdp_view \<Rightarrow> u64 \<Rightarrow> participant_table \<Rightarrow> bool" where
  "upsert_allowed v now_ns t \<longleftrightarrow>
     (let p = sv_participant v
      in pt_last_time_ns t \<le> now_ns \<and> pd_guid_prefix p \<noteq> pt_local_guid_prefix t \<and>
         1 \<le> unat (pd_lease_duration_ns p) \<and> unat now_ns + unat (pd_lease_duration_ns p) < 2 ^ 64 \<and>
         (case participants t (pd_guid_prefix p) of
            Some e \<Rightarrow> dp_sequence_number e \<le> sv_sequence_number v
          | None \<Rightarrow> participant_count t < length (pt_entries t)))"

definition due_keys :: "u64 \<Rightarrow> discovered_participant list \<Rightarrow> guid_prefix list" where
  "due_keys now_ns es = map dp_key (slot_due dp_occupied (lease_due now_ns) es)"

datatype participant_op = Upsert spdp_view u64 | Expire u64 "guid_prefix list option" nat

fun participant_run :: "participant_op \<Rightarrow> participant_table \<Rightarrow> participant_table option" where
  "participant_run (Upsert v now_ns) t = Some (snd (participant_upsert v now_ns t))"
| "participant_run (Expire now_ns expired capacity) t =
     map_option (snd \<circ> snd \<circ> snd) (participant_expire now_ns expired capacity t)"

fun op_ok :: "participant_op \<Rightarrow> bool" where
  "op_ok (Upsert v now_ns) = True"
| "op_ok (Expire now_ns expired capacity) = (case expired of None \<Rightarrow> True | Some out \<Rightarrow> capacity \<le> length out)"

inductive participant_reachable :: "nat \<Rightarrow> guid_prefix \<Rightarrow> participant_table \<Rightarrow> bool" for capacity prefix where
  new: "participant_reachable capacity prefix (participant_table_new capacity prefix)"
| run: "participant_reachable capacity prefix t \<Longrightarrow> op_ok operation \<Longrightarrow> participant_run operation t = Some t' \<Longrightarrow>
    participant_reachable capacity prefix t'"

fun participant_runs :: "participant_op list \<Rightarrow> participant_table \<Rightarrow> participant_table option" where
  "participant_runs [] t = Some t"
| "participant_runs (operation # rest) t = Option.bind (participant_run operation t) (participant_runs rest)"

fun op_time :: "participant_op \<Rightarrow> u64" where
  "op_time (Upsert v now_ns) = now_ns"
| "op_time (Expire now_ns expired capacity) = now_ns"

fun announces :: "guid_prefix \<Rightarrow> participant_op \<Rightarrow> bool" where
  "announces k (Upsert v now_ns) = (pd_guid_prefix (sv_participant v) = k)"
| "announces k (Expire now_ns expired capacity) = False"

definition live_at :: "u64 \<Rightarrow> discovered_participant option \<Rightarrow> discovered_participant option" where
  "live_at now_ns old = (case old of None \<Rightarrow> None | Some e \<Rightarrow> if dp_expires_at_ns e \<le> now_ns then None else Some e)"

definition demo_view :: spdp_view where
  "demo_view = \<lparr>sv_participant = demo_participant, sv_sequence_number = 3, sv_submessage_byte_order = little_endian,
     sv_parameter_byte_order = big_endian\<rparr>"

definition demo_table :: participant_table where
  "demo_table = snd (participant_upsert demo_view 100 (participant_table_new 2 [9, 9, 9, 9, 9, 9, 9, 9, 9, 9, 9, 9]))"

section \<open>Ports\<close>

lemma unat_lt32: "unat (x :: u32) < 2 ^ 32"
  using unsigned_less [of x, where 'a = nat] by simp

lemma unat_wide_mult: "unat (ucast (x :: u32) * ucast (y :: u32) :: u64) = unat x * unat y"
proof -
  have "unat x * unat y \<le> (2 ^ 32 - 1) * (2 ^ 32 - 1)"
    using unat_lt32 [of x] unat_lt32 [of y] by (intro mult_le_mono) auto
  then show ?thesis by (simp add: unat_word_ariths unat_ucast_up)
qed

lemma unat_wide_add: "unat (ucast (x :: u32) + ucast (y :: u32) :: u64) = unat x + unat y"
  using unat_lt32 [of x] unat_lt32 [of y] by (simp add: unat_word_ariths unat_ucast_up)

lemma div_le_iff: "0 < g \<Longrightarrow> (d :: nat) \<le> r div g \<longleftrightarrow> g * d \<le> r"
  by (simp add: less_eq_div_iff_mult_less_eq mult.commute)

text \<open>The guard by division keeps \<open>gain * n\<close> inside the remaining range of ports.\<close>

lemma gain_guard:
  fixes part :: u64 and gain n :: u32
  assumes "part \<le> 65535"
  shows "gain \<noteq> 0 \<and> ucast n > (65535 - part) div ucast gain \<longleftrightarrow> unat part + unat gain * unat n > 65535"
    and "unat part + unat gain * unat n \<le> 65535 \<Longrightarrow>
      unat (part + ucast gain * ucast n) = unat part + unat gain * unat n"
proof -
  have part: "unat part \<le> 65535" using assms by (simp add: word_le_nat_alt)
  have sub: "unat (65535 - part) = 65535 - unat part" using assms by (simp add: unat_sub)
  show "gain \<noteq> 0 \<and> ucast n > (65535 - part) div ucast gain \<longleftrightarrow> unat part + unat gain * unat n > 65535"
  proof (cases "gain = 0")
    case False
    then have "0 < unat gain" by (simp add: unat_gt_0)
    from div_le_iff [OF this, of "unat n" "65535 - unat part"] False part show ?thesis
      by (simp add: word_less_nat_alt unat_div sub unat_ucast_up) linarith
  qed (use part in simp)
  show "unat (part + ucast gain * ucast n) = unat part + unat gain * unat n"
    if "unat part + unat gain * unat n \<le> 65535"
    using that by (simp add: unat_word_ariths(1) unat_wide_mult)
qed

lemma port_result:
  fixes v :: u64
  assumes "unat v = n" "n \<le> 65535"
  shows "(if v = 0 then None else Some (ucast v :: u16)) = (if 1 \<le> n then Some (of_nat n) else None)"
proof -
  have "v = of_nat n" unfolding assms(1) [symmetric] by simp
  then have "ucast v = (of_nat n :: u16)" using assms(2) by (simp add: unsigned_of_nat take_bit_nat_eq_self)
  with assms(1) show ?thesis by (auto simp: unat_eq_0 Suc_le_eq unat_gt_0)
qed

lemma fixed_guard: "ucast (x :: u32) + ucast (y :: u32) > (65535 :: u64) \<longleftrightarrow> unat x + unat y > 65535"
  by (simp add: word_less_nat_alt unat_wide_add)

text \<open>The multicast port of a domain is the base port plus the offset plus the domain gain times
  the domain, computed without wrap-around, and there is one exactly when that number is a port.\<close>

lemma multicast_port_exact:
  "spdp_multicast_port domain_id config =
     (let n = unat (pc_port_base config) + unat (pc_multicast_offset config) + unat (pc_domain_gain config) * unat domain_id
      in if 1 \<le> n \<and> n \<le> 65535 then Some (of_nat n) else None)"
proof (cases "unat (pc_port_base config) + unat (pc_multicast_offset config) > 65535")
  case False
  let ?f = "(ucast (pc_port_base config) :: u64) + ucast (pc_multicast_offset config)"
  have f: "?f \<le> 65535" using False by (simp add: word_le_nat_alt unat_wide_add)
  show ?thesis
    using False port_result [OF gain_guard(2) [OF f, of "pc_domain_gain config" domain_id]]
    unfolding spdp_multicast_port_def Let_def gain_guard(1) [OF f] fixed_guard
    by (simp add: unat_wide_add)
qed (simp add: spdp_multicast_port_def fixed_guard)

text \<open>C30: The unicast port of a participant is the base port plus the offset plus the domain gain
  times the domain plus the participant gain times the participant, as a natural number, and there is
  one exactly when that number is a port: no sum or product wraps for any 32-bit configuration.\<close>

theorem unicast_port_exact:
  "spdp_unicast_port domain_id participant_id config =
     (let n = unat (pc_port_base config) + unat (pc_unicast_offset config) + unat (pc_domain_gain config) * unat domain_id
            + unat (pc_participant_gain config) * unat participant_id
      in if 1 \<le> n \<and> n \<le> 65535 then Some (of_nat n) else None)"
proof (cases "unat (pc_port_base config) + unat (pc_unicast_offset config) > 65535")
  case False
  let ?f = "(ucast (pc_port_base config) :: u64) + ucast (pc_unicast_offset config)"
  let ?t = "(ucast (pc_domain_gain config) :: u64) * ucast domain_id"
  have f: "?f \<le> 65535" using False by (simp add: word_le_nat_alt unat_wide_add)
  have guard: "?t > 65535 - ?f \<longleftrightarrow> unat ?f + unat ?t > 65535"
    using f False by (simp add: word_less_nat_alt unat_sub unat_wide_add) linarith
  show ?thesis
  proof (cases "unat ?f + unat ?t > 65535")
    case big: True
    with f guard show ?thesis by (simp add: spdp_unicast_port_def Let_def fixed_guard unat_wide_add unat_wide_mult)
  next
    case small: False
    then have p: "unat (?f + ?t) = unat ?f + unat ?t" by (simp add: unat_word_ariths(1))
    then have le: "?f + ?t \<le> 65535" using small by (simp add: word_le_nat_alt)
    show ?thesis
      using False small guard port_result [OF gain_guard(2) [OF le, of "pc_participant_gain config" participant_id]]
      unfolding spdp_unicast_port_def Let_def gain_guard(1) [OF le] fixed_guard
      by (simp add: p unat_wide_add unat_wide_mult)
  qed
qed (simp add: spdp_unicast_port_def fixed_guard)

section \<open>Building announcements\<close>

lemma writes_parameters:
  assumes "wf_participant p" "list_all valid_locators (announced_locators p)" "pd_entity_name_size p \<le> spdp_max_entity_name"
  shows "writes order (spdp_parameters p order) (spdp_parameter_list order p @ [(pid_sentinel, [])])"
proof -
  have ls: "wf_locators ls \<and> list_all wf_locator (locators ls)" if "ls \<in> set (announced_locators p)" for ls
    using assms(1,2) that
    by (auto simp: wf_participant_def announced_locators_def locators_shape_def valid_locators_def wf_locators_def
        locators_def list_all_iff dest: in_set_takeD)
  note locs = writes_locators [OF conjunct2 [OF ls] conjunct1 [OF ls], unfolded locator_parameters_def [symmetric]]
  have lens: "length (pd_vendor_id p) = 2" "length (pd_guid_prefix p) = 12" "length (pd_entity_name p) = 64"
    using assms(1) by (simp_all add: wf_participant_def wf_vendor_id_def wf_guid_prefix_def spdp_max_entity_name_def)
  then have blocks: "rd_block (pd_vendor_id p) 0 2 = Some (pd_vendor_id p)"
    "rd_block (pd_guid_prefix p) 0 12 = Some (pd_guid_prefix p)" by (simp_all add: rd_block_def)
  show ?thesis
    unfolding spdp_parameters_def spdp_parameter_list_def append_assoc
    by (intro writes_and_also writes_if writes_finish locs writes_string writes_value)
      (use assms(3) in \<open>simp_all add: mem_simps u32_codec.put_block padded_size_def lens blocks write_duration_block duration_bytes_def
        entity_id_participant_def announced_locators_def spdp_max_entity_name_def\<close>)
qed

lemma length_locator_parameters:
  assumes "locators_shape ls" "valid_locators ls"
  shows "length (parameters_bytes order (locator_parameters order pid ls)) \<le> 112"
proof -
  have "length (parameters_bytes order (map (\<lambda>l. (pid, locator_bytes order l)) xs)) = 28 * length xs"
    if "list_all wf_locator xs" for xs
    using that by (induction xs) (simp_all add: locator_bytes_def wf_locator_def padded_size_def)
  moreover have "list_all wf_locator (locators ls)" "length (locators ls) \<le> 4"
    using assms by (auto simp: locators_def locators_shape_def valid_locators_def spdp_max_locators_def list_all_iff dest: in_set_takeD)
  ultimately show ?thesis by (simp add: locator_parameters_def)
qed

lemma announcement_fits:
  assumes "wf_participant p" "list_all valid_locators (announced_locators p)" "pd_entity_name_size p \<le> spdp_max_entity_name"
  shows "length (payload_bytes order (spdp_parameter_list order p)) \<le> spdp_payload_capacity"
    "8 \<le> length (payload_bytes order (spdp_parameter_list order p))"
proof -
  have lens: "length (pd_vendor_id p) = 2" "length (pd_guid_prefix p) = 12" "length (pd_entity_name p) = 64"
    using assms(1) by (simp_all add: wf_participant_def wf_vendor_id_def wf_guid_prefix_def spdp_max_entity_name_def)
  have ls: "locators_shape ls" "valid_locators ls" if "ls \<in> set (announced_locators p)" for ls
    using assms(1,2) that by (auto simp: wf_participant_def announced_locators_def)
  note locs = length_locator_parameters [OF ls]
  have name: "length (parameters_bytes order (if pd_entity_name_size p \<noteq> 0
      then [(pid_entity_name, string_bytes order (take (pd_entity_name_size p) (pd_entity_name p)))] else [])) \<le> 76"
    using assms(3) lens padded_size_props(3) [of "5 + pd_entity_name_size p"]
    by (simp add: string_bytes_def spdp_max_entity_name_def)
  have nums: "padded_size 2 = 4" "padded_size (Suc 0) = 4" "padded_size 4 = 4" "padded_size 16 = 16" "padded_size 8 = 8" "padded_size 0 = 0"
    "padded_size (Suc (Suc 0)) = 4"
    by (simp_all add: padded_size_def)
  show "length (payload_bytes order (spdp_parameter_list order p)) \<le> spdp_payload_capacity"
    using locs [of "pd_metatraffic_unicast p" order pid_metatraffic_unicast_locator]
      locs [of "pd_metatraffic_multicast p" order pid_metatraffic_multicast_locator]
      locs [of "pd_default_unicast p" order pid_default_unicast_locator]
      locs [of "pd_default_multicast p" order pid_default_multicast_locator] name
    unfolding payload_bytes_def spdp_parameter_list_def parameters_bytes_simps length_append
    by (simp add: lens nums duration_bytes_def entity_id_participant_def announced_locators_def spdp_payload_capacity_def)
  show "8 \<le> length (payload_bytes order (spdp_parameter_list order p))"
    by (simp add: payload_bytes_def)
qed

lemma builtin_bits:
  "x AND (spdp_endpoint_participant_announcer OR spdp_endpoint_participant_detector) =
     spdp_endpoint_participant_announcer OR spdp_endpoint_participant_detector \<longleftrightarrow> bit x 0 \<and> bit x 1"
proof -
  have three: "spdp_endpoint_participant_announcer OR spdp_endpoint_participant_detector = mask 2"
    by (simp add: spdp_endpoint_participant_announcer_def spdp_endpoint_participant_detector_def mask_numeral)
  have "bit x n" if "x AND mask 2 = mask 2" "n < 2" for n
    using arg_cong [OF that(1), of "\<lambda>w. bit w n"] that(2) by (simp add: bit_simps)
  moreover have "x AND mask 2 = mask 2" if "\<forall>n < 2. bit x n"
    using that by (intro bit_word_eqI) (auto simp: bit_simps)
  ultimately have "x AND mask 2 = mask 2 \<longleftrightarrow> (\<forall>n < 2. bit x n)" by blast
  then show ?thesis unfolding three by (simp add: numeral_2_eq_2 All_less_Suc conj_commute)
qed

lemma lease_seconds: "duration_seconds d > 0x7FFFFFFF \<longleftrightarrow> \<not> unat d < 2 ^ 31 * 10 ^ 9"
proof -
  have "duration_seconds d > 0x7FFFFFFF \<longleftrightarrow> \<not> unat d div 1000000000 < 2147483648"
    unfolding duration_seconds_def nanoseconds_per_second_def word_less_nat_alt unat_div by simp linarith
  then show ?thesis by (simp add: div_less_iff_less_mult)
qed

lemma valid_lists_sizes:
  assumes "locators_shape ls" "valid_locators ls"
  shows "locators ls = [] \<longleftrightarrow> ll_size ls = 0" "ll_size ls \<le> 4"
  using assms by (auto simp: locators_def locators_shape_def valid_locators_def spdp_max_locators_def)

lemma version_ok:
  "\<not> unsupported_version v \<longleftrightarrow> pv_major v = 2 \<and> 1 \<le> unat (pv_minor v) \<and> unat (pv_minor v) \<le> 5"
  by (auto simp: unsupported_version_def word_less_nat_alt Suc_le_eq unat_gt_0)

text \<open>The checks of \<open>build\<close>, read as the specification of a valid participant.\<close>

lemma participant_guards:
  assumes "wf_participant p"
  shows "participant_ok p \<longleftrightarrow>
     \<not> (unsupported_version (pd_protocol_version p) \<or> \<not> nonzero_guid (pd_guid_prefix p) \<or>
        pd_entity_name_size p > spdp_max_entity_name \<or> pd_lease_duration_ns p < 2 \<or>
        pd_available_builtin_endpoints p AND (spdp_endpoint_participant_announcer OR spdp_endpoint_participant_detector)
          \<noteq> spdp_endpoint_participant_announcer OR spdp_endpoint_participant_detector \<or> ll_size (pd_default_unicast p) = 0 \<or>
        size_add (ll_size (pd_metatraffic_unicast p)) (ll_size (pd_metatraffic_multicast p)) = 0) \<and>
     list_all valid_locators (announced_locators p) \<and> \<not> duration_seconds (pd_lease_duration_ns p) > 0x7FFFFFFF"
proof (cases "list_all valid_locators (announced_locators p)")
  case True
  have sizes: "locators ls = [] \<longleftrightarrow> ll_size ls = 0" "ll_size ls \<le> 4" if "ls \<in> set (announced_locators p)" for ls
    using valid_lists_sizes [of ls] True assms that
    by (auto simp: wf_participant_def announced_locators_def)
  have "size_add (ll_size (pd_metatraffic_unicast p)) (ll_size (pd_metatraffic_multicast p)) =
      ll_size (pd_metatraffic_unicast p) + ll_size (pd_metatraffic_multicast p)"
    using sizes(2) [of "pd_metatraffic_unicast p"] sizes(2) [of "pd_metatraffic_multicast p"]
    by (simp add: size_add_def SIZE_MAX_def announced_locators_def)
  then have meta: "size_add (ll_size (pd_metatraffic_unicast p)) (ll_size (pd_metatraffic_multicast p)) \<noteq> 0 \<longleftrightarrow>
      locators (pd_metatraffic_unicast p) @ locators (pd_metatraffic_multicast p) \<noteq> []"
    using sizes(1) by (simp add: announced_locators_def)
  have unicast: "ll_size (pd_default_unicast p) \<noteq> 0 \<longleftrightarrow> locators (pd_default_unicast p) \<noteq> []"
    using sizes(1) by (simp add: announced_locators_def)
  have guid: "nonzero_guid (pd_guid_prefix p) \<longleftrightarrow> (\<exists>b \<in> set (pd_guid_prefix p). b \<noteq> 0)"
    by (simp add: nonzero_guid_def list_ex_iff)
  have small: "\<not> spdp_max_entity_name < pd_entity_name_size p \<longleftrightarrow> pd_entity_name_size p \<le> 63"
    "\<not> pd_lease_duration_ns p < 2 \<longleftrightarrow> 2 \<le> unat (pd_lease_duration_ns p)"
    by (simp_all add: spdp_max_entity_name_def word_less_nat_alt not_less)
  show ?thesis
    unfolding participant_ok_def de_Morgan_disj not_not version_ok lease_seconds builtin_bits guid small meta unicast
    by blast
qed (simp add: participant_ok_def)

lemma announcement_payload_written:
  assumes "wf_participant (sc_participant c)" "participant_ok (sc_participant c)"
  shows "\<exists>w. Option.bind (parameter_writer_new (replicate spdp_payload_capacity 0) (sc_parameter_byte_order c))
      (spdp_parameters (sc_participant c) (sc_parameter_byte_order c)) = Some (True, w) \<and>
    rd_block (pw_buffer w) 0 (pw_size w) = Some (announcement_payload c)"
proof -
  have ok: "list_all valid_locators (announced_locators (sc_participant c))"
    "pd_entity_name_size (sc_participant c) \<le> spdp_max_entity_name"
    using assms(2) by (simp_all add: participant_ok_def spdp_max_entity_name_def)
  from writes_payload [OF writes_parameters [OF assms(1) ok] announcement_fits(1) [OF assms(1) ok]]
  show ?thesis by (simp add: rd_block_def announcement_payload_def)
qed

lemma spdp_data_config_ok:
  assumes "wf_participant (sc_participant c)" "participant_ok (sc_participant c)"
    "supported_byte_order (sc_submessage_byte_order c)"
  shows "wf_data_config (spdp_data_config c)"
    "data_config_ok (spdp_data_config c) (announcement_payload c) \<longleftrightarrow>
       1 \<le> unat (sc_sequence_number c) \<and> unat (sc_sequence_number c) < 2 ^ 63"
proof -
  show "wf_data_config (spdp_data_config c)"
    using assms(1) by (simp add: wf_data_config_def spdp_data_config_def wf_participant_def wf_entity_id_def
        entity_id_unknown_def entity_id_spdp_writer_def)
  have ok: "list_all valid_locators (announced_locators (sc_participant c))"
    "pd_entity_name_size (sc_participant c) \<le> spdp_max_entity_name"
    using assms(2) by (simp_all add: participant_ok_def spdp_max_entity_name_def)
  note fits = announcement_fits [OF assms(1) ok, of "sc_parameter_byte_order c", folded announcement_payload_def]
  have "announcement_payload c ! 0 = 0" "announcement_payload c ! 1 \<le> 3"
    by (simp_all add: announcement_payload_def payload_bytes_def)
  moreover have "\<not> unsupported_version (pd_protocol_version (sc_participant c))"
    using assms(2) by (simp add: participant_ok_def version_ok)
  moreover have "s \<noteq> 0 \<and> s \<le> INT64_MAX \<longleftrightarrow> 1 \<le> unat s \<and> unat s < 2 ^ 63" for s
    by (auto simp: INT64_MAX_def word_le_nat_alt Suc_le_eq unat_gt_0)
  ultimately show "data_config_ok (spdp_data_config c) (announcement_payload c) \<longleftrightarrow>
       1 \<le> unat (sc_sequence_number c) \<and> unat (sc_sequence_number c) < 2 ^ 63"
    using fits assms(3)
    by (simp add: data_config_ok_def spdp_data_config_def data_message_overhead_44 maximum_udp_payload_size_def
        spdp_payload_capacity_def)
qed

lemma spdp_build_valid:
  assumes "wf_participant (sc_participant c)" "participant_ok (sc_participant c)"
    "supported_byte_order (sc_submessage_byte_order c)" "supported_byte_order (sc_parameter_byte_order c)"
    "\<not> (null_span (sb_buffer d) \<and> span_size (sb_buffer d) \<noteq> 0)"
    "data_build (spdp_data_config c) (Span (announcement_payload c)) (data_builder_new (sb_buffer d)) = Some (ok, b)"
  shows "spdp_build c d = Some (ok, \<lparr>sb_buffer = db_buffer b, sb_size = (if ok then db_size b else 0),
     sb_error = (if ok then spdp_none else spdp_rtps_error), sb_rtps_error = (if ok then rtps_none else db_error b)\<rparr>)"
proof -
  from announcement_payload_written [OF assms(1,2)] obtain w0 w where
    w: "parameter_writer_new (replicate spdp_payload_capacity 0) (sc_parameter_byte_order c) = Some w0"
    "spdp_parameters (sc_participant c) (sc_parameter_byte_order c) w0 = Some (True, w)"
    "rd_block (pw_buffer w) 0 (pw_size w) = Some (announcement_payload c)" by (auto simp: bind_eq_Some_conv)
  note guards = assms(2) [unfolded participant_guards [OF assms(1)] announced_locators_def list.pred_inject]
  show ?thesis
    using guards assms(3-5)
    by (simp add: spdp_build_def Let_def w assms(6) spdp_fail_def) auto
qed

lemma spdp_build_invalid:
  assumes "wf_participant (sc_participant c)" "\<not> (participant_ok (sc_participant c) \<and>
    supported_byte_order (sc_submessage_byte_order c) \<and> supported_byte_order (sc_parameter_byte_order c) \<and>
    \<not> (null_span (sb_buffer d) \<and> span_size (sb_buffer d) \<noteq> 0))"
  shows "\<exists>e \<in> {spdp_invalid_argument, spdp_invalid_configuration, spdp_invalid_locator, spdp_invalid_duration}.
    spdp_build c d = spdp_fail e (d\<lparr>sb_size := 0, sb_error := spdp_none, sb_rtps_error := rtps_none\<rparr>)"
  unfolding spdp_build_def Let_def
  by (rule guard_chain)
    (use assms(2) in \<open>unfold participant_guards [OF assms(1)] announced_locators_def list.pred_inject, simp, blast\<close>)

text \<open>C24: For a participant of the declared array sizes, building an announcement stays inside the
  caller's buffer and its own payload buffer, which is large enough for every valid participant. It
  succeeds exactly when the participant, the byte orders and the sequence number are valid and the
  buffer holds the message; otherwise it returns false, reports no bytes and gives the reason.\<close>

theorem spdp_build_correct:
  assumes "wf_participant (sc_participant c)"
  shows "\<exists>d'. spdp_build c d = Some (sb_error d' = spdp_none, d') \<and>
    span_size (sb_buffer d') = span_size (sb_buffer d) \<and> sb_size d' \<le> span_size (sb_buffer d) \<and>
    sb_error d' \<noteq> spdp_buffer_overflow \<and> (sb_error d' = spdp_none \<longleftrightarrow> sb_size d' \<noteq> 0) \<and>
    (sb_error d' = spdp_none \<longleftrightarrow> announcement_ok c \<and> \<not> null_span (sb_buffer d) \<and>
       data_message_overhead + length (announcement_payload c) \<le> span_size (sb_buffer d))"
proof (cases "participant_ok (sc_participant c) \<and>
    supported_byte_order (sc_submessage_byte_order c) \<and> supported_byte_order (sc_parameter_byte_order c) \<and>
    \<not> (null_span (sb_buffer d) \<and> span_size (sb_buffer d) \<noteq> 0)")
  case False
  
  from spdp_build_invalid [OF assms this] obtain e where
    "e \<in> {spdp_invalid_argument, spdp_invalid_configuration, spdp_invalid_locator, spdp_invalid_duration}"
    "spdp_build c d = spdp_fail e (d\<lparr>sb_size := 0, sb_error := spdp_none, sb_rtps_error := rtps_none\<rparr>)" by blast
  with False show ?thesis by (auto simp: announcement_ok_def spdp_fail_def)
next
  case True
  let ?dc = "spdp_data_config c" and ?db = "data_builder_new (sb_buffer d)" and ?p = "announcement_payload c"
  note wf = spdp_data_config_ok(1) [OF assms] and seq = spdp_data_config_ok(2) [OF assms]
  from data_build_total [OF wf, of "Span ?p" ?db] True obtain b where
    b: "data_build ?dc (Span ?p) ?db = Some (db_error b = rtps_none, b)"
    "span_size (db_buffer b) = span_size (sb_buffer d)" "db_size b \<le> span_size (sb_buffer d)" by auto
  have "announcement_ok c \<longleftrightarrow> data_config_ok ?dc ?p" using True seq by (simp add: announcement_ok_def)
  with spdp_build_valid [OF assms _ _ _ _ b(1)] data_build_iff [OF wf b(1)] True b show ?thesis by auto
qed

section \<open>Parsing announcements\<close>

lemmas spdp_pids = pid_participant_lease_duration_def pid_domain_id_def pid_protocol_version_def pid_vendor_id_def
  pid_default_unicast_locator_def pid_metatraffic_unicast_locator_def pid_metatraffic_multicast_locator_def
  pid_expects_inline_qos_def pid_default_multicast_locator_def pid_participant_guid_def pid_builtin_endpoint_set_def
  pid_entity_name_def pid_sentinel_def

lemma wf_push_locator:
  assumes "wf_locators ls" "ll_size ls < spdp_max_locators"
  shows "wf_locators (push_locator l ls)"
  using assms by (simp add: wf_locators_def push_locator_def)

lemma handle_locators:
  assumes handler: "\<And>value st. spdp_parameter order pid value st =
      spdp_locator value order get (\<lambda>ls. upd (\<lambda>_. ls) (ps_participant st)) st"
    and lens: "\<And>x p. get (upd (\<lambda>_. x) p) = x" "\<And>x y p. upd (\<lambda>_. x) (upd (\<lambda>_. y) p) = upd (\<lambda>_. x) p"
      "\<And>p. upd (\<lambda>_. get p) p = p"
    and "list_all (\<lambda>l. wf_locator l \<and> valid_udp_v4_locator l) xs"
    and "wf_locators (get (ps_participant st))" "ll_size (get (ps_participant st)) + length xs \<le> spdp_max_locators"
  shows "handle_all spdp_parameter order (map (\<lambda>l. (pid, locator_bytes order l)) xs) st =
    Some (Inr (st\<lparr>ps_participant := upd (\<lambda>_. fold push_locator xs (get (ps_participant st))) (ps_participant st)\<rparr>))"
  using assms(5-)
proof (induction xs arbitrary: st)
  case Nil
  then show ?case by (simp add: lens)
next
  case (Cons x xs)
  let ?ls = "get (ps_participant st)"
  let ?st = "st\<lparr>ps_participant := upd (\<lambda>_. push_locator x ?ls) (ps_participant st)\<rparr>"
  have room: "ll_size ?ls < spdp_max_locators" using Cons.prems by simp
  have "spdp_parameter order pid (padded_value (locator_bytes order x)) st = Some (Inr ?st)"
    using append_parsed_locator_bytes [OF _ room, of x order] Cons.prems
    by (simp add: handler spdp_locator_def push_locator_def)
  moreover have "handle_all spdp_parameter order (map (\<lambda>l. (pid, locator_bytes order l)) xs) ?st =
    Some (Inr (?st\<lparr>ps_participant := upd (\<lambda>_. fold push_locator xs (get (ps_participant ?st))) (ps_participant ?st)\<rparr>))"
    using Cons.prems wf_push_locator [OF _ room, of x]
    by (intro Cons.IH) (simp_all add: lens, simp add: push_locator_def)
  ultimately show ?case by (simp add: lens)
qed

lemma spdp_parameter_locator:
  "spdp_parameter order pid_metatraffic_unicast_locator value st =
     spdp_locator value order pd_metatraffic_unicast (\<lambda>ls. pd_metatraffic_unicast_update (\<lambda>_. ls) (ps_participant st)) st"
  "spdp_parameter order pid_metatraffic_multicast_locator value st =
     spdp_locator value order pd_metatraffic_multicast (\<lambda>ls. pd_metatraffic_multicast_update (\<lambda>_. ls) (ps_participant st)) st"
  "spdp_parameter order pid_default_unicast_locator value st =
     spdp_locator value order pd_default_unicast (\<lambda>ls. pd_default_unicast_update (\<lambda>_. ls) (ps_participant st)) st"
  "spdp_parameter order pid_default_multicast_locator value st =
     spdp_locator value order pd_default_multicast (\<lambda>ls. pd_default_multicast_update (\<lambda>_. ls) (ps_participant st)) st"
  by (simp_all add: spdp_parameter_def Let_def spdp_pids)

lemma handle_identity:
  assumes "wf_participant p" "\<not> ps_seen_protocol st" "\<not> ps_seen_vendor st" "\<not> ps_seen_domain st" "\<not> ps_seen_guid st"
  shows "handle_all spdp_parameter order
     [(pid_protocol_version, [pv_major (pd_protocol_version p), pv_minor (pd_protocol_version p)]), (pid_vendor_id, pd_vendor_id p),
      (pid_domain_id, word_bytes order 4 (pd_domain_id p)), (pid_participant_guid, pd_guid_prefix p @ entity_id_participant)] st =
    Some (Inr (st\<lparr>ps_participant := (ps_participant st)\<lparr>pd_protocol_version := pd_protocol_version p,
        pd_vendor_id := pd_vendor_id p, pd_domain_id := pd_domain_id p, pd_guid_prefix := pd_guid_prefix p\<rparr>,
      ps_seen_protocol := True, ps_seen_vendor := True, ps_seen_domain := True, ps_seen_guid := True\<rparr>))"
proof -
  have vendor: "length (pd_vendor_id p) = 2" and guid: "length (pd_guid_prefix p) = 12"
    using assms(1) by (simp_all add: wf_participant_def wf_vendor_id_def wf_guid_prefix_def)
  have vals: "padded_value [a, b] = [a, b, 0, 0]" "padded_value (pd_vendor_id p) = pd_vendor_id p @ [0, 0]"
    "padded_value (word_bytes order 4 d) = word_bytes order 4 d"
    "padded_value (pd_guid_prefix p @ entity_id_participant) = pd_guid_prefix p @ entity_id_participant" for a b :: byte and d :: u32
    using vendor guid by (simp_all add: padded_value_def padded_size_def entity_id_participant_def numeral_2_eq_2)
  have reads: "rd_block (pd_vendor_id p @ [0, 0]) 0 2 = Some (pd_vendor_id p)"
    "read_u32 order 0 (word_bytes order 4 (pd_domain_id p)) = Some (pd_domain_id p)"
    "rd_block (pd_guid_prefix p @ entity_id_participant) 0 12 = Some (pd_guid_prefix p)"
    "rd_block (pd_guid_prefix p @ entity_id_participant) 12 4 = Some entity_id_participant"
    "length (pd_vendor_id p @ [0, 0]) = 4" "length (pd_guid_prefix p @ entity_id_participant) = 16"
    using vendor guid by (simp_all add: rd_block_def u32_codec.get_block entity_id_participant_def)
  show ?thesis
    using assms(2-)
    by (simp add: spdp_parameter_def Let_def spdp_pids vals reads rd_def del: length_append)
qed

lemma handle_settings:
  assumes "\<not> ps_seen_inline st" "\<not> ps_seen_endpoints st" "\<not> ps_seen_lease st"
    "\<not> sint (ucast (duration_seconds d) :: u32) < 0"
    "duration_value (ucast (duration_seconds d)) (duration_fraction d) \<noteq> 0"
  shows "handle_all spdp_parameter order
     [(pid_expects_inline_qos, [if q then 1 else 0]), (pid_builtin_endpoint_set, word_bytes order 4 endpoints),
      (pid_participant_lease_duration, duration_bytes order d)] st =
    Some (Inr (st\<lparr>ps_participant := (ps_participant st)\<lparr>pd_expects_inline_qos := q, pd_available_builtin_endpoints := endpoints,
        pd_lease_duration_ns := duration_value (ucast (duration_seconds d)) (duration_fraction d)\<rparr>,
      ps_seen_inline := True, ps_seen_endpoints := True, ps_seen_lease := True\<rparr>))"
proof -
  have three: "replicate 3 0 = [0, 0, 0 :: byte]" by (simp add: eval_nat_numeral)
  have vals: "padded_value [x] = [x, 0, 0, 0]" "padded_value (word_bytes order 4 endpoints) = word_bytes order 4 endpoints"
    "padded_value (duration_bytes order d) = duration_bytes order d" for x :: byte
    by (simp_all add: padded_value_def padded_size_def duration_bytes_def three)
  have reads: "read_u32 order 0 (word_bytes order 4 endpoints) = Some endpoints"
    "read_u32 order 0 (duration_bytes order d) = Some (ucast (duration_seconds d))"
    "read_u32 order 4 (duration_bytes order d) = Some (duration_fraction d)" "length (duration_bytes order d) = 8"
    by (simp_all add: u32_codec.get_block duration_bytes_def)
  show ?thesis
    using assms
    by (simp add: spdp_parameter_def spdp_lease_def Let_def spdp_pids vals reads rd_def)
qed

lemma handle_name:
  assumes "\<not> ps_seen_name st" "length s \<le> spdp_max_entity_name" "s \<noteq> []"
    "length (pd_entity_name (ps_participant st)) = spdp_max_entity_name + 1"
  shows "spdp_parameter order pid_entity_name (padded_value (string_bytes order s)) st =
    Some (Inr (st\<lparr>ps_participant := (ps_participant st)\<lparr>pd_entity_name_size := length s,
        pd_entity_name := s @ drop (length s) (pd_entity_name (ps_participant st))\<rparr>, ps_seen_name := True\<rparr>))"
proof -
  let ?v = "padded_value (string_bytes order s)"
  obtain z where v: "?v = word_bytes order 4 (of_nat (length s + 1) :: u32) @ s @ 0 # z"
    by (simp add: padded_value_def string_bytes_def)
  have len: "unat (of_nat (length s + 1) :: u32) = length s + 1"
    unfolding unat_of_nat using assms(2) by (simp add: spdp_max_entity_name_def)
  have "8 \<le> length ?v" using padded_size_props [of "length s + 5"] assms(3)
    unfolding length_padded_value by (cases s) (simp_all add: string_bytes_def, presburger)
  moreover have "read_u32 order 0 ?v = Some (of_nat (length s + 1))" "rd ?v (4 + length s) = Some 0"
    "rd_block ?v 4 (length s) = Some s"
    unfolding v by (simp_all add: u32_codec.get_block rd_def rd_block_def nth_append)
  moreover have "length s + 1 \<le> length ?v - 4" unfolding v by simp
  moreover have "wr_block (pd_entity_name (ps_participant st)) 0 s =
      Some (s @ drop (length s) (pd_entity_name (ps_participant st)))"
    using assms(2,4) by (simp add: wr_block_def)
  ultimately show ?thesis
    using assms(1,2) len by (simp add: spdp_parameter_def spdp_entity_name_def Let_def spdp_pids del: length_padded_value)
qed

lemma fresh_locators_props:
  assumes "length xs \<le> spdp_max_locators"
  shows "wf_locators (fresh_locators xs) \<and> ll_size (fresh_locators xs) = length xs \<and> locators (fresh_locators xs) = xs"
proof -
  have "wf_locators (fold push_locator xs ls) \<and> ll_size (fold push_locator xs ls) = ll_size ls + length xs \<and>
      locators (fold push_locator xs ls) = locators ls @ xs"
    if "wf_locators ls" "ll_size ls + length xs \<le> spdp_max_locators" for ls
    using that
  proof (induction xs arbitrary: ls)
    case (Cons x xs)
    then have room: "ll_size ls < spdp_max_locators" by simp
    with Cons wf_push_locator [OF _ room, of x] push_back_locators(2) [OF _ room, of x]
    show ?case by (simp add: push_locator_def)
  qed simp
  moreover have empty: "wf_locators empty_locators" "ll_size empty_locators = 0"
    by (simp_all add: wf_locators_def empty_locators_def)
  ultimately show ?thesis using assms by (simp add: fresh_locators_def)
qed

lemma handle_announced_locators:
  assumes "locators_shape ls" "valid_locators ls"
    and "\<And>value st. spdp_parameter order pid value st = spdp_locator value order get (\<lambda>ls. upd (\<lambda>_. ls) (ps_participant st)) st"
      "\<And>x p. get (upd (\<lambda>_. x) p) = x" "\<And>x y p. upd (\<lambda>_. x) (upd (\<lambda>_. y) p) = upd (\<lambda>_. x) p" "\<And>p. upd (\<lambda>_. get p) p = p"
    and "get (ps_participant st) = empty_locators"
  shows "handle_all spdp_parameter order (locator_parameters order pid ls @ qs) st =
    handle_all spdp_parameter order qs (st\<lparr>ps_participant := upd (\<lambda>_. fresh_locators (locators ls)) (ps_participant st)\<rparr>)"
proof -
  have "list_all (\<lambda>l. wf_locator l \<and> valid_udp_v4_locator l) (locators ls)" "length (locators ls) \<le> spdp_max_locators"
    using assms(1,2) by (auto simp: locators_def locators_shape_def valid_locators_def list_all_iff dest: in_set_takeD)
  moreover have "wf_locators empty_locators" "ll_size empty_locators = 0"
    by (simp_all add: wf_locators_def empty_locators_def)
  ultimately show ?thesis
    unfolding locator_parameters_def fresh_locators_def assms(7) [symmetric]
    by (intro handle_all_seq handle_locators assms) (simp_all add: assms(7))
qed

lemma lease_roundtrip:
  assumes "participant_ok p"
  defines "d \<equiv> pd_lease_duration_ns p"
  defines "d' \<equiv> duration_value (ucast (duration_seconds d)) (duration_fraction d)"
  shows "\<not> sint (ucast (duration_seconds d) :: u32) < 0" "d' \<noteq> 0" "unat d' = unat d \<or> unat d' + 1 = unat d"
proof -
  have "duration_seconds d \<le> 0x7FFFFFFF" "2 \<le> unat d"
    using assms(1) lease_seconds [of d] by (simp_all add: participant_ok_def d_def not_less)
  from duration_roundtrip [OF this(1)] this(2)
  show "\<not> sint (ucast (duration_seconds d) :: u32) < 0" "d' \<noteq> 0" "unat d' = unat d \<or> unat d' + 1 = unat d"
    by (auto simp: Let_def d'_def [symmetric] word_le_nat_alt)
qed

lemma handle_announcement:
  assumes "wf_participant p" "participant_ok p"
  shows "\<exists>st. handle_all spdp_parameter order (spdp_parameter_list order p) (spdp_parse_start domain) = Some (Inr st) \<and>
    ps_participant st = announced p \<and> ps_seen_protocol st \<and> ps_seen_vendor st \<and> ps_seen_guid st \<and> ps_seen_endpoints st"
proof -
  let ?d = "pd_lease_duration_ns p"
  note lease = lease_roundtrip(1,2) [OF assms(2)]
  have ls: "locators_shape ls" "valid_locators ls" if "ls \<in> set (announced_locators p)" for ls
    using assms that by (auto simp: wf_participant_def announced_locators_def participant_ok_def)
  note lists = ls [unfolded announced_locators_def]
  let ?name = "if pd_entity_name_size p \<noteq> 0
      then [(pid_entity_name, string_bytes order (take (pd_entity_name_size p) (pd_entity_name p)))] else []"
  have parts: "spdp_parameter_list order p =
     [(pid_protocol_version, [pv_major (pd_protocol_version p), pv_minor (pd_protocol_version p)]), (pid_vendor_id, pd_vendor_id p),
      (pid_domain_id, word_bytes order 4 (pd_domain_id p)), (pid_participant_guid, pd_guid_prefix p @ entity_id_participant)] @
     [(pid_expects_inline_qos, [if pd_expects_inline_qos p then 1 else 0]),
      (pid_builtin_endpoint_set, word_bytes order 4 (pd_available_builtin_endpoints p)),
      (pid_participant_lease_duration, duration_bytes order ?d)] @
     locator_parameters order pid_metatraffic_unicast_locator (pd_metatraffic_unicast p) @
     locator_parameters order pid_metatraffic_multicast_locator (pd_metatraffic_multicast p) @
     locator_parameters order pid_default_unicast_locator (pd_default_unicast p) @
     locator_parameters order pid_default_multicast_locator (pd_default_multicast p) @ ?name"
    by (simp add: spdp_parameter_list_def)
  note start = spdp_parse_start_def default_participant_def
  define st1 where "st1 = (spdp_parse_start domain)\<lparr>ps_participant := (ps_participant (spdp_parse_start domain))
      \<lparr>pd_protocol_version := pd_protocol_version p, pd_vendor_id := pd_vendor_id p, pd_domain_id := pd_domain_id p,
       pd_guid_prefix := pd_guid_prefix p, pd_expects_inline_qos := pd_expects_inline_qos p,
       pd_available_builtin_endpoints := pd_available_builtin_endpoints p,
       pd_lease_duration_ns := duration_value (ucast (duration_seconds ?d)) (duration_fraction ?d),
       pd_metatraffic_unicast := fresh_locators (locators (pd_metatraffic_unicast p)),
       pd_metatraffic_multicast := fresh_locators (locators (pd_metatraffic_multicast p)),
       pd_default_unicast := fresh_locators (locators (pd_default_unicast p)),
       pd_default_multicast := fresh_locators (locators (pd_default_multicast p))\<rparr>,
      ps_seen_protocol := True, ps_seen_vendor := True, ps_seen_domain := True, ps_seen_guid := True,
      ps_seen_inline := True, ps_seen_endpoints := True, ps_seen_lease := True\<rparr>"
  have "handle_all spdp_parameter order (spdp_parameter_list order p) (spdp_parse_start domain) =
      handle_all spdp_parameter order ?name st1"
    unfolding parts st1_def
    by (simp add: start handle_all_seq [OF handle_identity [OF assms(1)]] handle_all_seq [OF handle_settings [OF _ _ _ lease]]
        handle_announced_locators [OF lists spdp_parameter_locator(1)]
        handle_announced_locators [OF lists spdp_parameter_locator(2)]
        handle_announced_locators [OF lists spdp_parameter_locator(3)]
        handle_announced_locators [OF lists spdp_parameter_locator(4)] del: append.simps handle_all.simps)
  moreover have "handle_all spdp_parameter order ?name st1 = Some (Inr (st1\<lparr>ps_participant := announced p,
      ps_seen_name := (pd_entity_name_size p \<noteq> 0)\<rparr>))"
  proof (cases "pd_entity_name_size p = 0")
    case True
    then show ?thesis by (cases p) (simp add: st1_def start announced_def spdp_max_entity_name_def)
  next
    case False
    let ?s = "take (pd_entity_name_size p) (pd_entity_name p)"
    have len: "length (pd_entity_name p) = 64" "pd_entity_name_size p \<le> 63"
      using assms by (simp_all add: wf_participant_def participant_ok_def spdp_max_entity_name_def)
    then have "length ?s = pd_entity_name_size p" "?s \<noteq> []" using False by auto
    with handle_name [of st1 ?s order] len False show ?thesis
      by (cases p) (simp add: st1_def start announced_def spdp_max_entity_name_def)
  qed
  ultimately show ?thesis by (simp add: st1_def)
qed

lemma announced_agrees:
  assumes "wf_participant p" "participant_ok p"
  shows "participant_agrees p (announced p)" "ll_size (pd_default_unicast (announced p)) \<noteq> 0"
    "size_add (ll_size (pd_metatraffic_unicast (announced p))) (ll_size (pd_metatraffic_multicast (announced p))) \<noteq> 0"
proof -
  have len: "length (locators ls) \<le> spdp_max_locators" if "ls \<in> set (announced_locators p)" for ls
    using assms that by (auto simp: participant_ok_def list_all_iff valid_locators_def locators_def)
  note fresh = fresh_locators_props [OF len, unfolded announced_locators_def]
  have name: "length (pd_entity_name p) = 64" "pd_entity_name_size p \<le> 63"
    using assms by (simp_all add: wf_participant_def participant_ok_def spdp_max_entity_name_def)
  show "participant_agrees p (announced p)"
    using fresh lease_roundtrip(3) [OF assms(2)] name
    by (simp add: participant_agrees_def announced_def announced_locators_def)
  show "ll_size (pd_default_unicast (announced p)) \<noteq> 0"
    using fresh assms(2) by (simp add: announced_def participant_ok_def)
  have "length (locators (pd_metatraffic_unicast p)) \<le> 4" "length (locators (pd_metatraffic_multicast p)) \<le> 4"
    using len by (simp_all add: announced_locators_def spdp_max_locators_def)
  then show "size_add (ll_size (pd_metatraffic_unicast (announced p))) (ll_size (pd_metatraffic_multicast (announced p))) \<noteq> 0"
    using fresh assms(2) by (auto simp: announced_def participant_ok_def size_add_def SIZE_MAX_def)
qed

lemma parameters_wf:
  assumes "wf_participant p" "participant_ok p"
  shows "list_all parameter_ok (spdp_parameter_list order p)"
proof -
  have lens: "length (pd_vendor_id p) = 2" "length (pd_guid_prefix p) = 12" "length (pd_entity_name p) = 64"
    "pd_entity_name_size p \<le> 63"
    using assms by (simp_all add: wf_participant_def participant_ok_def wf_vendor_id_def wf_guid_prefix_def spdp_max_entity_name_def)
  have locs: "list_all parameter_ok (locator_parameters order pid ls)" if "ls \<in> set (announced_locators p)" "pid \<noteq> pid_sentinel" for ls pid
    using assms that
    by (auto simp: locator_parameters_def list_all_iff parameter_ok_def wf_participant_def announced_locators_def locators_def
        locators_shape_def locator_bytes_def wf_locator_def padded_size_def dest!: in_set_takeD)
  have "padded_size (length (string_bytes order (take (pd_entity_name_size p) (pd_entity_name p)))) \<le> 65535"
    using padded_size_props(3) [of "length (string_bytes order (take (pd_entity_name_size p) (pd_entity_name p)))"] lens
    by (simp add: string_bytes_def)
  then show ?thesis
    using locs by (simp add: spdp_parameter_list_def announced_locators_def parameter_ok_def spdp_pids lens padded_size_def
      duration_bytes_def entity_id_participant_def)
qed

lemma parse_announcement:
  assumes "wf_participant (sc_participant c)" "announcement_ok c"
  shows "parse_spdp_message (Span (data_bytes (spdp_data_config c) (announcement_payload c))) domain =
    Some (if pd_domain_id (sc_participant c) = domain
      then Inr (\<lparr>sv_participant = announced (sc_participant c), sv_sequence_number = sc_sequence_number c,
             sv_submessage_byte_order = sc_submessage_byte_order c, sv_parameter_byte_order = sc_parameter_byte_order c\<rparr>,
           data_message_overhead + length (announcement_payload c))
      else Inl (spdp_domain_mismatch, rtps_none))"
proof -
  let ?p = "sc_participant c" and ?o = "sc_parameter_byte_order c" and ?pl = "announcement_payload c"
  have ok: "participant_ok ?p" "supported_byte_order (sc_submessage_byte_order c)" "supported_byte_order ?o"
    using assms(2) by (simp_all add: announcement_ok_def)
  have dc: "wf_data_config (spdp_data_config c)" "data_config_ok (spdp_data_config c) ?pl"
    using spdp_data_config_ok [OF assms(1) ok(1,2)] assms(2) by (simp_all add: announcement_ok_def)
  have ok2: "list_all valid_locators (announced_locators ?p)" "pd_entity_name_size ?p \<le> spdp_max_entity_name"
    using ok(1) by (simp_all add: participant_ok_def spdp_max_entity_name_def)
  have len: "8 \<le> length ?pl" using announcement_fits(2) [OF assms(1) ok2] by (simp add: announcement_payload_def)
  have head: "rd ?pl 0 = Some 0" "rd ?pl 1 = Some (if ?o = little_endian then 3 else 2)"
    by (simp_all add: announcement_payload_def payload_bytes_def rd_def)
  have view: "dv_payload (data_view (spdp_data_config c) ?pl) = ?pl"
    "dv_writer_id (data_view (spdp_data_config c) ?pl) = entity_id_spdp_writer"
    "dv_reader_id (data_view (spdp_data_config c) ?pl) = entity_id_unknown"
    by (simp_all add: data_view_def spdp_data_config_def)
  obtain st where st: "handle_all spdp_parameter ?o (spdp_parameter_list ?o ?p) (spdp_parse_start domain) = Some (Inr st)"
    "ps_participant st = announced ?p" "ps_seen_protocol st" "ps_seen_vendor st" "ps_seen_guid st" "ps_seen_endpoints st"
    using handle_announcement [OF assms(1) ok(1)] by blast
  have walk: "parameter_walk spdp_parameter spdp_malformed_parameter ?o ?pl 4 (spdp_parse_start domain) = Some (Inr (st, True))"
    by (simp add: announcement_payload_def parameter_walk_payload [OF parameters_wf [OF assms(1) ok(1)]] st(1))
  have accept: "spdp_accept domain (data_view (spdp_data_config c) ?pl) ?o (st, True) =
      (if pd_domain_id ?p = domain then Inr \<lparr>sv_participant = announced ?p, sv_sequence_number = sc_sequence_number c,
             sv_submessage_byte_order = sc_submessage_byte_order c, sv_parameter_byte_order = ?o\<rparr>
       else Inl spdp_domain_mismatch)"
    using announced_agrees [OF assms(1) ok(1)] st ok(1) participant_guards [OF assms(1)]
    by (simp add: spdp_accept_def data_view_def spdp_data_config_def participant_agrees_def Let_def)
  show ?thesis
    using len accept walk [unfolded spdp_parse_start_def] head ok(3)
    by (cases "?o = little_endian")
      (simp_all add: parse_spdp_message_def parse_data_bytes [OF dc] view Let_def length_data_bytes [OF dc(1)] supported_byte_order_def)
qed

lemma spdp_build_ok:
  assumes "wf_participant (sc_participant c)" "announcement_ok c" "sb_buffer d = Span b"
    "data_message_overhead + length (announcement_payload c) \<le> length b"
  shows "spdp_build c d = Some (True,
    \<lparr>sb_buffer = Span (data_bytes (spdp_data_config c) (announcement_payload c) @
        drop (data_message_overhead + length (announcement_payload c)) b),
     sb_size = data_message_overhead + length (announcement_payload c), sb_error = spdp_none, sb_rtps_error = rtps_none\<rparr>)"
proof -
  have ok: "participant_ok (sc_participant c)" "supported_byte_order (sc_submessage_byte_order c)"
    "supported_byte_order (sc_parameter_byte_order c)" using assms(2) by (simp_all add: announcement_ok_def)
  note dc = spdp_data_config_ok [OF assms(1) ok(1,2)]
  have "data_config_ok (spdp_data_config c) (announcement_payload c)" using dc(2) assms(2) by (simp add: announcement_ok_def)
  from data_build_cases [OF dc(1) refl _ this, of "data_builder_new (sb_buffer d)" b] assms(3,4)
    spdp_build_valid [OF assms(1) ok, of d]
  show ?thesis by simp
qed

lemma spdp_build_success:
  assumes "wf_participant (sc_participant c)" "spdp_build c d = Some (True, d')"
  obtains b where "announcement_ok c" "sb_buffer d = Span b"
    "data_message_overhead + length (announcement_payload c) \<le> length b"
proof -
  have ok: "participant_ok (sc_participant c) \<and>
    supported_byte_order (sc_submessage_byte_order c) \<and> supported_byte_order (sc_parameter_byte_order c) \<and>
    \<not> (null_span (sb_buffer d) \<and> span_size (sb_buffer d) \<noteq> 0)"
    by (rule ccontr) (use spdp_build_invalid [OF assms(1), of d] assms(2) in \<open>auto simp: spdp_fail_def\<close>)
  then have dc: "wf_data_config (spdp_data_config c)" "announcement_ok c \<longleftrightarrow> data_config_ok (spdp_data_config c) (announcement_payload c)"
    using spdp_data_config_ok [OF assms(1)] by (simp_all add: announcement_ok_def)
  obtain r where r: "data_build (spdp_data_config c) (Span (announcement_payload c)) (data_builder_new (sb_buffer d)) =
      Some (db_error r = rtps_none, r)" using data_build_total [OF dc(1)] by blast
  with spdp_build_valid [OF assms(1) _ _ _ _ r] ok assms(2) have "db_error r = rtps_none" by auto
  with data_build_iff(1) [OF dc(1) r] dc(2) that show thesis by (cases "sb_buffer d") auto
qed

lemma demo_announcement_ok: "wf_participant demo_participant" "announcement_ok demo_announcement"
proof -
  note defs = demo_announcement_def demo_participant_def default_participant_def demo_locator_def make_udp_v4_locator_def
    push_locator_def empty_locators_def spdp_max_locators_def spdp_max_entity_name_def or_bytes_def default_locator_def
  show "wf_participant demo_participant"
    by (simp add: defs wf_participant_def wf_vendor_id_def wf_guid_prefix_def locators_shape_def wf_locator_def
        list_all_iff eval_nat_numeral)
  have "list_all valid_locators (announced_locators demo_participant)"
    "locators (pd_default_unicast demo_participant) \<noteq> []" "locators (pd_metatraffic_unicast demo_participant) \<noteq> []"
    by code_simp+
  then show "announcement_ok demo_announcement"
    by (simp add: announcement_ok_def participant_ok_def demo_announcement_def)
      (simp add: demo_participant_def default_participant_def supported_byte_order_def
        spdp_endpoint_participant_announcer_def spdp_endpoint_participant_detector_def)
qed

text \<open>C7: Whenever an announcement is built, parsing the reported bytes in the announced domain gives
  back the participant: the same version, vendor, GUID prefix, domain, flags, endpoint set, locator
  lists and entity name, with the lease rounded down by at most one nanosecond, together with the
  sequence number and byte orders. In any other domain the message is refused.\<close>

theorem spdp_roundtrip:
  assumes "wf_participant (sc_participant c)" "spdp_build c d = Some (True, d')"
  shows "\<exists>q. participant_agrees (sc_participant c) q \<and>
    (\<forall>domain. parse_spdp_message (Span (take (sb_size d') (span_bytes (sb_buffer d')))) domain =
      Some (if pd_domain_id (sc_participant c) = domain
        then Inr (\<lparr>sv_participant = q, sv_sequence_number = sc_sequence_number c,
               sv_submessage_byte_order = sc_submessage_byte_order c,
               sv_parameter_byte_order = sc_parameter_byte_order c\<rparr>, sb_size d')
        else Inl (spdp_domain_mismatch, rtps_none)))"
proof -
  from assms obtain b where b: "announcement_ok c" "sb_buffer d = Span b"
    "data_message_overhead + length (announcement_payload c) \<le> length b" by (rule spdp_build_success)
  then have ok: "participant_ok (sc_participant c)" "supported_byte_order (sc_submessage_byte_order c)"
    by (simp_all add: announcement_ok_def)
  note len = length_data_bytes [OF spdp_data_config_ok(1) [OF assms(1) ok], of "announcement_payload c"]
  from spdp_build_ok [OF assms(1) b] assms(2)
  have "sb_size d' = data_message_overhead + length (announcement_payload c)"
    "take (sb_size d') (span_bytes (sb_buffer d')) = data_bytes (spdp_data_config c) (announcement_payload c)"
    by (auto simp: len)
  with parse_announcement [OF assms(1) b(1)] announced_agrees(1) [OF assms(1) ok(1)]
  show ?thesis by auto
qed

theorem spdp_roundtrip_witness:
  "\<exists>d' q. spdp_build demo_announcement (spdp_builder_new (Span (replicate 1000 0))) = Some (True, d') \<and>
     participant_agrees demo_participant q \<and>
     parse_spdp_message (Span (take (sb_size d') (span_bytes (sb_buffer d')))) 7 =
       Some (Inr (\<lparr>sv_participant = q, sv_sequence_number = 3, sv_submessage_byte_order = little_endian,
         sv_parameter_byte_order = big_endian\<rparr>, sb_size d'))"
proof -
  have wf: "wf_participant (sc_participant demo_announcement)"
    using demo_announcement_ok(1) by (simp add: demo_announcement_def)
  have "length (announcement_payload demo_announcement) \<le> 768"
    using announcement_fits(1) [of "sc_participant demo_announcement" "sc_parameter_byte_order demo_announcement"] wf
      demo_announcement_ok(2)
    by (simp add: announcement_payload_def announcement_ok_def participant_ok_def spdp_max_entity_name_def
        spdp_payload_capacity_def)
  then obtain d' where d': "spdp_build demo_announcement (spdp_builder_new (Span (replicate 1000 0))) = Some (True, d')"
    using spdp_build_ok [OF wf demo_announcement_ok(2), of "spdp_builder_new (Span (replicate 1000 0))" "replicate 1000 0"]
    by (simp add: spdp_builder_new_def data_message_overhead_44)
  from spdp_roundtrip [OF wf d'] obtain q where q: "participant_agrees (sc_participant demo_announcement) q"
    "\<And>domain. parse_spdp_message (Span (take (sb_size d') (span_bytes (sb_buffer d')))) domain =
      Some (if pd_domain_id (sc_participant demo_announcement) = domain
        then Inr (\<lparr>sv_participant = q, sv_sequence_number = sc_sequence_number demo_announcement,
               sv_submessage_byte_order = sc_submessage_byte_order demo_announcement,
               sv_parameter_byte_order = sc_parameter_byte_order demo_announcement\<rparr>, sb_size d')
        else Inl (spdp_domain_mismatch, rtps_none))" by blast
  with d' show ?thesis
    by (intro exI [of _ d'] exI [of _ q]) (simp add: demo_announcement_def demo_participant_def)
qed

text \<open>The parser's state, and what every parameter keeps of it.\<close>

lemma spdp_locator_ok:
  assumes "parse_inv st" "get (ps_participant st) \<in> set (announced_locators (ps_participant st))"
    "\<And>ls. valid_locator_list ls \<Longrightarrow> parse_inv (st\<lparr>ps_participant := put ls\<rparr>)"
  shows "\<exists>r. spdp_locator value order get put st = Some r \<and> handled (\<lambda>e. e \<noteq> spdp_none) parse_inv r"
proof -
  have "valid_locator_list (get (ps_participant st))"
    using assms(1,2) by (auto simp: parse_inv_def Let_def list_all_iff)
  from append_parsed_locator_ok [OF this] obtain e ls where
    "append_parsed_locator value order (get (ps_participant st)) = Some (e, ls)" "valid_locator_list ls" by blast
  with assms(3) show ?thesis by (cases e) (simp_all add: spdp_locator_def)
qed

lemma spdp_lease_ok:
  assumes "parse_inv st"
  shows "\<exists>r. spdp_lease value order st = Some r \<and> handled (\<lambda>e. e \<noteq> spdp_none) parse_inv r"
  using assms
  by (cases "length value = 8")
    (auto simp: spdp_lease_def Let_def u32_codec.get_block parse_inv_def announced_locators_def)

lemma zero_filled_write:
  assumes "zero_filled name 0" "length s = n" "n < length name"
  shows "zero_filled (s @ drop n name) n"
  using assms by (auto simp: zero_filled_def list_all_iff dest: in_set_dropD)

lemma zero_filled_terminated:
  assumes "zero_filled name n"
  shows "n < length name" "name ! n = 0"
  using assms by (auto simp: zero_filled_def dest: Cons_nth_drop_Suc [symmetric])

lemma spdp_entity_name_ok:
  assumes "parse_inv st"
  shows "\<exists>r. spdp_entity_name value order st = Some r \<and> handled (\<lambda>e. e \<noteq> spdp_none) parse_inv r"
proof (cases "ps_seen_name st \<or> length value < 8")
  case False
  define n where "n = unat (bytes_word order (take 4 value) :: u32)"
  have n: "map_option unat (read_u32 order 0 value) = Some n" using False by (simp add: u32_codec.get_block n_def)
  show ?thesis
  proof (cases "n = 0 \<or> n > length value - 4 \<or> n > spdp_max_entity_name + 1")
    case big: False
    then have "rd value (4 + n - 1) = Some (value ! (4 + n - 1))" "rd_block value 4 (n - 1) = Some (take (n - 1) (drop 4 value))"
      "length (take (n - 1) (drop 4 value)) = n - 1" "n - 1 \<le> 63"
      using False by (auto simp: rd_def rd_block_def spdp_max_entity_name_def)
    moreover from this have "wr_block (pd_entity_name (ps_participant st)) 0 (take (n - 1) (drop 4 value)) =
        Some (take (n - 1) (drop 4 value) @ drop (n - 1) (pd_entity_name (ps_participant st)))"
      using assms by (simp add: wr_block_def parse_inv_def Let_def)
    moreover have "zero_filled (take (n - 1) (drop 4 value) @ drop (n - 1) (pd_entity_name (ps_participant st))) (n - 1)"
      using calculation(3,4) False assms by (intro zero_filled_write) (auto simp: parse_inv_def Let_def)
    ultimately show ?thesis
      using False big assms
      by (simp add: spdp_entity_name_def parse_inv_def Let_def announced_locators_def n)
  qed (use False n in \<open>auto simp: spdp_entity_name_def\<close>)
qed (auto simp: spdp_entity_name_def)

text \<open>The parameters of fixed size: a duplicate and a wrong length are refused, the rest is stored.\<close>

lemma spdp_fixed_ok:
  assumes "parse_inv st" "pid \<in> {pid_protocol_version, pid_vendor_id, pid_domain_id, pid_participant_guid,
    pid_expects_inline_qos, pid_builtin_endpoint_set}"
  shows "\<exists>r. spdp_parameter order pid value st = Some r \<and> handled (\<lambda>e. e \<noteq> spdp_none) parse_inv r"
proof -
  define d where "d = (bytes_word order (take 4 value) :: u32)"
  have four: "rd value 0 = Some (value ! 0)" "rd value 1 = Some (value ! 1)" "rd_block value 0 2 = Some (take 2 value)"
    "read_u32 order 0 value = Some d" "min (length value) 2 = 2" if "length value = 4"
    using that by (simp_all add: rd_def rd_block_def u32_codec.get_block d_def)
  have sixteen: "rd_block value 0 12 = Some (take 12 value)" "rd_block value 12 4 = Some (take 4 (drop 12 value))"
    "min (length value) 12 = 12" if "length value = 16"
    using that by (simp_all add: rd_block_def)
  note defs = spdp_parameter_def Let_def spdp_pids parse_inv_def announced_locators_def
  show ?thesis
  proof (cases "pid = pid_participant_guid")
    case True
    then show ?thesis using assms(1) sixteen by (cases "length value = 16") (simp_all add: defs)
  next
    case False
    with assms(2) show ?thesis using assms(1) four by (cases "length value = 4"; elim insertE) (simp_all add: defs)
  qed
qed

lemma spdp_parameter_unknown:
  assumes "pid \<notin> spdp_known"
  shows "spdp_parameter order pid value st =
    (if pid \<noteq> 0 \<and> pid AND must_understand_mask \<noteq> 0 then Some (Inl spdp_unknown_required_parameter) else Some (Inr st))"
  using assms by (simp add: spdp_parameter_def spdp_known_def Let_def)

lemma spdp_parameter_ok:
  assumes "parse_inv st"
  shows "\<exists>r. spdp_parameter order pid value st = Some r \<and> handled (\<lambda>e. e \<noteq> spdp_none) parse_inv r"
proof -
  consider "pid \<in> {pid_metatraffic_unicast_locator, pid_metatraffic_multicast_locator, pid_default_unicast_locator,
      pid_default_multicast_locator}"
    | "pid \<in> {pid_protocol_version, pid_vendor_id, pid_domain_id, pid_participant_guid, pid_expects_inline_qos,
      pid_builtin_endpoint_set}" | "pid = pid_participant_lease_duration" | "pid = pid_entity_name"
    | "pid \<notin> spdp_known" unfolding spdp_known_def by blast
  then show ?thesis
  proof cases
    case 1
    then show ?thesis
      using assms
      by (elim insertE)
        (simp_all add: spdp_parameter_locator, (rule spdp_locator_ok; simp add: parse_inv_def Let_def announced_locators_def)+)
  next
    case 2
    then show ?thesis by (rule spdp_fixed_ok [OF assms])
  next
    case 3
    with spdp_lease_ok [OF assms] show ?thesis by (simp add: spdp_parameter_def Let_def spdp_pids)
  next
    case 4
    with spdp_entity_name_ok [OF assms] show ?thesis by (simp add: spdp_parameter_def Let_def spdp_pids)
  next
    case 5
    with assms show ?thesis by (simp add: spdp_parameter_unknown)
  qed
qed

interpretation spdp_handler: parameter_handler spdp_parameter spdp_malformed_parameter parse_inv "\<lambda>e. e \<noteq> spdp_none"
  by unfold_locales (simp, rule spdp_parameter_ok)

lemma parse_start_inv: "parse_inv (spdp_parse_start domain)"
  by (simp add: parse_inv_def spdp_parse_start_def default_participant_def announced_locators_def spdp_max_entity_name_def
      zero_filled_def list_all_iff)

lemma valid_list_size: "valid_locator_list ls \<Longrightarrow> locators ls = [] \<longleftrightarrow> ll_size ls = 0"
  by (auto simp: valid_locator_list_def wf_locators_def locators_def)

lemma spdp_accept_ok:
  assumes "parse_inv st" "spdp_accept domain data order (st, seen) = Inr v"
  shows "accepted_view domain data v"
proof -
  let ?p = "ps_participant st"
  have sizes: "ll_size ls \<noteq> 0 \<longleftrightarrow> locators ls \<noteq> []" "ll_size ls \<le> 4" if "ls \<in> set (announced_locators ?p)" for ls
    using assms(1) that valid_list_size [of ls]
    by (auto simp: parse_inv_def Let_def list_all_iff valid_locator_list_def wf_locators_def spdp_max_locators_def)
  from assms(2) have v: "sv_participant v = ?p" "sv_sequence_number v = dv_sequence_number data"
    and acc: "ll_size (pd_default_unicast ?p) \<noteq> 0"
      "size_add (ll_size (pd_metatraffic_unicast ?p)) (ll_size (pd_metatraffic_multicast ?p)) \<noteq> 0"
      "\<not> unsupported_version (pd_protocol_version ?p)" "nonzero_guid (pd_guid_prefix ?p)"
      "pd_guid_prefix ?p = dv_guid_prefix data" "pd_protocol_version ?p = dv_version data"
      "pd_vendor_id ?p = dv_vendor_id data" "pd_domain_id ?p = domain"
    by (auto simp: spdp_accept_def Let_def protocol_version.equality split: if_splits)
  from acc(1,2) have "locators (pd_default_unicast ?p) \<noteq> []"
    "locators (pd_metatraffic_unicast ?p) @ locators (pd_metatraffic_multicast ?p) \<noteq> []"
    using sizes(1) [of "pd_default_unicast ?p"] sizes(1) [of "pd_metatraffic_unicast ?p"] sizes(1) [of "pd_metatraffic_multicast ?p"]
    by (auto simp: announced_locators_def size_add_def)
  moreover have "pd_entity_name_size ?p < length (pd_entity_name ?p)"
    using assms(1) by (auto simp: parse_inv_def Let_def dest: zero_filled_terminated(1))
  ultimately show ?thesis
    using acc(3-) v assms(1) by (simp add: accepted_view_def parse_inv_def Let_def version_ok nonzero_guid_def list_ex_iff)
qed

lemma spdp_errors:
  assumes "spdp_accept domain data order s = Inl e"
  shows "e \<noteq> spdp_none"
  using assms by (auto simp: spdp_accept_def Let_def split: if_splits prod.splits)

lemma spdp_accept_handled:
  assumes "parse_inv st"
  shows "handled (\<lambda>e. e \<noteq> spdp_none) (accepted_view domain data) (spdp_accept domain data order (st, seen))"
  using spdp_accept_ok [OF assms] spdp_errors
  by (cases "spdp_accept domain data order (st, seen)") auto

text \<open>C21: Parsing any bytes in any domain terminates and never reads outside the message. A view it
  returns is well formed: a supported version, a non-zero GUID prefix, the identity of the message
  header, the expected domain, bounded lists of usable locators with a default unicast and a
  metatraffic one, a positive lease and an entity name followed by zero bytes only up to the end
  of its array, at least one of them.\<close>

theorem parse_spdp_safe:
  "case parse_spdp_message message domain of
     None \<Rightarrow> False
   | Some (Inl (e, _)) \<Rightarrow> e \<noteq> spdp_none
   | Some (Inr (v, n)) \<Rightarrow> n = span_size message \<and>
       (\<exists>data. parse_data_message message = Some (Inr data) \<and> accepted_view domain data v)"
proof -
  from parse_data_message_total obtain r where r: "parse_data_message message = Some r" by blast
  show ?thesis
  proof (cases r)
    case (Inl e)
    with r show ?thesis by (simp add: parse_spdp_message_def)
  next
    case (Inr data)
    let ?pl = "dv_payload data" and ?order = "if dv_payload data ! 1 = 3 then little_endian else big_endian"
    from spdp_handler.walk_ok [OF parse_start_inv [of domain], of ?order ?pl 4] obtain w where
      w: "parameter_walk spdp_parameter spdp_malformed_parameter ?order ?pl 4 (spdp_parse_start domain) = Some w"
      "handled (\<lambda>e. e \<noteq> spdp_none) (\<lambda>(st, seen). parse_inv st) w" by blast
    let ?r = "case w of Inl e \<Rightarrow> Inl e | Inr s \<Rightarrow> spdp_accept domain data ?order s"
    have good: "handled (\<lambda>e. e \<noteq> spdp_none) (accepted_view domain data) ?r"
      using w(2) spdp_accept_handled by (cases w) auto
    show ?thesis
    proof (cases "length ?pl < 8")
      case True
      with r Inr show ?thesis by (simp add: parse_spdp_message_def)
    next
      case False
      then have "rd ?pl 0 = Some (?pl ! 0)" "rd ?pl 1 = Some (?pl ! 1)" by (auto simp: rd_def)
      with False r Inr w(1) [unfolded spdp_parse_start_def] have "parse_spdp_message message domain =
        Some (if dv_writer_id data \<noteq> entity_id_spdp_writer \<or>
            dv_reader_id data \<noteq> entity_id_unknown \<and> dv_reader_id data \<noteq> entity_id_spdp_reader
          then Inl (spdp_invalid_identity, rtps_none)
          else if ?pl ! 0 \<noteq> 0 \<or> ?pl ! 1 \<noteq> 2 \<and> ?pl ! 1 \<noteq> 3 then Inl (spdp_unsupported_representation, rtps_none)
          else map_sum (\<lambda>e. (e, rtps_none)) (\<lambda>v. (v, span_size message)) ?r)"
        by (simp add: parse_spdp_message_def Let_def)
      with good r Inr show ?thesis by (cases ?r) auto
    qed
  qed
qed

section \<open>The participant table\<close>

interpretation ptable: slot_table dp_occupied dp_key blank_participant
  by unfold_locales (simp add: blank_participant_def)

lemma lease_guard: "\<not> lease > UINT64_MAX - now \<longleftrightarrow> unat now + unat lease < 2 ^ 64"
proof -
  have lt: "unat now < 2 ^ 64" using unsigned_less [of now, where 'a = nat] by simp
  have max: "unat UINT64_MAX = 2 ^ 64 - 1" by (simp add: UINT64_MAX_def)
  with lt have "now \<le> UINT64_MAX" unfolding word_le_nat_alt by linarith
  with max have "unat (UINT64_MAX - now) = 2 ^ 64 - 1 - unat now" by (simp add: unat_sub)
  moreover note lt
  ultimately show ?thesis unfolding word_less_nat_alt by linarith
qed

lemma lease_expiry:
  assumes "unat now + unat lease < 2 ^ 64" "1 \<le> unat lease"
  shows "now < now + (lease :: u64)"
  using assms by (simp add: word_less_nat_alt unat_word_ariths(1))

lemma upserted_entry_simps [simp]:
  "dp_occupied (upserted_entry v now None)"
  "dp_occupied e \<Longrightarrow> dp_occupied (upserted_entry v now (Some e))"
  "dp_last_seen_ns (upserted_entry v now old) = now"
  "dp_expires_at_ns (upserted_entry v now old) = now + pd_lease_duration_ns (sv_participant v)"
  by (simp_all add: upserted_entry_def Let_def split: option.splits)

lemma upserted_entry_key:
  assumes "\<And>e. old = Some e \<Longrightarrow> dp_key e = pd_guid_prefix (sv_participant v)"
  shows "dp_key (upserted_entry v now old) = pd_guid_prefix (sv_participant v)"
  using assms by (simp add: upserted_entry_def Let_def dp_key_def split: option.splits)

text \<open>The insertion of an accepted announcement: the slot it goes to and the new entries.\<close>

lemma participant_upsert_eq:
  fixes v :: spdp_view
  assumes "participant_inv t"
  defines "k \<equiv> pd_guid_prefix (sv_participant v)"
  shows "if upsert_allowed v now t
    then \<exists>i. i < length (pt_entries t) \<and>
      (dp_occupied (pt_entries t ! i) \<and> dp_key (pt_entries t ! i) = k \<and> participants t k = Some (pt_entries t ! i) \<or>
       \<not> dp_occupied (pt_entries t ! i) \<and> participants t k = None) \<and>
      participant_upsert v now t = ((spdp_none, if participants t k = None then pu_added else pu_refreshed, i),
        t\<lparr>pt_entries := (pt_entries t)[i := upserted_entry v now (participants t k)],
          pt_size := (if participants t k = None then pt_size t + 1 else pt_size t), pt_last_time_ns := now\<rparr>)
    else \<exists>e i. e \<noteq> spdp_none \<and> participant_upsert v now t = ((e, pu_none, i), t)"
proof -
  have one: "1 \<le> unat lease \<longleftrightarrow> lease \<noteq> 0" for lease :: u64 by (auto simp: Suc_le_eq unat_gt_0)
  have allowed: "upsert_allowed v now t \<longleftrightarrow> \<not> now < pt_last_time_ns t \<and> k \<noteq> pt_local_guid_prefix t \<and>
      pd_lease_duration_ns (sv_participant v) \<noteq> 0 \<and> \<not> pd_lease_duration_ns (sv_participant v) > UINT64_MAX - now \<and>
      (case participants t k of Some e \<Rightarrow> \<not> sv_sequence_number v < dp_sequence_number e
       | None \<Rightarrow> participant_count t < length (pt_entries t))"
    unfolding upsert_allowed_def Let_def lease_guard [unfolded not_less] one not_less k_def ..
  have full: "e\<lparr>dp_data := a, dp_sequence_number := b, dp_last_seen_ns := c, dp_expires_at_ns := d\<rparr> =
      \<lparr>dp_data = a, dp_sequence_number = b, dp_last_seen_ns = c, dp_expires_at_ns = d, dp_occupied = dp_occupied e\<rparr>"
    "e\<lparr>dp_data := a, dp_sequence_number := b, dp_last_seen_ns := c, dp_expires_at_ns := d, dp_occupied := True\<rparr> =
      \<lparr>dp_data = a, dp_sequence_number = b, dp_last_seen_ns = c, dp_expires_at_ns = d, dp_occupied = True\<rparr>" for e a b c d
    by (cases e; simp)+
  have same: "t\<lparr>pt_entries := x, pt_size := pt_size t, pt_last_time_ns := n\<rparr> = t\<lparr>pt_entries := x, pt_last_time_ns := n\<rparr>" for x n
    by (cases t) simp
  note defs = allowed participant_upsert_def Let_def upserted_entry_def full k_def [symmetric]
  show ?thesis
  proof (cases "find_index (slot_live dp_occupied dp_key k) (pt_entries t)")
    case (Some i)
    note found = ptable.found [OF Some, folded participants_def]
    show ?thesis using Some found by (simp add: defs same)
  next
    case None
    then have absent: "participants t k = None" by (simp add: participants_def slot_map_def)
    show ?thesis
    proof (cases "find_index (\<lambda>e. \<not> dp_occupied e) (pt_entries t)")
      case (Some i)
      note free = ptable.free [OF Some, folded participant_count_def]
      show ?thesis using None absent Some free by (simp add: defs)
    next
      case full: None
      with ptable.no_free [OF full, folded participant_count_def] None absent show ?thesis by (simp add: defs)
    qed
  qed
qed

lemma participant_upsert_inv:
  assumes "participant_inv t"
  shows "participant_inv (snd (participant_upsert v now t))"
    "length (pt_entries (snd (participant_upsert v now t))) = length (pt_entries t)"
    "upsert_allowed v now t \<Longrightarrow> participants (snd (participant_upsert v now t)) =
       (participants t)(pd_guid_prefix (sv_participant v) \<mapsto>
          upserted_entry v now (participants t (pd_guid_prefix (sv_participant v))))"
proof -
  let ?k = "pd_guid_prefix (sv_participant v)" and ?t' = "snd (participant_upsert v now t)"
  let ?e = "upserted_entry v now (participants t ?k)"
  have "participant_inv ?t' \<and> length (pt_entries ?t') = length (pt_entries t) \<and>
    (upsert_allowed v now t \<longrightarrow> participants ?t' = (participants t)(?k \<mapsto> ?e))"
  proof (cases "upsert_allowed v now t")
    case True
    with participant_upsert_eq [OF assms, of v now] obtain i where i: "i < length (pt_entries t)"
      and slot: "dp_occupied (pt_entries t ! i) \<and> dp_key (pt_entries t ! i) = ?k \<and> participants t ?k = Some (pt_entries t ! i) \<or>
       \<not> dp_occupied (pt_entries t ! i) \<and> participants t ?k = None"
      and t': "?t' = t\<lparr>pt_entries := (pt_entries t)[i := ?e],
          pt_size := (if participants t ?k = None then pt_size t + 1 else pt_size t), pt_last_time_ns := now\<rparr>" by auto
    have e: "dp_occupied ?e" "dp_key ?e = ?k" using slot by (auto intro: upserted_entry_key)
    have allowed: "pt_last_time_ns t \<le> now" "?k \<noteq> pt_local_guid_prefix t"
      "now < now + pd_lease_duration_ns (sv_participant v)"
      using True lease_expiry by (simp_all add: upsert_allowed_def Let_def)
    have old: "dp_key e \<noteq> pt_local_guid_prefix t \<and> dp_last_seen_ns e \<le> now \<and> dp_last_seen_ns e < dp_expires_at_ns e"
      if "e \<in> set (pt_entries t)" "dp_occupied e" for e
      using assms that allowed(1) by (auto simp: participant_inv_def list_all_iff)
    have "participant_inv ?t'"
      using assms ptable.store [OF _ i e, folded participants_def] ptable.store_count [OF i e(1)] slot e allowed old
      by (auto simp: participant_inv_def t' participant_count_def list_all_iff participants_def dest!: set_update_subset_insert [THEN subsetD])
    then show ?thesis
      using ptable.store(2) [OF _ i e] slot assms by (auto simp: t' participants_def participant_inv_def)
  next
    case False
    with participant_upsert_eq [OF assms, of v now] assms show ?thesis by auto
  qed
  then show "participant_inv ?t'" "length (pt_entries ?t') = length (pt_entries t)"
    "upsert_allowed v now t \<Longrightarrow> participants ?t' = (participants t)(?k \<mapsto> ?e)" by blast+
qed

lemma participant_expire_eq:
  assumes "op_ok (Expire now expired capacity)"
  shows "participant_expire now expired capacity t =
    (let ks = due_keys now (pt_entries t)
     in if now < pt_last_time_ns t then Some (spdp_time_regression, expired, 0, t)
        else if ks \<noteq> [] \<and> expired = None then Some (spdp_invalid_argument, expired, 0, t)
        else if length ks > capacity then Some (spdp_action_capacity_exceeded, expired, 0, t)
        else Some (spdp_none, map_option (\<lambda>out. ks @ drop (length ks) out) expired, length ks,
          t\<lparr>pt_entries := slot_remove dp_occupied blank_participant (lease_due now) (pt_entries t),
            pt_size := pt_size t - length ks, pt_last_time_ns := now\<rparr>))"
proof -
  let ?ks = "due_keys now (pt_entries t)" and ?out = "case expired of None \<Rightarrow> [] | Some out \<Rightarrow> out"
  have len: "length (filter (\<lambda>e. dp_occupied e \<and> lease_due now e) (pt_entries t)) = length ?ks" by (simp add: due_keys_def slot_due_def)
  have loop: "for_loop 0 (length (pt_entries t)) (expire_step now) (pt_entries t, ?out, 0, pt_size t) =
      Some (slot_remove dp_occupied blank_participant (lease_due now) (pt_entries t), ?ks @ drop (length ?ks) ?out,
        length ?ks, pt_size t - length ?ks)" if "length ?ks \<le> length ?out"
    using ptable.sweep_loop [of 0 "lease_due now" "pt_entries t" ?out "[]" dp_key "pt_size t"] that
    by (simp add: due_keys_def expire_step_def)
  show ?thesis
  proof (cases expired)
    case None
    with loop show ?thesis by (simp add: participant_expire_def len Let_def)
  next
    case (Some out)
    with loop assms show ?thesis by (simp add: participant_expire_def len Let_def)
  qed
qed

lemma due_keys_set:
  assumes "slot_distinct dp_occupied dp_key (pt_entries t)"
  shows "set (due_keys now (pt_entries t)) = {k. \<exists>e. participants t k = Some e \<and> dp_expires_at_ns e \<le> now}"
    "distinct (due_keys now (pt_entries t))"
  using ptable.due_keys [OF assms, of "lease_due now"] by (simp_all add: due_keys_def participants_def lease_due_def)

lemma participant_removed:
  assumes "participant_inv t" "pt_last_time_ns t \<le> now"
  defines "t' \<equiv> t\<lparr>pt_entries := slot_remove dp_occupied blank_participant (lease_due now) (pt_entries t),
            pt_size := pt_size t - length (due_keys now (pt_entries t)), pt_last_time_ns := now\<rparr>"
  shows "participant_inv t'" "participants t' = (\<lambda>k. live_at now (participants t k))"
proof -
  have dist: "slot_distinct dp_occupied dp_key (pt_entries t)" using assms(1) by (simp add: participant_inv_def)
  have "list_all (\<lambda>e. dp_occupied e \<longrightarrow> dp_key e \<noteq> pt_local_guid_prefix t \<and> dp_last_seen_ns e \<le> now \<and>
      dp_last_seen_ns e < dp_expires_at_ns e) (slot_remove dp_occupied blank_participant (lease_due now) (pt_entries t))"
    using assms(1,2) by (auto simp: participant_inv_def slot_remove_def list_all_iff blank_participant_def)
  with ptable.remove(1) [OF dist] ptable.remove_count [of "lease_due now" "pt_entries t"] assms(1)
  show "participant_inv t'"
    by (simp add: participant_inv_def t'_def participant_count_def due_keys_def)
  show "participants t' = (\<lambda>k. live_at now (participants t k))"
    using ptable.remove(2) [OF dist, of "lease_due now"]
    by (auto simp: t'_def participants_def live_at_def lease_due_def fun_eq_iff split: option.split)
qed

lemma participant_new_inv: "participant_inv (participant_table_new capacity prefix)"
  using ptable.blank_table [of capacity]
  by (simp add: participant_inv_def participant_table_new_def participant_count_def list_all_iff blank_participant_def)

text \<open>What any operation does to the table and to the entry of one participant.\<close>

lemma participant_run_ok:
  assumes "participant_inv t" "op_ok operation"
  shows "\<exists>t'. participant_run operation t = Some t' \<and> participant_inv t' \<and>
    length (pt_entries t') = length (pt_entries t) \<and> pt_local_guid_prefix t' = pt_local_guid_prefix t \<and>
    (\<not> announces k operation \<longrightarrow> participants t' k \<in> {participants t k, live_at (op_time operation) (participants t k)})"
proof (cases operation)
  case (Upsert v now)
  let ?t' = "snd (participant_upsert v now t)"
  have "participants ?t' k = participants t k" if "pd_guid_prefix (sv_participant v) \<noteq> k"
  proof (cases "upsert_allowed v now t")
    case False
    with participant_upsert_eq [OF assms(1), of v now] show ?thesis by auto
  qed (use participant_upsert_inv(3) [OF assms(1)] that in simp)
  moreover have "pt_local_guid_prefix ?t' = pt_local_guid_prefix t"
    using participant_upsert_eq [OF assms(1), of v now] by (auto split: if_splits)
  ultimately show ?thesis using Upsert participant_upsert_inv(1,2) [OF assms(1), of v now] by simp
next
  case (Expire now expired capacity)
  with assms participant_removed [OF assms(1), of now] show ?thesis
    by (auto simp: participant_expire_eq Let_def not_less slot_remove_def)
qed

lemma participant_runs_ok:
  assumes "participant_inv t" "list_all op_ok ops" "list_all (\<lambda>operation. \<not> announces k operation) ops"
  shows "\<exists>t'. participant_runs ops t = Some t' \<and> participant_inv t' \<and> length (pt_entries t') = length (pt_entries t) \<and>
    participants t' k \<in> {participants t k, None} \<and>
    (\<forall>e. participants t k = Some e \<and> list_all (\<lambda>operation. op_time operation < dp_expires_at_ns e) ops \<longrightarrow>
       participants t' k = Some e)"
  using assms
proof (induction ops arbitrary: t)
  case (Cons operation ops)
  from participant_run_ok [of t operation k] Cons.prems obtain t1 where
    t1: "participant_run operation t = Some t1" "participant_inv t1" "length (pt_entries t1) = length (pt_entries t)"
    "participants t1 k \<in> {participants t k, live_at (op_time operation) (participants t k)}" by auto
  from Cons.IH [OF t1(2)] Cons.prems obtain t2 where
    t2: "participant_runs ops t1 = Some t2" "participant_inv t2" "length (pt_entries t2) = length (pt_entries t1)"
    "participants t2 k \<in> {participants t1 k, None}"
    "\<forall>e. participants t1 k = Some e \<and> list_all (\<lambda>operation. op_time operation < dp_expires_at_ns e) ops \<longrightarrow>
       participants t2 k = Some e" by auto
  have "participants t2 k \<in> {participants t k, None}"
    using t1(4) t2(4) by (auto simp: live_at_def split: option.splits if_splits)
  moreover have "participants t1 k = Some e" if "participants t k = Some e" "op_time operation < dp_expires_at_ns e" for e
    using t1(4) that by (auto simp: live_at_def)
  ultimately show ?case using t1 t2 by auto
qed simp

lemma reachable_inv:
  "participant_reachable capacity prefix t \<Longrightarrow>
   participant_inv t \<and> length (pt_entries t) = capacity \<and> pt_local_guid_prefix t = prefix"
proof (induction rule: participant_reachable.induct)
  case new
  then show ?case by (simp add: participant_new_inv) (simp add: participant_table_new_def)
next
  case (run t operation t')
  with participant_run_ok [of t operation "[]"] show ?case by auto
qed

lemma demo_table_reachable: "participant_reachable 2 [9, 9, 9, 9, 9, 9, 9, 9, 9, 9, 9, 9] demo_table"
  unfolding demo_table_def
  by (rule participant_reachable.run [OF participant_reachable.new, of "Upsert demo_view 100"]) simp_all

lemma demo_table_entry:
  "participants demo_table (pd_guid_prefix demo_participant) =
     Some \<lparr>dp_data = demo_participant, dp_sequence_number = 3, dp_last_seen_ns = 100, dp_expires_at_ns = 1500000101,
       dp_occupied = True\<rparr>" "pt_last_time_ns demo_table = 100"
  by code_simp+

text \<open>C9: Over every sequence of announcements and expiry sweeps, with output arrays as long as
  stated, the table holds at most one entry per GUID prefix and none for the local participant, its
  size counter is the number of participants and stays within the capacity, and every entry was last
  seen no later than the table's clock and before its lease ends.\<close>

theorem participant_table_invariant:
  assumes "participant_reachable capacity prefix t"
  shows "pt_size t = card (dom (participants t)) \<and> pt_size t \<le> capacity \<and> participants t prefix = None \<and>
    (\<forall>k e. participants t k = Some e \<longrightarrow> pd_guid_prefix (dp_data e) = k \<and>
       dp_last_seen_ns e \<le> pt_last_time_ns t \<and> dp_last_seen_ns e < dp_expires_at_ns e)"
proof -
  have inv: "participant_inv t" "length (pt_entries t) = capacity" "pt_local_guid_prefix t = prefix"
    using reachable_inv [OF assms] by blast+
  have card: "pt_size t = card (dom (participants t))"
    using inv(1) ptable.map_card by (simp add: participant_inv_def participants_def participant_count_def)
  moreover have "pt_size t \<le> capacity" using inv by (simp add: participant_inv_def participant_count_def length_filter_le flip: inv(2))
  moreover have entry: "dp_key e = k \<and> k \<noteq> prefix \<and> dp_last_seen_ns e \<le> pt_last_time_ns t \<and> dp_last_seen_ns e < dp_expires_at_ns e"
    if "participants t k = Some e" for k e
    using ptable.map_SomeD [OF that [unfolded participants_def]] inv(1,3)
    by (auto simp: participant_inv_def list_all_length)
  moreover have "participants t prefix = None" using entry [of prefix] by (cases "participants t prefix") auto
  ultimately show ?thesis by (auto simp: dp_key_def)
qed

theorem participant_table_invariant_witness:
  "pt_size demo_table = card (dom (participants demo_table)) \<and> pt_size demo_table \<le> 2 \<and>
   participants demo_table [9, 9, 9, 9, 9, 9, 9, 9, 9, 9, 9, 9] = None"
  using participant_table_invariant [OF demo_table_reachable] by simp

text \<open>C23: An announcement is stored exactly when time has not gone backwards, it is not the local
  participant's, its lease is positive and does not overflow the clock, and it is not older than the
  stored one or, for a new participant, a slot is free. The table then maps its prefix to the new
  entry and nothing else changes; a refused announcement changes nothing and gives an error.\<close>

theorem participant_upsert_correct:
  assumes "participant_inv t"
  shows "case participant_upsert v now_ns t of ((e, update, index), t') \<Rightarrow>
    participant_inv t' \<and>
    (if upsert_allowed v now_ns t
     then e = spdp_none \<and> update = (if participants t (pd_guid_prefix (sv_participant v)) = None then pu_added else pu_refreshed) \<and>
       participants t' = (participants t)(pd_guid_prefix (sv_participant v) \<mapsto>
          upserted_entry v now_ns (participants t (pd_guid_prefix (sv_participant v)))) \<and>
       index < length (pt_entries t') \<and>
       participant_find (pd_guid_prefix (sv_participant v)) t' = Some (pt_entries t' ! index)
     else e \<noteq> spdp_none \<and> update = pu_none \<and> t' = t)"
proof -
  let ?k = "pd_guid_prefix (sv_participant v)"
  show ?thesis
  proof (cases "upsert_allowed v now_ns t")
    case True
    with participant_upsert_eq [OF assms, of v now_ns] obtain i where i: "i < length (pt_entries t)"
      and up: "participant_upsert v now_ns t = ((spdp_none, if participants t ?k = None then pu_added else pu_refreshed, i),
        t\<lparr>pt_entries := (pt_entries t)[i := upserted_entry v now_ns (participants t ?k)],
          pt_size := (if participants t ?k = None then pt_size t + 1 else pt_size t), pt_last_time_ns := now_ns\<rparr>)" by auto
    have find: "participant_find k t' = participants t' k" for k t'
      by (simp add: participant_find_def participants_def slot_map_def)
    show ?thesis
      using True i participant_upsert_inv [OF assms, of v now_ns] unfolding up by (simp add: find)
  next
    case False
    with participant_upsert_eq [OF assms, of v now_ns] assms show ?thesis by auto
  qed
qed

theorem participant_upsert_correct_witness:
  "participant_inv (participant_table_new 2 [9, 9, 9, 9, 9, 9, 9, 9, 9, 9, 9, 9]) \<and>
   (case participant_upsert demo_view 100 (participant_table_new 2 [9, 9, 9, 9, 9, 9, 9, 9, 9, 9, 9, 9]) of
      ((e, update, index), t') \<Rightarrow> participant_inv t' \<and> e = spdp_none)"
proof -
  let ?t = "participant_table_new 2 [9, 9, 9, 9, 9, 9, 9, 9, 9, 9, 9, 9]"
  have "participants ?t k = None" for k by (simp add: participants_def participant_table_new_def ptable.blank_table)
  moreover have "participant_count ?t = 0" "length (pt_entries ?t) = 2" "pt_last_time_ns ?t = 0"
    "pt_local_guid_prefix ?t = [9, 9, 9, 9, 9, 9, 9, 9, 9, 9, 9, 9]"
    using ptable.blank_table(3) by (simp_all add: participant_count_def participant_table_new_def)
  ultimately have "upsert_allowed demo_view 100 ?t"
    by (simp add: upsert_allowed_def demo_view_def demo_participant_def)
  with participant_upsert_correct [OF participant_new_inv, of demo_view 100 2 "[9, 9, 9, 9, 9, 9, 9, 9, 9, 9, 9, 9]"]
  show ?thesis by (simp add: participant_new_inv split: prod.splits)
qed

text \<open>C25: An expiry sweep succeeds exactly when time has not gone backwards and the output array can
  hold the prefixes of all lapsed participants. It then removes exactly the participants whose lease
  has ended and reports each of them once; a sweep that fails changes nothing and reports none.\<close>

theorem participant_expire_correct:
  assumes "participant_inv t" "op_ok (Expire now_ns expired capacity)"
  shows "\<exists>e out n t'. participant_expire now_ns expired capacity t = Some (e, out, n, t') \<and> participant_inv t' \<and>
    (let lapsed = {k. \<exists>p. participants t k = Some p \<and> dp_expires_at_ns p \<le> now_ns}
     in if pt_last_time_ns t \<le> now_ns \<and> card lapsed \<le> capacity \<and> (lapsed = {} \<or> expired \<noteq> None)
        then e = spdp_none \<and> n = card lapsed \<and> (\<forall>k. participants t' k = live_at now_ns (participants t k)) \<and>
          (case out of None \<Rightarrow> lapsed = {} | Some ks \<Rightarrow> set (take n ks) = lapsed \<and> distinct (take n ks))
        else e \<noteq> spdp_none \<and> out = expired \<and> n = 0 \<and> t' = t)"
proof -
  let ?ks = "due_keys now_ns (pt_entries t)"
  have dist: "slot_distinct dp_occupied dp_key (pt_entries t)" using assms(1) by (simp add: participant_inv_def)
  note ks = due_keys_set [OF dist, of now_ns]
  have card: "card {k. \<exists>p. participants t k = Some p \<and> dp_expires_at_ns p \<le> now_ns} = length ?ks"
    using ks by (metis distinct_card)
  have empty: "{k. \<exists>p. participants t k = Some p \<and> dp_expires_at_ns p \<le> now_ns} = {} \<longleftrightarrow> ?ks = []"
    using ks(1) by (metis set_empty)
  show ?thesis
    unfolding participant_expire_eq [OF assms(2)] Let_def card empty ks(1) [symmetric]
    using assms(1) participant_removed [OF assms(1), of now_ns] ks(2)
    by (cases expired) (auto simp: not_less not_le distinct_card [OF ks(2)] split: if_splits)
qed

theorem participant_expire_correct_witness:
  "\<exists>e out n t'. participant_expire 1500000101 (Some [[]]) 1 demo_table = Some (e, out, n, t') \<and> participant_inv t'"
proof -
  have "participant_inv demo_table" using reachable_inv [OF demo_table_reachable] by blast
  then show ?thesis using participant_expire_correct [of demo_table 1500000101 "Some [[]]" 1] by auto
qed

theorem spdp_build_correct_witness:
  "\<exists>d'. spdp_build demo_announcement (spdp_builder_new (Span (replicate 1000 0))) = Some (sb_error d' = spdp_none, d') \<and>
     sb_size d' \<le> 1000"
  using spdp_build_correct [of demo_announcement "spdp_builder_new (Span (replicate 1000 0))"] demo_announcement_ok(1)
  by (auto simp: spdp_builder_new_def demo_announcement_def)

text \<open>C11: A participant that stops announcing itself stays in the table through every sequence of
  operations timed before the end of its lease, and is gone after the first sweep at or after the end
  of its lease, which cannot fail when the output array is as long as the table.\<close>

theorem lease_governs_presence:
  assumes "participant_reachable capacity prefix t" "participants t k = Some e"
    "list_all op_ok ops" "list_all (\<lambda>operation. \<not> announces k operation) ops"
  shows "\<exists>t1. participant_runs ops t = Some t1 \<and>
    (list_all (\<lambda>operation. op_time operation < dp_expires_at_ns e) ops \<longrightarrow> participants t1 k = Some e) \<and>
    (\<forall>now_ns out. dp_expires_at_ns e \<le> now_ns \<and> pt_last_time_ns t1 \<le> now_ns \<and> capacity \<le> length out \<longrightarrow>
       (\<exists>out' n t2. participant_expire now_ns (Some out) (length out) t1 = Some (spdp_none, Some out', n, t2) \<and>
          participants t2 k = None))"
proof -
  have inv: "participant_inv t" "length (pt_entries t) = capacity" using reachable_inv [OF assms(1)] by blast+
  from participant_runs_ok [OF inv(1) assms(3,4)] assms(2) inv(2) obtain t1 where
    t1: "participant_runs ops t = Some t1" "participant_inv t1" "length (pt_entries t1) = capacity"
    "participants t1 k \<in> {Some e, None}"
    "list_all (\<lambda>operation. op_time operation < dp_expires_at_ns e) ops \<Longrightarrow> participants t1 k = Some e" by auto
  have "\<exists>out' n t2. participant_expire now_ns (Some out) (length out) t1 = Some (spdp_none, Some out', n, t2) \<and>
      participants t2 k = None"
    if "dp_expires_at_ns e \<le> now_ns" "pt_last_time_ns t1 \<le> now_ns" "capacity \<le> length out" for now_ns out
  proof -
    have "length (due_keys now_ns (pt_entries t1)) \<le> length out"
      using that(3) t1(3) by (simp add: due_keys_def slot_due_def le_trans [OF length_filter_le])
    with participant_removed(2) [OF t1(2) that(2)] t1(4) that show ?thesis
      by (auto simp: participant_expire_eq Let_def live_at_def not_less)
  qed
  with t1 show ?thesis by blast
qed

theorem lease_governs_presence_witness:
  "\<exists>e t1. participants demo_table (pd_guid_prefix demo_participant) = Some e \<and>
     participant_runs [Expire 200 None 0] demo_table = Some t1 \<and>
     participants t1 (pd_guid_prefix demo_participant) = Some e"
proof -
  from lease_governs_presence [OF demo_table_reachable demo_table_entry(1), of "[Expire 200 None 0]"] demo_table_entry(1)
  show ?thesis by simp blast
qed

end
