(* ===== verification/Sedp.thy ===== *)
theory Sedp
  imports Spdp
begin

text \<open>
  Endpoint discovery, \<open>src/include/openrtdds/rtps/sedp.hpp\<close> and \<open>src/src/rtps/sedp.cpp\<close>: the
  announcement builder and parser for publications and subscriptions, the table of discovered
  endpoints, and the matching of a local endpoint with a remote one. The reliability and durability
  kinds are enumerations over \<open>std::int32_t\<close> that may hold any value, so they are bit patterns.
\<close>

unbundle bit_operations_syntax

section \<open>Model\<close>

definition sedp_max_topic_name :: nat where "sedp_max_topic_name = 255"

definition sedp_max_type_name :: nat where "sedp_max_type_name = 255"

text \<open>The enumeration has a byte for its values, and nothing checks that one of the two is given.\<close>

datatype endpoint_kind = ek_writer | ek_reader | ek_other byte

definition rk_best_effort :: u32 where "rk_best_effort = 1"

definition rk_reliable :: u32 where "rk_reliable = 2"

definition dk_volatile_durability :: u32 where "dk_volatile_durability = 0"

definition dk_transient_local :: u32 where "dk_transient_local = 1"

datatype sedp_error =
  sedp_none | sedp_invalid_argument | sedp_invalid_configuration | sedp_buffer_overflow | sedp_rtps_error
  | sedp_unsupported_representation | sedp_malformed_parameter | sedp_unknown_required_parameter
  | sedp_missing_required_parameter | sedp_duplicate_parameter | sedp_locator_bound_exceeded
  | sedp_invalid_locator | sedp_invalid_duration | sedp_invalid_identity | sedp_participant_mismatch
  | sedp_table_full | sedp_stale_announcement | sedp_endpoint_not_found | sedp_action_capacity_exceeded

record sedp_endpoint =
  ed_protocol_version :: protocol_version
  ed_vendor_id :: vendor_id
  ed_participant_guid_prefix :: guid_prefix
  ed_endpoint_id :: entity_id
  ed_kind :: endpoint_kind
  ed_topic_name :: "byte list"
  ed_topic_name_size :: nat
  ed_type_name :: "byte list"
  ed_type_name_size :: nat
  ed_unicast_locators :: locator_list
  ed_multicast_locators :: locator_list
  ed_reliability :: u32
  ed_durability :: u32
  ed_max_blocking_time_ns :: u64
  ed_expects_inline_qos :: bool

definition default_endpoint :: sedp_endpoint where
  "default_endpoint =
     \<lparr>ed_protocol_version = \<lparr>pv_major = 2, pv_minor = 5\<rparr>, ed_vendor_id = replicate 2 0,
      ed_participant_guid_prefix = replicate 12 0, ed_endpoint_id = replicate 4 0, ed_kind = ek_writer,
      ed_topic_name = replicate (sedp_max_topic_name + 1) 0, ed_topic_name_size = 0,
      ed_type_name = replicate (sedp_max_type_name + 1) 0, ed_type_name_size = 0,
      ed_unicast_locators = empty_locators, ed_multicast_locators = empty_locators,
      ed_reliability = rk_best_effort, ed_durability = dk_volatile_durability,
      ed_max_blocking_time_ns = 100000000, ed_expects_inline_qos = False\<rparr>"

record sedp_config =
  ec_endpoint :: sedp_endpoint
  ec_reader_id :: entity_id
  ec_sequence_number :: u64
  ec_submessage_byte_order :: byte_order
  ec_parameter_byte_order :: byte_order

record sedp_builder =
  eb_buffer :: span
  eb_size :: nat
  eb_error :: sedp_error
  eb_rtps_error :: rtps_error

record sedp_view =
  ev_endpoint :: sedp_endpoint
  ev_sequence_number :: u64
  ev_submessage_byte_order :: byte_order
  ev_parameter_byte_order :: byte_order

definition pid_topic_name :: u16 where "pid_topic_name = 0x0005"
definition pid_type_name :: u16 where "pid_type_name = 0x0007"
definition pid_reliability :: u16 where "pid_reliability = 0x001A"
definition pid_durability :: u16 where "pid_durability = 0x001D"
definition pid_unicast_locator :: u16 where "pid_unicast_locator = 0x002F"
definition pid_multicast_locator :: u16 where "pid_multicast_locator = 0x0030"
definition pid_endpoint_guid :: u16 where "pid_endpoint_guid = 0x005A"

definition sedp_payload_capacity :: nat where "sedp_payload_capacity = 1280"

definition entity_id_publications_writer :: entity_id where "entity_id_publications_writer = [0, 0, 3, 0xC2]"
definition entity_id_publications_reader :: entity_id where "entity_id_publications_reader = [0, 0, 3, 0xC7]"
definition entity_id_subscriptions_writer :: entity_id where "entity_id_subscriptions_writer = [0, 0, 4, 0xC2]"
definition entity_id_subscriptions_reader :: entity_id where "entity_id_subscriptions_reader = [0, 0, 4, 0xC7]"

definition valid_endpoint_id :: "entity_id \<Rightarrow> endpoint_kind \<Rightarrow> bool" where
  "valid_endpoint_id eid kind =
     (let entity_kind = eid ! 3
      in if eid ! 0 OR eid ! 1 OR eid ! 2 = 0 then False
         else if kind = ek_writer then entity_kind = 0x02 \<or> entity_kind = 0x03
         else entity_kind = 0x04 \<or> entity_kind = 0x07)"

definition valid_reliability :: "u32 \<Rightarrow> bool" where
  "valid_reliability kind \<longleftrightarrow> kind = rk_best_effort \<or> kind = rk_reliable"

definition valid_durability :: "u32 \<Rightarrow> bool" where
  "valid_durability kind \<longleftrightarrow> kind = dk_volatile_durability \<or> kind = dk_transient_local"

definition valid_text :: "byte list \<Rightarrow> nat \<Rightarrow> bool" where
  "valid_text string_text n \<longleftrightarrow> \<not> (n = 0 \<or> n \<ge> length string_text) \<and> list_all (\<lambda>b. b \<noteq> 0) (take n string_text)"

subsection \<open>Building\<close>

definition append_guid :: "u16 \<Rightarrow> guid_prefix \<Rightarrow> entity_id \<Rightarrow> parameter_step" where
  "append_guid pid prefix entity =
     append_value pid 16 (\<lambda>value b. do {
       b \<leftarrow> wr_block b value prefix;
       wr_block b (value + 12) entity })"

definition append_duration :: "byte_order \<Rightarrow> nat \<Rightarrow> u64 \<Rightarrow> byte list \<Rightarrow> (bool \<times> byte list) option" where
  "append_duration order off d b =
     (if duration_seconds d > 0x7FFFFFFF then Some (False, b)
      else do { b \<leftarrow> write_duration order off d b; Some (True, b) })"

definition append_reliability :: "sedp_endpoint \<Rightarrow> byte_order \<Rightarrow> parameter_step" where
  "append_reliability e order w = do {
     (value, w) \<leftarrow> parameter_append pid_reliability 12 w;
     case value of
       None \<Rightarrow> Some (False, w)
     | Some off \<Rightarrow> do {
         b \<leftarrow> write_u32 order off (ed_reliability e) (pw_buffer w);
         (complete, b) \<leftarrow> append_duration order (off + 4) (ed_max_blocking_time_ns e) b;
         Some (complete, w\<lparr>pw_buffer := b\<rparr>) } }"

definition sedp_parameters :: "sedp_endpoint \<Rightarrow> byte_order \<Rightarrow> parameter_step" where
  "sedp_parameters e order =
     and_also (append_guid pid_endpoint_guid (ed_participant_guid_prefix e) (ed_endpoint_id e))
    (and_also (append_guid pid_participant_guid (ed_participant_guid_prefix e) entity_id_participant)
    (and_also (append_string pid_topic_name (ed_topic_name e) (ed_topic_name_size e) order)
    (and_also (append_string pid_type_name (ed_type_name e) (ed_type_name_size e) order)
    (and_also (append_reliability e order)
    (and_also (append_value pid_durability 4 (\<lambda>value b. write_u32 order value (ed_durability e) b))
    (and_also (append_value pid_expects_inline_qos 1 (\<lambda>value b. wr b value (if ed_expects_inline_qos e then 1 else 0)))
    (and_also (append_locators pid_unicast_locator (ed_unicast_locators e) order)
    (and_also (append_locators pid_multicast_locator (ed_multicast_locators e) order)
     parameter_finish))))))))"

definition sedp_builder_new :: "span \<Rightarrow> sedp_builder" where
  "sedp_builder_new buffer =
     \<lparr>eb_buffer = buffer, eb_size = 0,
      eb_error = (if null_span buffer \<and> span_size buffer \<noteq> 0 then sedp_invalid_argument else sedp_none),
      eb_rtps_error = rtps_none\<rparr>"

definition sedp_data_config :: "sedp_config \<Rightarrow> data_message_config" where
  "sedp_data_config c =
     \<lparr>dc_version = ed_protocol_version (ec_endpoint c), dc_vendor_id = ed_vendor_id (ec_endpoint c),
      dc_guid_prefix = ed_participant_guid_prefix (ec_endpoint c), dc_reader_id = ec_reader_id c,
      dc_writer_id = (if ed_kind (ec_endpoint c) = ek_writer then entity_id_publications_writer
                      else entity_id_subscriptions_writer),
      dc_sequence_number = ec_sequence_number c, dc_byte_order = ec_submessage_byte_order c\<rparr>"

definition sedp_fail :: "sedp_error \<Rightarrow> sedp_builder \<Rightarrow> (bool \<times> sedp_builder) option" where
  "sedp_fail e d = Some (False, d\<lparr>eb_error := e\<rparr>)"

definition sedp_build :: "sedp_config \<Rightarrow> sedp_builder \<Rightarrow> (bool \<times> sedp_builder) option" where
  "sedp_build c d =
     (let d = d\<lparr>eb_size := 0, eb_error := sedp_none, eb_rtps_error := rtps_none\<rparr>;
          e = ec_endpoint c;
          expected_reader = (if ed_kind e = ek_writer then entity_id_publications_reader else entity_id_subscriptions_reader)
      in if null_span (eb_buffer d) \<and> span_size (eb_buffer d) \<noteq> 0 \<or>
            \<not> supported_byte_order (ec_submessage_byte_order c) \<or> \<not> supported_byte_order (ec_parameter_byte_order c)
         then sedp_fail sedp_invalid_argument d
         else if unsupported_version (ed_protocol_version e) \<or> \<not> nonzero_guid (ed_participant_guid_prefix e) \<or>
            \<not> valid_endpoint_id (ed_endpoint_id e) (ed_kind e) \<or>
            \<not> valid_text (ed_topic_name e) (ed_topic_name_size e) \<or>
            \<not> valid_text (ed_type_name e) (ed_type_name_size e) \<or>
            \<not> valid_reliability (ed_reliability e) \<or> \<not> valid_durability (ed_durability e) \<or>
            ec_reader_id c \<noteq> entity_id_unknown \<and> ec_reader_id c \<noteq> expected_reader \<or>
            size_add (ll_size (ed_unicast_locators e)) (ll_size (ed_multicast_locators e)) = 0
         then sedp_fail sedp_invalid_configuration d
         else if \<not> valid_locators (ed_unicast_locators e) \<or> \<not> valid_locators (ed_multicast_locators e)
         then sedp_fail sedp_invalid_locator d
         else do {
           w \<leftarrow> parameter_writer_new (replicate sedp_payload_capacity 0) (ec_parameter_byte_order c);
           (complete, w) \<leftarrow> sedp_parameters e (ec_parameter_byte_order c) w;
           if \<not> complete then sedp_fail sedp_buffer_overflow d
           else do {
             payload \<leftarrow> rd_block (pw_buffer w) 0 (pw_size w);
             (ok, b) \<leftarrow> data_build (sedp_data_config c) (Span payload) (data_builder_new (eb_buffer d));
             let d = d\<lparr>eb_buffer := db_buffer b\<rparr>;
             if \<not> ok then sedp_fail sedp_rtps_error (d\<lparr>eb_rtps_error := db_error b\<rparr>)
             else Some (True, d\<lparr>eb_size := db_size b\<rparr>) } })"

subsection \<open>Parsing\<close>

record sedp_parse =
  es_endpoint :: sedp_endpoint
  es_seen_endpoint :: bool
  es_seen_participant :: bool
  es_seen_locator :: bool
  es_seen_topic :: bool
  es_seen_type :: bool
  es_seen_reliability :: bool
  es_seen_durability :: bool
  es_seen_inline :: bool

text \<open>\<open>parse_duration\<close> on the eight bytes at \<open>off\<close>.\<close>

definition parse_duration :: "byte list \<Rightarrow> nat \<Rightarrow> byte_order \<Rightarrow> (sedp_error + u64) option" where
  "parse_duration value off order = do {
     seconds \<leftarrow> read_u32 order off value;
     if sint seconds < 0 then Some (Inl sedp_invalid_duration)
     else do {
       fraction \<leftarrow> read_u32 order (off + 4) value;
       Some (Inr (duration_value seconds fraction)) } }"

fun sedp_locator_error :: "locator_error \<Rightarrow> sedp_error" where
  "sedp_locator_error locator_none = sedp_none"
| "sedp_locator_error locator_malformed = sedp_malformed_parameter"
| "sedp_locator_error locator_invalid = sedp_invalid_locator"
| "sedp_locator_error locator_exceeded = sedp_locator_bound_exceeded"

text \<open>The string and its size, stored in an array of the capacity of \<open>output\<close>.\<close>

definition parse_string :: "byte list \<Rightarrow> byte_order \<Rightarrow> byte list \<Rightarrow> (sedp_error + byte list \<times> nat) option" where
  "parse_string value order output =
     (if length value < 8 then Some (Inl sedp_malformed_parameter)
      else do {
        encoded_size \<leftarrow> map_option unat (read_u32 order 0 value);
        if encoded_size \<le> 1 \<or> encoded_size > length value - 4 \<or> encoded_size > length output
        then Some (Inl sedp_malformed_parameter)
        else do {
          terminator \<leftarrow> rd value (4 + encoded_size - 1);
          if terminator \<noteq> 0 then Some (Inl sedp_malformed_parameter)
          else do {
            source \<leftarrow> rd_block value 4 (encoded_size - 1);
            if list_ex (\<lambda>b. b = 0) source then Some (Inl sedp_malformed_parameter)
            else do {
              output \<leftarrow> wr_block output 0 source;
              Some (Inr (output, encoded_size - 1)) } } } })"

definition sedp_locator ::
  "byte list \<Rightarrow> byte_order \<Rightarrow> (sedp_endpoint \<Rightarrow> locator_list) \<Rightarrow> (locator_list \<Rightarrow> sedp_endpoint) \<Rightarrow> sedp_parse
   \<Rightarrow> (sedp_error + sedp_parse) option" where
  "sedp_locator value order get put st = do {
     (e, ls) \<leftarrow> append_parsed_locator value order (get (es_endpoint st));
     Some (if e = locator_none then Inr (st\<lparr>es_endpoint := put ls, es_seen_locator := True\<rparr>)
           else Inl (sedp_locator_error e)) }"

definition sedp_reliability :: "byte list \<Rightarrow> byte_order \<Rightarrow> sedp_parse \<Rightarrow> (sedp_error + sedp_parse) option" where
  "sedp_reliability value order st =
     (if es_seen_reliability st then Some (Inl sedp_duplicate_parameter)
      else if length value \<noteq> 12 then Some (Inl sedp_malformed_parameter)
      else do {
        reliability \<leftarrow> read_u32 order 0 value;
        if \<not> valid_reliability reliability then Some (Inl sedp_malformed_parameter)
        else do {
          r \<leftarrow> parse_duration value 4 order;
          case r of
            Inl e \<Rightarrow> Some (Inl e)
          | Inr d \<Rightarrow> Some (Inr (st\<lparr>es_endpoint := (es_endpoint st)\<lparr>ed_reliability := reliability,
                ed_max_blocking_time_ns := d\<rparr>, es_seen_reliability := True\<rparr>)) } })"

definition sedp_parameter ::
  "guid_prefix \<Rightarrow> byte_order \<Rightarrow> u16 \<Rightarrow> byte list \<Rightarrow> sedp_parse \<Rightarrow> (sedp_error + sedp_parse) option" where
  "sedp_parameter expected order pid value st =
     (let p = es_endpoint st
      in if pid = 0 then Some (Inr st)
         else if pid = pid_endpoint_guid then
           (if es_seen_endpoint st then Some (Inl sedp_duplicate_parameter)
            else if length value \<noteq> 16 then Some (Inl sedp_malformed_parameter)
            else do {
              prefix \<leftarrow> rd_block value 0 12;
              if prefix \<noteq> expected then Some (Inl sedp_participant_mismatch)
              else do {
                entity \<leftarrow> rd_block value 12 4;
                Some (Inr (st\<lparr>es_endpoint := p\<lparr>ed_endpoint_id := entity\<rparr>, es_seen_endpoint := True\<rparr>)) } })
         else if pid = pid_participant_guid then
           (if es_seen_participant st then Some (Inl sedp_duplicate_parameter)
            else if length value \<noteq> 16 then Some (Inl sedp_malformed_parameter)
            else do {
              prefix \<leftarrow> rd_block value 0 12;
              entity \<leftarrow> rd_block value 12 4;
              if prefix \<noteq> expected \<or> entity \<noteq> entity_id_participant then Some (Inl sedp_participant_mismatch)
              else Some (Inr (st\<lparr>es_seen_participant := True\<rparr>)) })
         else if pid = pid_topic_name then
           (if es_seen_topic st then Some (Inl sedp_duplicate_parameter)
            else do {
              r \<leftarrow> parse_string value order (ed_topic_name p);
              case r of
                Inl e \<Rightarrow> Some (Inl e)
              | Inr (name, n) \<Rightarrow> Some (Inr (st\<lparr>es_endpoint := p\<lparr>ed_topic_name := name, ed_topic_name_size := n\<rparr>,
                    es_seen_topic := True\<rparr>)) })
         else if pid = pid_type_name then
           (if es_seen_type st then Some (Inl sedp_duplicate_parameter)
            else do {
              r \<leftarrow> parse_string value order (ed_type_name p);
              case r of
                Inl e \<Rightarrow> Some (Inl e)
              | Inr (name, n) \<Rightarrow> Some (Inr (st\<lparr>es_endpoint := p\<lparr>ed_type_name := name, ed_type_name_size := n\<rparr>,
                    es_seen_type := True\<rparr>)) })
         else if pid = pid_reliability then sedp_reliability value order st
         else if pid = pid_durability then
           (if es_seen_durability st then Some (Inl sedp_duplicate_parameter)
            else if length value \<noteq> 4 then Some (Inl sedp_malformed_parameter)
            else do {
              durability \<leftarrow> read_u32 order 0 value;
              if \<not> valid_durability durability then Some (Inl sedp_malformed_parameter)
              else Some (Inr (st\<lparr>es_endpoint := p\<lparr>ed_durability := durability\<rparr>, es_seen_durability := True\<rparr>)) })
         else if pid = pid_expects_inline_qos then
           (if es_seen_inline st then Some (Inl sedp_duplicate_parameter)
            else if length value \<noteq> 4 then Some (Inl sedp_malformed_parameter)
            else do {
              b \<leftarrow> rd value 0;
              if b > 1 then Some (Inl sedp_malformed_parameter)
              else Some (Inr (st\<lparr>es_endpoint := p\<lparr>ed_expects_inline_qos := (b \<noteq> 0)\<rparr>, es_seen_inline := True\<rparr>)) })
         else if pid = pid_unicast_locator
         then sedp_locator value order ed_unicast_locators (\<lambda>ls. p\<lparr>ed_unicast_locators := ls\<rparr>) st
         else if pid = pid_multicast_locator
         then sedp_locator value order ed_multicast_locators (\<lambda>ls. p\<lparr>ed_multicast_locators := ls\<rparr>) st
         else if pid AND must_understand_mask \<noteq> 0 then Some (Inl sedp_unknown_required_parameter)
         else Some (Inr st))"

definition sedp_accept ::
  "data_message_view \<Rightarrow> byte_order \<Rightarrow> endpoint_kind \<Rightarrow> sedp_parse \<times> bool \<Rightarrow> (sedp_error + sedp_view)" where
  "sedp_accept data order kind = (\<lambda>(st, seen_sentinel).
     let e = es_endpoint st
     in if \<not> seen_sentinel then Inl sedp_malformed_parameter
        else if \<not> es_seen_endpoint st \<or> \<not> es_seen_topic st \<or> \<not> es_seen_type st \<or>
           es_seen_locator st \<and> size_add (ll_size (ed_unicast_locators e)) (ll_size (ed_multicast_locators e)) = 0
        then Inl sedp_missing_required_parameter
        else if \<not> valid_endpoint_id (ed_endpoint_id e) kind then Inl sedp_invalid_identity
        else Inr \<lparr>ev_endpoint = e, ev_sequence_number = dv_sequence_number data,
          ev_submessage_byte_order = dv_byte_order data, ev_parameter_byte_order = order\<rparr>)"

definition sedp_kind :: "data_message_view \<Rightarrow> (endpoint_kind \<times> entity_id) option" where
  "sedp_kind data =
     (if dv_writer_id data = entity_id_publications_writer then Some (ek_writer, entity_id_publications_reader)
      else if dv_writer_id data = entity_id_subscriptions_writer then Some (ek_reader, entity_id_subscriptions_reader)
      else None)"

definition sedp_parse_start :: "data_message_view \<Rightarrow> endpoint_kind \<Rightarrow> guid_prefix \<Rightarrow> sedp_parse" where
  "sedp_parse_start data kind expected =
     \<lparr>es_endpoint = default_endpoint\<lparr>ed_protocol_version := dv_version data, ed_vendor_id := dv_vendor_id data,
        ed_participant_guid_prefix := expected, ed_kind := kind\<rparr>,
      es_seen_endpoint = False, es_seen_participant = False, es_seen_locator = False, es_seen_topic = False,
      es_seen_type = False, es_seen_reliability = False, es_seen_durability = False, es_seen_inline = False\<rparr>"

definition parse_sedp_message :: "span \<Rightarrow> guid_prefix \<Rightarrow> (sedp_error \<times> rtps_error + sedp_view \<times> nat) option" where
  "parse_sedp_message message expected = do {
     data \<leftarrow> parse_data_message message;
     case data of
       Inl e \<Rightarrow> Some (Inl (sedp_rtps_error, e))
     | Inr data \<Rightarrow>
         (case sedp_kind data of
            None \<Rightarrow> Some (Inl (sedp_invalid_identity, rtps_none))
          | Some (kind, expected_reader) \<Rightarrow>
              if dv_reader_id data \<noteq> entity_id_unknown \<and> dv_reader_id data \<noteq> expected_reader
              then Some (Inl (sedp_invalid_identity, rtps_none))
              else if dv_guid_prefix data \<noteq> expected then Some (Inl (sedp_participant_mismatch, rtps_none))
              else if length (dv_payload data) < 8 then Some (Inl (sedp_unsupported_representation, rtps_none))
              else do {
                b0 \<leftarrow> rd (dv_payload data) 0;
                b1 \<leftarrow> rd (dv_payload data) 1;
                if b0 \<noteq> 0 \<or> b1 \<noteq> 2 \<and> b1 \<noteq> 3 then Some (Inl (sedp_unsupported_representation, rtps_none))
                else do {
                  let order = (if b1 = 3 then little_endian else big_endian);
                  r \<leftarrow> parameter_walk (sedp_parameter expected) sedp_malformed_parameter order (dv_payload data) 4
                    (sedp_parse_start data kind expected);
                  Some (map_sum (\<lambda>e. (e, rtps_none)) (\<lambda>v. (v, span_size message))
                    (case r of Inl e \<Rightarrow> Inl e | Inr s \<Rightarrow> sedp_accept data order kind s)) } }) }"

subsection \<open>The table of discovered endpoints\<close>

datatype endpoint_update = eu_none | eu_added | eu_updated

record discovered_endpoint =
  de_data :: sedp_endpoint
  de_sequence_number :: u64
  de_occupied :: bool

definition blank_endpoint :: discovered_endpoint where
  "blank_endpoint = \<lparr>de_data = default_endpoint, de_sequence_number = 0, de_occupied = False\<rparr>"

record endpoint_table =
  et_entries :: "discovered_endpoint list"
  et_size :: nat

definition endpoint_table_new :: "nat \<Rightarrow> endpoint_table" where
  "endpoint_table_new capacity = \<lparr>et_entries = replicate capacity blank_endpoint, et_size = 0\<rparr>"

definition de_key :: "discovered_endpoint \<Rightarrow> guid_prefix \<times> entity_id" where
  "de_key e = (ed_participant_guid_prefix (de_data e), ed_endpoint_id (de_data e))"

definition endpoint_upsert ::
  "sedp_view \<Rightarrow> endpoint_table \<Rightarrow> (sedp_error \<times> endpoint_update \<times> nat) \<times> endpoint_table" where
  "endpoint_upsert v t =
     (let k = (ed_participant_guid_prefix (ev_endpoint v), ed_endpoint_id (ev_endpoint v))
      in case find_index (slot_live de_occupied de_key k) (et_entries t) of
           Some index \<Rightarrow>
             let e = et_entries t ! index
             in if ev_sequence_number v \<le> de_sequence_number e then ((sedp_stale_announcement, eu_none, index), t)
                else ((sedp_none, eu_updated, index),
                      t\<lparr>et_entries := (et_entries t)[index := e\<lparr>de_data := ev_endpoint v,
                          de_sequence_number := ev_sequence_number v\<rparr>]\<rparr>)
         | None \<Rightarrow>
             (case find_index (\<lambda>e. \<not> de_occupied e) (et_entries t) of
                Some index \<Rightarrow>
                  ((sedp_none, eu_added, index),
                   t\<lparr>et_entries := (et_entries t)[index := (et_entries t ! index)\<lparr>de_data := ev_endpoint v,
                        de_sequence_number := ev_sequence_number v, de_occupied := True\<rparr>],
                     et_size := et_size t + 1\<rparr>)
              | None \<Rightarrow> ((sedp_table_full, eu_none, 0), t)))"

definition endpoint_of :: "guid_prefix \<Rightarrow> discovered_endpoint \<Rightarrow> bool" where
  "endpoint_of participant e \<longleftrightarrow> ed_participant_guid_prefix (de_data e) = participant"

definition remove_participant ::
  "guid_prefix \<Rightarrow> entity_id list option \<Rightarrow> nat \<Rightarrow> endpoint_table
   \<Rightarrow> (sedp_error \<times> entity_id list option \<times> nat \<times> endpoint_table) option" where
  "remove_participant participant removed removed_capacity t =
     (let due = length (filter (\<lambda>e. de_occupied e \<and> endpoint_of participant e) (et_entries t))
      in if due \<noteq> 0 \<and> removed = None then Some (sedp_invalid_argument, removed, 0, t)
         else if due > removed_capacity then Some (sedp_action_capacity_exceeded, removed, 0, t)
         else do {
           (entries, out, removed_size, table_size) \<leftarrow>
             for_loop 0 (length (et_entries t))
               (slot_sweep de_occupied (endpoint_of participant) (\<lambda>e. ed_endpoint_id (de_data e)) blank_endpoint)
               (et_entries t, case removed of None \<Rightarrow> [] | Some out \<Rightarrow> out, 0, et_size t);
           Some (sedp_none, map_option (\<lambda>_. out) removed, removed_size,
             t\<lparr>et_entries := entries, et_size := table_size\<rparr>) })"

definition endpoint_find :: "guid_prefix \<Rightarrow> entity_id \<Rightarrow> endpoint_table \<Rightarrow> discovered_endpoint option" where
  "endpoint_find participant endpoint t =
     map_option (nth (et_entries t)) (find_index (slot_live de_occupied de_key (participant, endpoint)) (et_entries t))"

subsection \<open>Matching\<close>

record local_endpoint =
  le_kind :: endpoint_kind
  le_topic_name :: span
  le_type_name :: span
  le_reliability :: u32
  le_durability :: u32

datatype match_status =
  ms_matched | ms_invalid_local_endpoint | ms_same_endpoint_kind | ms_topic_mismatch | ms_type_mismatch
  | ms_reliability_incompatible | ms_durability_incompatible

definition same_text :: "byte list \<Rightarrow> byte list \<Rightarrow> nat \<Rightarrow> bool option" where
  "same_text left right right_size =
     (if length left = right_size \<and> length left \<noteq> 0 then do {
        r \<leftarrow> rd_block right 0 (length left);
        Some (left = r) }
      else Some (length left = right_size))"

definition evaluate_endpoint_match :: "local_endpoint \<Rightarrow> sedp_endpoint \<Rightarrow> match_status option" where
  "evaluate_endpoint_match l remote =
     (if null_span (le_topic_name l) \<or> null_span (le_type_name l) \<or>
         span_size (le_topic_name l) = 0 \<or> span_size (le_topic_name l) > sedp_max_topic_name \<or>
         span_size (le_type_name l) = 0 \<or> span_size (le_type_name l) > sedp_max_type_name \<or>
         \<not> valid_reliability (le_reliability l) \<or> \<not> valid_durability (le_durability l)
      then Some ms_invalid_local_endpoint
      else if le_kind l = ed_kind remote then Some ms_same_endpoint_kind
      else do {
        topic \<leftarrow> same_text (span_bytes (le_topic_name l)) (ed_topic_name remote) (ed_topic_name_size remote);
        if \<not> topic then Some ms_topic_mismatch
        else do {
          type \<leftarrow> same_text (span_bytes (le_type_name l)) (ed_type_name remote) (ed_type_name_size remote);
          if \<not> type then Some ms_type_mismatch
          else
            let offered_reliability = (if le_kind l = ek_writer then le_reliability l else ed_reliability remote);
                requested_reliability = (if le_kind l = ek_reader then le_reliability l else ed_reliability remote);
                offered_durability = (if le_kind l = ek_writer then le_durability l else ed_durability remote);
                requested_durability = (if le_kind l = ek_reader then le_durability l else ed_durability remote)
            in if sint offered_reliability < sint requested_reliability then Some ms_reliability_incompatible
               else if sint offered_durability < sint requested_durability then Some ms_durability_incompatible
               else Some ms_matched } })"

definition endpoint_locators :: "sedp_endpoint \<Rightarrow> locator_list list" where
  "endpoint_locators e = [ed_unicast_locators e, ed_multicast_locators e]"

definition topic_text :: "sedp_endpoint \<Rightarrow> byte list" where
  "topic_text e = take (ed_topic_name_size e) (ed_topic_name e)"

definition type_text :: "sedp_endpoint \<Rightarrow> byte list" where
  "type_text e = take (ed_type_name_size e) (ed_type_name e)"

definition sedp_parameter_list :: "byte_order \<Rightarrow> sedp_endpoint \<Rightarrow> parameter list" where
  "sedp_parameter_list order e =
     [(pid_endpoint_guid, ed_participant_guid_prefix e @ ed_endpoint_id e)] @
     [(pid_participant_guid, ed_participant_guid_prefix e @ entity_id_participant)] @
     [(pid_topic_name, string_bytes order (topic_text e))] @
     [(pid_type_name, string_bytes order (type_text e))] @
     [(pid_reliability, word_bytes order 4 (ed_reliability e) @ duration_bytes order (ed_max_blocking_time_ns e))] @
     [(pid_durability, word_bytes order 4 (ed_durability e))] @
     [(pid_expects_inline_qos, [if ed_expects_inline_qos e then 1 else 0])] @
     locator_parameters order pid_unicast_locator (ed_unicast_locators e) @
     locator_parameters order pid_multicast_locator (ed_multicast_locators e)"

definition wf_endpoint :: "sedp_endpoint \<Rightarrow> bool" where
  "wf_endpoint e \<longleftrightarrow> wf_vendor_id (ed_vendor_id e) \<and> wf_guid_prefix (ed_participant_guid_prefix e) \<and>
     wf_entity_id (ed_endpoint_id e) \<and> length (ed_topic_name e) = sedp_max_topic_name + 1 \<and>
     length (ed_type_name e) = sedp_max_type_name + 1 \<and>
     locators_shape (ed_unicast_locators e) \<and> locators_shape (ed_multicast_locators e)"

definition wf_sedp_config :: "sedp_config \<Rightarrow> bool" where
  "wf_sedp_config c \<longleftrightarrow> wf_endpoint (ec_endpoint c) \<and> wf_entity_id (ec_reader_id c)"

definition endpoint_ok :: "sedp_endpoint \<Rightarrow> bool" where
  "endpoint_ok e \<longleftrightarrow>
     pv_major (ed_protocol_version e) = 2 \<and> 1 \<le> unat (pv_minor (ed_protocol_version e)) \<and>
     unat (pv_minor (ed_protocol_version e)) \<le> 5 \<and> (\<exists>b \<in> set (ed_participant_guid_prefix e). b \<noteq> 0) \<and>
     valid_endpoint_id (ed_endpoint_id e) (ed_kind e) \<and>
     1 \<le> ed_topic_name_size e \<and> ed_topic_name_size e \<le> 255 \<and> 0 \<notin> set (topic_text e) \<and>
     1 \<le> ed_type_name_size e \<and> ed_type_name_size e \<le> 255 \<and> 0 \<notin> set (type_text e) \<and>
     valid_reliability (ed_reliability e) \<and> valid_durability (ed_durability e) \<and>
     list_all valid_locators (endpoint_locators e) \<and>
     locators (ed_unicast_locators e) @ locators (ed_multicast_locators e) \<noteq> []"

definition expected_reader :: "endpoint_kind \<Rightarrow> entity_id" where
  "expected_reader kind = (if kind = ek_writer then entity_id_publications_reader else entity_id_subscriptions_reader)"

definition sedp_announcement_ok :: "sedp_config \<Rightarrow> bool" where
  "sedp_announcement_ok c \<longleftrightarrow> endpoint_ok (ec_endpoint c) \<and>
     unat (ed_max_blocking_time_ns (ec_endpoint c)) < 2 ^ 31 * 10 ^ 9 \<and>
     ec_reader_id c \<in> {entity_id_unknown, expected_reader (ed_kind (ec_endpoint c))} \<and>
     supported_byte_order (ec_submessage_byte_order c) \<and> supported_byte_order (ec_parameter_byte_order c) \<and>
     1 \<le> unat (ec_sequence_number c) \<and> unat (ec_sequence_number c) < 2 ^ 63"

definition sedp_payload :: "sedp_config \<Rightarrow> byte list" where
  "sedp_payload c =
     payload_bytes (ec_parameter_byte_order c) (sedp_parameter_list (ec_parameter_byte_order c) (ec_endpoint c))"

definition sedp_request_ok :: "sedp_config \<Rightarrow> sedp_builder \<Rightarrow> bool" where
  "sedp_request_ok c d \<longleftrightarrow> endpoint_ok (ec_endpoint c) \<and>
     ec_reader_id c \<in> {entity_id_unknown, expected_reader (ed_kind (ec_endpoint c))} \<and>
     supported_byte_order (ec_submessage_byte_order c) \<and> supported_byte_order (ec_parameter_byte_order c) \<and>
     \<not> (null_span (eb_buffer d) \<and> span_size (eb_buffer d) \<noteq> 0)"

text \<open>
  The builder tells a writer from everything else, so a kind that the enumeration does not name is
  announced as a reader.
\<close>

definition announced_kind :: "endpoint_kind \<Rightarrow> endpoint_kind" where
  "announced_kind kind = (if kind = ek_writer then ek_writer else ek_reader)"

definition legal_kind :: "endpoint_kind \<Rightarrow> bool" where
  "legal_kind kind \<longleftrightarrow> kind = ek_writer \<or> kind = ek_reader"

definition announced_endpoint :: "sedp_endpoint \<Rightarrow> sedp_endpoint" where
  "announced_endpoint e = e\<lparr>ed_kind := announced_kind (ed_kind e),
     ed_unicast_locators := fresh_locators (locators (ed_unicast_locators e)),
     ed_multicast_locators := fresh_locators (locators (ed_multicast_locators e)),
     ed_max_blocking_time_ns := duration_value (ucast (duration_seconds (ed_max_blocking_time_ns e)))
       (duration_fraction (ed_max_blocking_time_ns e)),
     ed_topic_name := topic_text e @ replicate (256 - ed_topic_name_size e) 0,
     ed_type_name := type_text e @ replicate (256 - ed_type_name_size e) 0\<rparr>"

definition endpoint_agrees :: "sedp_endpoint \<Rightarrow> sedp_endpoint \<Rightarrow> bool" where
  "endpoint_agrees e q \<longleftrightarrow>
     ed_protocol_version q = ed_protocol_version e \<and> ed_vendor_id q = ed_vendor_id e \<and>
     ed_participant_guid_prefix q = ed_participant_guid_prefix e \<and> ed_endpoint_id q = ed_endpoint_id e \<and>
     ed_kind q = announced_kind (ed_kind e) \<and> topic_text q = topic_text e \<and> type_text q = type_text e \<and>
     ed_reliability q = ed_reliability e \<and> ed_durability q = ed_durability e \<and>
     ed_expects_inline_qos q = ed_expects_inline_qos e \<and>
     map locators (endpoint_locators q) = map locators (endpoint_locators e) \<and>
     (unat (ed_max_blocking_time_ns q) = unat (ed_max_blocking_time_ns e) \<or>
      unat (ed_max_blocking_time_ns q) + 1 = unat (ed_max_blocking_time_ns e))"

definition demo_endpoint :: sedp_endpoint where
  "demo_endpoint = default_endpoint\<lparr>ed_participant_guid_prefix := [1, 2, 3, 4, 5, 6, 7, 8, 9, 10, 11, 12],
     ed_endpoint_id := [0, 0, 1, 3], ed_topic_name := [97, 98] @ replicate 254 0, ed_topic_name_size := 2,
     ed_type_name := [99] @ replicate 255 0, ed_type_name_size := 1,
     ed_unicast_locators := push_locator demo_locator empty_locators, ed_reliability := rk_reliable\<rparr>"

definition demo_sedp_config :: sedp_config where
  "demo_sedp_config = \<lparr>ec_endpoint = demo_endpoint, ec_reader_id = entity_id_unknown, ec_sequence_number = 5,
     ec_submessage_byte_order = big_endian, ec_parameter_byte_order = little_endian\<rparr>"

definition sedp_inv :: "sedp_parse \<Rightarrow> bool" where
  "sedp_inv st \<longleftrightarrow>
     (let e = es_endpoint st
      in length (ed_endpoint_id e) = 4 \<and> list_all valid_locator_list (endpoint_locators e) \<and>
         valid_reliability (ed_reliability e) \<and> valid_durability (ed_durability e) \<and>
         length (ed_topic_name e) = 256 \<and> zero_filled (ed_topic_name e) (ed_topic_name_size e) \<and> 0 \<notin> set (topic_text e) \<and>
         (es_seen_topic st \<longleftrightarrow> ed_topic_name_size e \<noteq> 0) \<and>
         length (ed_type_name e) = 256 \<and> zero_filled (ed_type_name e) (ed_type_name_size e) \<and> 0 \<notin> set (type_text e) \<and>
         (es_seen_type st \<longleftrightarrow> ed_type_name_size e \<noteq> 0))"

definition sedp_known :: "u16 set" where
  "sedp_known = {pid_endpoint_guid, pid_participant_guid, pid_topic_name, pid_type_name, pid_reliability, pid_durability,
     pid_expects_inline_qos, pid_unicast_locator, pid_multicast_locator}"

definition accepted_endpoint :: "guid_prefix \<Rightarrow> data_message_view \<Rightarrow> sedp_view \<Rightarrow> bool" where
  "accepted_endpoint expected data v \<longleftrightarrow>
     (let e = ev_endpoint v
      in ed_participant_guid_prefix e = expected \<and> dv_guid_prefix data = expected \<and>
         ed_protocol_version e = dv_version data \<and> ed_vendor_id e = dv_vendor_id data \<and>
         sedp_kind data = Some (ed_kind e, expected_reader (ed_kind e)) \<and>
         valid_endpoint_id (ed_endpoint_id e) (ed_kind e) \<and> length (ed_endpoint_id e) = 4 \<and>
         list_all valid_locator_list (endpoint_locators e) \<and>
         valid_reliability (ed_reliability e) \<and> valid_durability (ed_durability e) \<and>
         topic_text e \<noteq> [] \<and> 0 \<notin> set (topic_text e) \<and> ed_topic_name_size e < length (ed_topic_name e) \<and>
         zero_filled (ed_topic_name e) (ed_topic_name_size e) \<and>
         type_text e \<noteq> [] \<and> 0 \<notin> set (type_text e) \<and> ed_type_name_size e < length (ed_type_name e) \<and>
         zero_filled (ed_type_name e) (ed_type_name_size e) \<and>
         ev_sequence_number v = dv_sequence_number data)"

definition sedp_identity :: "sedp_parse \<Rightarrow> protocol_version \<times> vendor_id \<times> guid_prefix \<times> endpoint_kind" where
  "sedp_identity st = (ed_protocol_version (es_endpoint st), ed_vendor_id (es_endpoint st),
     ed_participant_guid_prefix (es_endpoint st), ed_kind (es_endpoint st))"

definition endpoints :: "endpoint_table \<Rightarrow> guid_prefix \<times> entity_id \<rightharpoonup> discovered_endpoint" where
  "endpoints t = slot_map de_occupied de_key (et_entries t)"

definition endpoint_inv :: "endpoint_table \<Rightarrow> bool" where
  "endpoint_inv t \<longleftrightarrow> slot_distinct de_occupied de_key (et_entries t) \<and>
     et_size t = length (filter de_occupied (et_entries t))"

definition view_key :: "sedp_view \<Rightarrow> guid_prefix \<times> entity_id" where
  "view_key v = (ed_participant_guid_prefix (ev_endpoint v), ed_endpoint_id (ev_endpoint v))"

datatype endpoint_op =
  EndpointUpsert sedp_view | RemoveParticipant guid_prefix nat | EndpointFind guid_prefix entity_id

datatype endpoint_answer =
  UpsertAnswer sedp_error endpoint_update | RemoveAnswer sedp_error "entity_id set" | FindAnswer "discovered_endpoint option"

fun endpoint_step :: "endpoint_op \<Rightarrow> endpoint_table \<Rightarrow> (endpoint_answer \<times> endpoint_table) option" where
  "endpoint_step (EndpointUpsert v) t =
     (case endpoint_upsert v t of ((e, update, index), t') \<Rightarrow> Some (UpsertAnswer e update, t'))"
| "endpoint_step (RemoveParticipant participant capacity) t = do {
     (e, out, n, t') \<leftarrow> remove_participant participant (Some (replicate capacity [])) capacity t;
     Some (RemoveAnswer e (set (take n (the out))), t') }"
| "endpoint_step (EndpointFind participant endpoint) t = Some (FindAnswer (endpoint_find participant endpoint t), t)"

definition stored_endpoint :: "sedp_view \<Rightarrow> discovered_endpoint" where
  "stored_endpoint v = \<lparr>de_data = ev_endpoint v, de_sequence_number = ev_sequence_number v, de_occupied = True\<rparr>"

fun endpoint_spec ::
  "nat \<Rightarrow> endpoint_op \<Rightarrow> (guid_prefix \<times> entity_id \<rightharpoonup> discovered_endpoint)
   \<Rightarrow> endpoint_answer \<times> (guid_prefix \<times> entity_id \<rightharpoonup> discovered_endpoint)" where
  "endpoint_spec n (EndpointUpsert v) m =
     (case m (view_key v) of
        Some e \<Rightarrow> if ev_sequence_number v \<le> de_sequence_number e then (UpsertAnswer sedp_stale_announcement eu_none, m)
                  else (UpsertAnswer sedp_none eu_updated, m(view_key v \<mapsto> stored_endpoint v))
      | None \<Rightarrow> if card (dom m) < n then (UpsertAnswer sedp_none eu_added, m(view_key v \<mapsto> stored_endpoint v))
                else (UpsertAnswer sedp_table_full eu_none, m))"
| "endpoint_spec n (RemoveParticipant participant capacity) m =
     (let gone = {x. (participant, x) \<in> dom m}
      in if card gone \<le> capacity
         then (RemoveAnswer sedp_none gone, \<lambda>k. if fst k = participant then None else m k)
         else (RemoveAnswer sedp_action_capacity_exceeded {}, m))"
| "endpoint_spec n (EndpointFind participant endpoint) m = (FindAnswer (m (participant, endpoint)), m)"

definition compatible :: "sedp_endpoint \<Rightarrow> sedp_endpoint \<Rightarrow> bool" where
  "compatible a b \<longleftrightarrow>
     (ed_kind a = ek_writer \<and> ed_kind b = ek_reader \<or> ed_kind a = ek_reader \<and> ed_kind b = ek_writer) \<and>
     topic_text a = topic_text b \<and> type_text a = type_text b \<and>
     (let w = (if ed_kind a = ek_writer then a else b); r = (if ed_kind a = ek_writer then b else a)
      in (ed_reliability r = rk_reliable \<longrightarrow> ed_reliability w = rk_reliable) \<and>
         (ed_durability r = dk_transient_local \<longrightarrow> ed_durability w = dk_transient_local))"

definition descriptor_of :: "sedp_endpoint \<Rightarrow> local_endpoint" where
  "descriptor_of e = \<lparr>le_kind = ed_kind e, le_topic_name = Span (topic_text e), le_type_name = Span (type_text e),
     le_reliability = ed_reliability e, le_durability = ed_durability e\<rparr>"

definition remote_ok :: "sedp_endpoint \<Rightarrow> bool" where
  "remote_ok e \<longleftrightarrow> ed_topic_name_size e \<le> length (ed_topic_name e) \<and> ed_type_name_size e \<le> length (ed_type_name e) \<and>
     valid_reliability (ed_reliability e) \<and> valid_durability (ed_durability e)"

definition demo_reader_config :: sedp_config where
  "demo_reader_config = demo_sedp_config\<lparr>ec_endpoint := demo_endpoint\<lparr>ed_kind := ek_reader, ed_endpoint_id := [0, 0, 1, 4],
     ed_reliability := rk_best_effort\<rparr>\<rparr>"

section \<open>Building endpoint announcements\<close>

lemma endpoint_arrays:
  assumes "wf_endpoint e"
  shows "length (ed_vendor_id e) = 2" "length (ed_participant_guid_prefix e) = 12" "length (ed_endpoint_id e) = 4"
    "length (ed_topic_name e) = 256" "length (ed_type_name e) = 256"
  using assms
  by (simp_all add: wf_endpoint_def wf_vendor_id_def wf_guid_prefix_def wf_entity_id_def sedp_max_topic_name_def
      sedp_max_type_name_def)

lemma endpoint_lists:
  assumes "wf_endpoint e" "list_all valid_locators (endpoint_locators e)" "ls \<in> set (endpoint_locators e)"
  shows "locators_shape ls" "valid_locators ls" "wf_locators ls" "list_all wf_locator (locators ls)"
  using assms
  by (auto simp: wf_endpoint_def endpoint_locators_def locators_shape_def valid_locators_def wf_locators_def
      locators_def list_all_iff dest: in_set_takeD)

lemma writes_reliability:
  assumes "unat (ed_max_blocking_time_ns e) < 2 ^ 31 * 10 ^ 9"
  shows "writes order (append_reliability e order)
    [(pid_reliability, word_bytes order 4 (ed_reliability e) @ duration_bytes order (ed_max_blocking_time_ns e))]"
proof -
  have "\<not> duration_seconds (ed_max_blocking_time_ns e) > 0x7FFFFFFF" using assms by (simp add: lease_seconds)
  then have "append_reliability e order = append_value pid_reliability 12 (\<lambda>value b. do {
      b \<leftarrow> write_u32 order value (ed_reliability e) b;
      write_duration order (value + 4) (ed_max_blocking_time_ns e) b })"
    by (auto simp: fun_eq_iff append_reliability_def append_value_def append_duration_def
        split: option.splits bind_splits)
  then show ?thesis
    by (simp only:, intro writes_value)
      (simp_all add: mem_simps u32_codec.put_block padded_size_def write_duration_block duration_bytes_def)
qed

lemma writes_sedp_parameters:
  assumes "wf_endpoint e" "endpoint_ok e" "unat (ed_max_blocking_time_ns e) < 2 ^ 31 * 10 ^ 9"
  shows "writes order (sedp_parameters e order) (sedp_parameter_list order e @ [(pid_sentinel, [])])"
proof -
  note lens = endpoint_arrays [OF assms(1)]
  have sizes: "ed_topic_name_size e \<le> 255" "ed_type_name_size e \<le> 255" "list_all valid_locators (endpoint_locators e)"
    using assms(2) by (simp_all add: endpoint_ok_def)
  note ls = endpoint_lists(3,4) [OF assms(1) sizes(3)]
  note locs = writes_locators [OF ls(2) ls(1), unfolded locator_parameters_def [symmetric]]
  show ?thesis
    unfolding sedp_parameters_def sedp_parameter_list_def append_assoc topic_text_def type_text_def append_guid_def
    by (intro writes_and_also writes_finish locs writes_string writes_reliability writes_value)
      (use sizes assms(3) in \<open>simp_all add: mem_simps u32_codec.put_block padded_size_def lens
        entity_id_participant_def endpoint_locators_def\<close>)
qed

lemma sedp_payload_fits:
  assumes "wf_endpoint e" "endpoint_ok e"
  shows "length (payload_bytes order (sedp_parameter_list order e)) \<le> sedp_payload_capacity"
    "8 \<le> length (payload_bytes order (sedp_parameter_list order e))"
proof -
  note lens = endpoint_arrays [OF assms(1)]
  have sizes: "ed_topic_name_size e \<le> 255" "ed_type_name_size e \<le> 255" "list_all valid_locators (endpoint_locators e)"
    using assms(2) by (simp_all add: endpoint_ok_def)
  note locs = length_locator_parameters [OF endpoint_lists(1,2) [OF assms(1) sizes(3)]]
  have name: "length (parameter_bytes order (pid, string_bytes order (take n s))) \<le> 268" if "n \<le> 255" for pid n s
    using that padded_size_props(3) [of "length (string_bytes order (take n s))"] by (simp add: string_bytes_def)
  have nums: "padded_size 4 = 4" "padded_size (Suc 0) = 4" "padded_size 16 = 16" "padded_size 12 = 12" "padded_size 0 = 0"
    by (simp_all add: padded_size_def)
  show "length (payload_bytes order (sedp_parameter_list order e)) \<le> sedp_payload_capacity"
    using locs [of "ed_unicast_locators e" order pid_unicast_locator] locs [of "ed_multicast_locators e" order pid_multicast_locator]
      name [OF sizes(1), of pid_topic_name "ed_topic_name e"] name [OF sizes(2), of pid_type_name "ed_type_name e"]
    unfolding payload_bytes_def sedp_parameter_list_def parameters_bytes_simps length_append topic_text_def type_text_def
    by (simp add: lens nums duration_bytes_def entity_id_participant_def endpoint_locators_def sedp_payload_capacity_def)
  show "8 \<le> length (payload_bytes order (sedp_parameter_list order e))"
    by (simp add: payload_bytes_def)
qed

text \<open>The checks of \<open>build\<close>, read as the specification of a valid endpoint.\<close>

lemma endpoint_guards:
  assumes "wf_endpoint e"
  shows "endpoint_ok e \<longleftrightarrow>
     \<not> (unsupported_version (ed_protocol_version e) \<or> \<not> nonzero_guid (ed_participant_guid_prefix e) \<or>
        \<not> valid_endpoint_id (ed_endpoint_id e) (ed_kind e) \<or> \<not> valid_text (ed_topic_name e) (ed_topic_name_size e) \<or>
        \<not> valid_text (ed_type_name e) (ed_type_name_size e) \<or> \<not> valid_reliability (ed_reliability e) \<or>
        \<not> valid_durability (ed_durability e) \<or>
        size_add (ll_size (ed_unicast_locators e)) (ll_size (ed_multicast_locators e)) = 0) \<and>
     valid_locators (ed_unicast_locators e) \<and> valid_locators (ed_multicast_locators e)"
proof (cases "valid_locators (ed_unicast_locators e) \<and> valid_locators (ed_multicast_locators e)")
  case True
  have sizes: "locators ls = [] \<longleftrightarrow> ll_size ls = 0" "ll_size ls \<le> 4" if "ls \<in> set (endpoint_locators e)" for ls
    using valid_lists_sizes [of ls] True assms that by (auto simp: wf_endpoint_def endpoint_locators_def)
  have locs: "size_add (ll_size (ed_unicast_locators e)) (ll_size (ed_multicast_locators e)) \<noteq> 0 \<longleftrightarrow>
      locators (ed_unicast_locators e) @ locators (ed_multicast_locators e) \<noteq> []"
    using sizes [of "ed_unicast_locators e"] sizes [of "ed_multicast_locators e"]
    by (simp add: size_add_def SIZE_MAX_def endpoint_locators_def)
  have names: "valid_text (ed_topic_name e) n \<longleftrightarrow> 1 \<le> n \<and> n \<le> 255 \<and> 0 \<notin> set (take n (ed_topic_name e))"
    "valid_text (ed_type_name e) n \<longleftrightarrow> 1 \<le> n \<and> n \<le> 255 \<and> 0 \<notin> set (take n (ed_type_name e))" for n
    using endpoint_arrays(4,5) [OF assms] by (auto simp: valid_text_def list_all_iff)
  have guid: "nonzero_guid (ed_participant_guid_prefix e) \<longleftrightarrow> (\<exists>b \<in> set (ed_participant_guid_prefix e). b \<noteq> 0)"
    by (simp add: nonzero_guid_def list_ex_iff)
  have lists: "list_all valid_locators (endpoint_locators e)" using True by (simp add: endpoint_locators_def)
  show ?thesis
    unfolding endpoint_ok_def de_Morgan_disj not_not version_ok guid names locs topic_text_def type_text_def
    using True lists by blast
qed (unfold endpoint_ok_def endpoint_locators_def list.pred_inject, blast)

lemma sedp_payload_written:
  assumes "wf_endpoint (ec_endpoint c)" "endpoint_ok (ec_endpoint c)"
    "unat (ed_max_blocking_time_ns (ec_endpoint c)) < 2 ^ 31 * 10 ^ 9"
  obtains w0 w where
    "parameter_writer_new (replicate sedp_payload_capacity 0) (ec_parameter_byte_order c) = Some w0"
    "sedp_parameters (ec_endpoint c) (ec_parameter_byte_order c) w0 = Some (True, w)"
    "rd_block (pw_buffer w) 0 (pw_size w) = Some (sedp_payload c)"
  using writes_payload [OF writes_sedp_parameters [OF assms] sedp_payload_fits(1) [OF assms(1,2)]]
  by (force simp: bind_eq_Some_conv rd_block_def sedp_payload_def)

lemma sedp_data_config_ok:
  assumes "wf_sedp_config c" "endpoint_ok (ec_endpoint c)" "supported_byte_order (ec_submessage_byte_order c)"
  shows "wf_data_config (sedp_data_config c)"
    "data_config_ok (sedp_data_config c) (sedp_payload c) \<longleftrightarrow>
       1 \<le> unat (ec_sequence_number c) \<and> unat (ec_sequence_number c) < 2 ^ 63"
proof -
  have wf: "wf_endpoint (ec_endpoint c)" using assms(1) by (simp add: wf_sedp_config_def)
  show "wf_data_config (sedp_data_config c)"
    using assms(1) by (simp add: wf_data_config_def sedp_data_config_def wf_sedp_config_def wf_endpoint_def wf_entity_id_def
        entity_id_publications_writer_def entity_id_subscriptions_writer_def)
  note fits = sedp_payload_fits [OF wf assms(2), of "ec_parameter_byte_order c", folded sedp_payload_def]
  have "sedp_payload c ! 0 = 0" "sedp_payload c ! 1 \<le> 3"
    by (simp_all add: sedp_payload_def payload_bytes_def)
  moreover have "\<not> unsupported_version (ed_protocol_version (ec_endpoint c))"
    using assms(2) by (simp add: endpoint_ok_def version_ok)
  moreover have "s \<noteq> 0 \<and> s \<le> INT64_MAX \<longleftrightarrow> 1 \<le> unat s \<and> unat s < 2 ^ 63" for s
    by (auto simp: INT64_MAX_def word_le_nat_alt Suc_le_eq unat_gt_0)
  ultimately show "data_config_ok (sedp_data_config c) (sedp_payload c) \<longleftrightarrow>
       1 \<le> unat (ec_sequence_number c) \<and> unat (ec_sequence_number c) < 2 ^ 63"
    using fits assms(3)
    by (simp add: data_config_ok_def sedp_data_config_def data_message_overhead_44 maximum_udp_payload_size_def
        sedp_payload_capacity_def)
qed

text \<open>Past its checks, \<open>build\<close> is the parameter writer followed by the DATA builder.\<close>

lemma sedp_build_checked:
  assumes "wf_endpoint (ec_endpoint c)" "sedp_request_ok c d"
  shows "sedp_build c d = (let d = d\<lparr>eb_size := 0, eb_error := sedp_none, eb_rtps_error := rtps_none\<rparr> in do {
      w \<leftarrow> parameter_writer_new (replicate sedp_payload_capacity 0) (ec_parameter_byte_order c);
      (complete, w) \<leftarrow> sedp_parameters (ec_endpoint c) (ec_parameter_byte_order c) w;
      if \<not> complete then sedp_fail sedp_buffer_overflow d
      else do {
        payload \<leftarrow> rd_block (pw_buffer w) 0 (pw_size w);
        (ok, b) \<leftarrow> data_build (sedp_data_config c) (Span payload) (data_builder_new (eb_buffer d));
        let d = d\<lparr>eb_buffer := db_buffer b\<rparr>;
        if \<not> ok then sedp_fail sedp_rtps_error (d\<lparr>eb_rtps_error := db_error b\<rparr>)
        else Some (True, d\<lparr>eb_size := db_size b\<rparr>) } })"
  using assms(2) unfolding sedp_request_ok_def endpoint_guards [OF assms(1)] expected_reader_def
  by (simp add: sedp_build_def Let_def) auto

lemma guard_chain3:
  "A \<or> B \<or> C \<Longrightarrow> \<exists>e \<in> {a, b, c}. (if A then g a else if B then g b else if C then g c else X) = g e"
  by auto

lemma sedp_build_unchecked:
  assumes "wf_endpoint (ec_endpoint c)" "\<not> sedp_request_ok c d"
  shows "\<exists>e \<in> {sedp_invalid_argument, sedp_invalid_configuration, sedp_invalid_locator}.
    sedp_build c d = sedp_fail e (d\<lparr>eb_size := 0, eb_error := sedp_none, eb_rtps_error := rtps_none\<rparr>)"
proof -
  have buffer: "eb_buffer (d\<lparr>eb_size := 0, eb_error := sedp_none, eb_rtps_error := rtps_none\<rparr>) = eb_buffer d" by simp
  show ?thesis
    unfolding sedp_build_def Let_def buffer expected_reader_def [symmetric]
    by (rule guard_chain3)
      (use assms(2) in \<open>unfold sedp_request_ok_def endpoint_guards [OF assms(1)] insert_iff empty_iff, argo\<close>)
qed

lemma sedp_build_valid:
  assumes "wf_endpoint (ec_endpoint c)" "sedp_request_ok c d"
    "unat (ed_max_blocking_time_ns (ec_endpoint c)) < 2 ^ 31 * 10 ^ 9"
    "data_build (sedp_data_config c) (Span (sedp_payload c)) (data_builder_new (eb_buffer d)) = Some (ok, b)"
  shows "sedp_build c d = Some (ok, \<lparr>eb_buffer = db_buffer b, eb_size = (if ok then db_size b else 0),
     eb_error = (if ok then sedp_none else sedp_rtps_error), eb_rtps_error = (if ok then rtps_none else db_error b)\<rparr>)"
proof -
  have ok: "endpoint_ok (ec_endpoint c)" using assms(2) by (simp add: sedp_request_ok_def)
  obtain w0 w where w: "parameter_writer_new (replicate sedp_payload_capacity 0) (ec_parameter_byte_order c) = Some w0"
    "sedp_parameters (ec_endpoint c) (ec_parameter_byte_order c) w0 = Some (True, w)"
    "rd_block (pw_buffer w) 0 (pw_size w) = Some (sedp_payload c)"
    by (rule sedp_payload_written [OF assms(1) ok assms(3)])
  show ?thesis
    unfolding sedp_build_checked [OF assms(1,2)] by (cases ok) (simp_all add: Let_def w assms(4) sedp_fail_def)
qed

lemma sedp_build_ok:
  assumes "wf_sedp_config c" "sedp_announcement_ok c" "eb_buffer d = Span b"
    "data_message_overhead + length (sedp_payload c) \<le> length b"
  shows "sedp_build c d = Some (True,
    \<lparr>eb_buffer = Span (data_bytes (sedp_data_config c) (sedp_payload c) @ drop (data_message_overhead + length (sedp_payload c)) b),
     eb_size = data_message_overhead + length (sedp_payload c), eb_error = sedp_none, eb_rtps_error = rtps_none\<rparr>)"
proof -
  have wf: "wf_endpoint (ec_endpoint c)" using assms(1) by (simp add: wf_sedp_config_def)
  have ok: "endpoint_ok (ec_endpoint c)" "supported_byte_order (ec_submessage_byte_order c)" "sedp_request_ok c d"
    "unat (ed_max_blocking_time_ns (ec_endpoint c)) < 2 ^ 31 * 10 ^ 9"
    using assms(2,3) by (simp_all add: sedp_announcement_ok_def sedp_request_ok_def)
  note dc = sedp_data_config_ok [OF assms(1) ok(1,2)]
  have "data_config_ok (sedp_data_config c) (sedp_payload c)" using dc(2) assms(2) by (simp add: sedp_announcement_ok_def)
  from data_build_cases [OF dc(1) refl _ this, of "data_builder_new (eb_buffer d)" b] assms(3,4)
    sedp_build_valid [OF wf ok(3,4)]
  show ?thesis by simp
qed

section \<open>Parsing endpoint announcements\<close>

lemmas sedp_pids = pid_topic_name_def pid_type_name_def pid_reliability_def pid_durability_def pid_unicast_locator_def
  pid_multicast_locator_def pid_endpoint_guid_def pid_participant_guid_def pid_expects_inline_qos_def pid_sentinel_def

lemma parse_string_bytes:
  assumes "1 \<le> length s" "length s < length output" "length output = 256" "0 \<notin> set s"
  shows "parse_string (padded_value (string_bytes order s)) order output = Some (Inr (s @ drop (length s) output, length s))"
proof -
  let ?v = "padded_value (string_bytes order s)"
  obtain z where v: "?v = word_bytes order 4 (of_nat (length s + 1) :: u32) @ s @ 0 # z"
    by (simp add: padded_value_def string_bytes_def)
  have len: "unat (of_nat (length s + 1) :: u32) = length s + 1"
    unfolding unat_of_nat using assms by simp
  have "8 \<le> length ?v" using padded_size_props [of "length s + 5"] assms(1)
    unfolding length_padded_value by (cases s) (simp_all add: string_bytes_def, presburger)
  moreover have "read_u32 order 0 ?v = Some (of_nat (length s + 1))" "rd ?v (4 + length s) = Some 0"
    "rd_block ?v 4 (length s) = Some s"
    unfolding v by (simp_all add: u32_codec.get_block rd_def rd_block_def nth_append)
  moreover have "length s + 1 \<le> length ?v - 4" unfolding v by simp
  moreover have "wr_block output 0 s = Some (s @ drop (length s) output)" "\<not> list_ex (\<lambda>b. b = 0) s"
    using assms(2,4) by (auto simp: wr_block_def list_ex_iff)
  moreover have "s \<noteq> []" using assms(1) by auto
  ultimately show ?thesis
    using assms len by (simp add: parse_string_def del: length_padded_value)
qed

lemma sedp_handle_locators:
  assumes handler: "\<And>value st. sedp_parameter expected order pid value st =
      sedp_locator value order get (\<lambda>ls. upd (\<lambda>_. ls) (es_endpoint st)) st"
    and lens: "\<And>x p. get (upd (\<lambda>_. x) p) = x" "\<And>x y p. upd (\<lambda>_. x) (upd (\<lambda>_. y) p) = upd (\<lambda>_. x) p"
      "\<And>p. upd (\<lambda>_. get p) p = p"
    and "list_all (\<lambda>l. wf_locator l \<and> valid_udp_v4_locator l) xs"
    and "wf_locators (get (es_endpoint st))" "ll_size (get (es_endpoint st)) + length xs \<le> spdp_max_locators"
  shows "handle_all (sedp_parameter expected) order (map (\<lambda>l. (pid, locator_bytes order l)) xs) st =
    Some (Inr (st\<lparr>es_endpoint := upd (\<lambda>_. fold push_locator xs (get (es_endpoint st))) (es_endpoint st),
      es_seen_locator := (es_seen_locator st \<or> xs \<noteq> [])\<rparr>))"
  using assms(5-)
proof (induction xs arbitrary: st)
  case Nil
  then show ?case by (simp add: lens)
next
  case (Cons x xs)
  let ?ls = "get (es_endpoint st)"
  let ?st = "st\<lparr>es_endpoint := upd (\<lambda>_. push_locator x ?ls) (es_endpoint st), es_seen_locator := True\<rparr>"
  have room: "ll_size ?ls < spdp_max_locators" using Cons.prems by simp
  have "sedp_parameter expected order pid (padded_value (locator_bytes order x)) st = Some (Inr ?st)"
    using append_parsed_locator_bytes [OF _ room, of x order] Cons.prems
    by (simp add: handler sedp_locator_def push_locator_def)
  moreover have "handle_all (sedp_parameter expected) order (map (\<lambda>l. (pid, locator_bytes order l)) xs) ?st =
    Some (Inr (?st\<lparr>es_endpoint := upd (\<lambda>_. fold push_locator xs (get (es_endpoint ?st))) (es_endpoint ?st),
      es_seen_locator := (es_seen_locator ?st \<or> xs \<noteq> [])\<rparr>))"
    using Cons.prems wf_push_locator [OF _ room, of x]
    by (intro Cons.IH) (simp_all add: lens, simp add: push_locator_def)
  ultimately show ?case by (simp add: lens)
qed

lemma sedp_parameter_locator:
  "sedp_parameter expected order pid_unicast_locator value st =
     sedp_locator value order ed_unicast_locators (\<lambda>ls. ed_unicast_locators_update (\<lambda>_. ls) (es_endpoint st)) st"
  "sedp_parameter expected order pid_multicast_locator value st =
     sedp_locator value order ed_multicast_locators (\<lambda>ls. ed_multicast_locators_update (\<lambda>_. ls) (es_endpoint st)) st"
  by (simp_all add: sedp_parameter_def Let_def sedp_pids)

lemma sedp_handle_announced:
  assumes "locators_shape ls" "valid_locators ls"
    and "\<And>value st. sedp_parameter expected order pid value st =
        sedp_locator value order get (\<lambda>ls. upd (\<lambda>_. ls) (es_endpoint st)) st"
      "\<And>x p. get (upd (\<lambda>_. x) p) = x" "\<And>x y p. upd (\<lambda>_. x) (upd (\<lambda>_. y) p) = upd (\<lambda>_. x) p" "\<And>p. upd (\<lambda>_. get p) p = p"
    and "get (es_endpoint st) = empty_locators"
  shows "handle_all (sedp_parameter expected) order (locator_parameters order pid ls @ qs) st =
    handle_all (sedp_parameter expected) order qs
      (st\<lparr>es_endpoint := upd (\<lambda>_. fresh_locators (locators ls)) (es_endpoint st),
        es_seen_locator := (es_seen_locator st \<or> locators ls \<noteq> [])\<rparr>)"
proof -
  have "list_all (\<lambda>l. wf_locator l \<and> valid_udp_v4_locator l) (locators ls)" "length (locators ls) \<le> spdp_max_locators"
    using assms(1,2) by (auto simp: locators_def locators_shape_def valid_locators_def list_all_iff dest: in_set_takeD)
  moreover have "wf_locators empty_locators" "ll_size empty_locators = 0"
    by (simp_all add: wf_locators_def empty_locators_def)
  ultimately show ?thesis
    unfolding locator_parameters_def fresh_locators_def assms(7) [symmetric]
    by (intro handle_all_seq sedp_handle_locators assms) (simp_all add: assms(7))
qed

lemma sedp_handle_guids:
  assumes "length prefix = 12" "length entity = 4" "\<not> es_seen_endpoint st" "\<not> es_seen_participant st"
  shows "handle_all (sedp_parameter prefix) order
     [(pid_endpoint_guid, prefix @ entity), (pid_participant_guid, prefix @ entity_id_participant)] st =
    Some (Inr (st\<lparr>es_endpoint := (es_endpoint st)\<lparr>ed_endpoint_id := entity\<rparr>, es_seen_endpoint := True, es_seen_participant := True\<rparr>))"
proof -
  have vals: "padded_value (prefix @ x) = prefix @ x" "rd_block (prefix @ x) 0 12 = Some prefix"
    "rd_block (prefix @ x) 12 4 = Some x" "length (prefix @ x) = 16" if "length x = 4" for x
    using that assms(1) by (simp_all add: padded_value_def padded_size_def rd_block_def)
  have four: "length entity_id_participant = 4" by (simp add: entity_id_participant_def)
  show ?thesis
    using assms(3,4) vals [OF assms(2)] vals [OF four]
    by (simp add: sedp_parameter_def Let_def sedp_pids del: length_append)
qed

lemma sedp_handle_names:
  assumes "1 \<le> length s" "length s \<le> 255" "0 \<notin> set s" "1 \<le> length u" "length u \<le> 255" "0 \<notin> set u"
    "\<not> es_seen_topic st" "\<not> es_seen_type st" "length (ed_topic_name (es_endpoint st)) = 256"
    "length (ed_type_name (es_endpoint st)) = 256"
  shows "handle_all (sedp_parameter expected) order [(pid_topic_name, string_bytes order s), (pid_type_name, string_bytes order u)] st =
    Some (Inr (st\<lparr>es_endpoint := (es_endpoint st)\<lparr>ed_topic_name := s @ drop (length s) (ed_topic_name (es_endpoint st)),
        ed_topic_name_size := length s, ed_type_name := u @ drop (length u) (ed_type_name (es_endpoint st)),
        ed_type_name_size := length u\<rparr>, es_seen_topic := True, es_seen_type := True\<rparr>))"
  using assms parse_string_bytes [of s "ed_topic_name (es_endpoint st)" order]
    parse_string_bytes [of u "ed_type_name (es_endpoint st)" order]
  by (simp add: sedp_parameter_def Let_def sedp_pids)

lemma sedp_handle_qos:
  assumes "\<not> es_seen_reliability st" "\<not> es_seen_durability st" "\<not> es_seen_inline st"
    "valid_reliability rel" "valid_durability dur" "\<not> sint (ucast (duration_seconds d) :: u32) < 0"
  shows "handle_all (sedp_parameter expected) order
     [(pid_reliability, word_bytes order 4 rel @ duration_bytes order d), (pid_durability, word_bytes order 4 dur),
      (pid_expects_inline_qos, [if q then 1 else 0])] st =
    Some (Inr (st\<lparr>es_endpoint := (es_endpoint st)\<lparr>ed_reliability := rel,
        ed_max_blocking_time_ns := duration_value (ucast (duration_seconds d)) (duration_fraction d),
        ed_durability := dur, ed_expects_inline_qos := q\<rparr>,
      es_seen_reliability := True, es_seen_durability := True, es_seen_inline := True\<rparr>))"
proof -
  have three: "replicate 3 0 = [0, 0, 0 :: byte]" by (simp add: eval_nat_numeral)
  have vals: "padded_value [x] = [x, 0, 0, 0]" "padded_value (word_bytes order 4 dur) = word_bytes order 4 dur"
    "padded_value (word_bytes order 4 rel @ duration_bytes order d) = word_bytes order 4 rel @ duration_bytes order d" for x :: byte
    by (simp_all add: padded_value_def padded_size_def duration_bytes_def three)
  have reads: "read_u32 order 0 (word_bytes order 4 dur) = Some dur"
    "read_u32 order 0 (word_bytes order 4 rel @ duration_bytes order d) = Some rel"
    "read_u32 order 4 (word_bytes order 4 rel @ duration_bytes order d) = Some (ucast (duration_seconds d))"
    "read_u32 order 8 (word_bytes order 4 rel @ duration_bytes order d) = Some (duration_fraction d)"
    "length (word_bytes order 4 rel @ duration_bytes order d) = 12"
    by (simp_all add: u32_codec.get_block duration_bytes_def)
  show ?thesis
    using assms
    by (simp add: sedp_parameter_def sedp_reliability_def parse_duration_def Let_def sedp_pids vals reads rd_def del: length_append)
qed

lemma blocking_time_roundtrip:
  assumes "unat d < 2 ^ 31 * 10 ^ 9"
  defines "d' \<equiv> duration_value (ucast (duration_seconds d)) (duration_fraction d)"
  shows "\<not> sint (ucast (duration_seconds d) :: u32) < 0" "unat d' = unat d \<or> unat d' + 1 = unat d"
proof -
  have "duration_seconds d \<le> 0x7FFFFFFF" using assms(1) lease_seconds [of d] by (simp add: not_less)
  from duration_roundtrip [OF this]
  show "\<not> sint (ucast (duration_seconds d) :: u32) < 0" "unat d' = unat d \<or> unat d' + 1 = unat d"
    by (auto simp: Let_def d'_def [symmetric] word_le_nat_alt)
qed

lemma handle_endpoint:
  assumes "wf_endpoint e" "endpoint_ok e" "unat (ed_max_blocking_time_ns e) < 2 ^ 31 * 10 ^ 9"
    "dv_version data = ed_protocol_version e" "dv_vendor_id data = ed_vendor_id e"
  shows "\<exists>st. handle_all (sedp_parameter (ed_participant_guid_prefix e)) order (sedp_parameter_list order e)
      (sedp_parse_start data (announced_kind (ed_kind e)) (ed_participant_guid_prefix e)) = Some (Inr st) \<and>
    es_endpoint st = announced_endpoint e \<and> es_seen_endpoint st \<and> es_seen_topic st \<and> es_seen_type st"
proof -
  let ?d = "ed_max_blocking_time_ns e" and ?k = "ed_participant_guid_prefix e"
  let ?start = "sedp_parse_start data (announced_kind (ed_kind e)) ?k"
  note lens = endpoint_arrays [OF assms(1)]
  have ok: "valid_reliability (ed_reliability e)" "valid_durability (ed_durability e)"
    "1 \<le> ed_topic_name_size e" "ed_topic_name_size e \<le> 255" "1 \<le> ed_type_name_size e" "ed_type_name_size e \<le> 255"
    "0 \<notin> set (topic_text e)" "0 \<notin> set (type_text e)" "list_all valid_locators (endpoint_locators e)"
    using assms(2) by (simp_all add: endpoint_ok_def)
  then have texts: "length (topic_text e) = ed_topic_name_size e" "length (type_text e) = ed_type_name_size e"
    using lens by (simp_all add: topic_text_def type_text_def)
  note lists = endpoint_lists(1,2) [OF assms(1) ok(9), unfolded endpoint_locators_def]
  have parts: "sedp_parameter_list order e =
     [(pid_endpoint_guid, ?k @ ed_endpoint_id e), (pid_participant_guid, ?k @ entity_id_participant)] @
     [(pid_topic_name, string_bytes order (topic_text e)), (pid_type_name, string_bytes order (type_text e))] @
     [(pid_reliability, word_bytes order 4 (ed_reliability e) @ duration_bytes order ?d),
      (pid_durability, word_bytes order 4 (ed_durability e)), (pid_expects_inline_qos, [if ed_expects_inline_qos e then 1 else 0])] @
     locator_parameters order pid_unicast_locator (ed_unicast_locators e) @
     locator_parameters order pid_multicast_locator (ed_multicast_locators e) @ []"
    by (simp add: sedp_parameter_list_def)
  note start = sedp_parse_start_def default_endpoint_def sedp_max_topic_name_def sedp_max_type_name_def
  note steps = handle_all_seq [OF sedp_handle_guids [OF lens(2,3)]]
    handle_all_seq [OF sedp_handle_names [of "topic_text e" "type_text e"]]
    handle_all_seq [OF sedp_handle_qos [OF _ _ _ ok(1,2) blocking_time_roundtrip(1) [OF assms(3)]]]
    sedp_handle_announced [OF lists sedp_parameter_locator(1)] sedp_handle_announced [OF lists sedp_parameter_locator(2)]
  define st1 where "st1 = ?start\<lparr>es_endpoint := (es_endpoint ?start)
      \<lparr>ed_endpoint_id := ed_endpoint_id e, ed_topic_name := topic_text e @ replicate (256 - ed_topic_name_size e) 0,
       ed_topic_name_size := ed_topic_name_size e, ed_type_name := type_text e @ replicate (256 - ed_type_name_size e) 0,
       ed_type_name_size := ed_type_name_size e, ed_reliability := ed_reliability e,
       ed_max_blocking_time_ns := duration_value (ucast (duration_seconds ?d)) (duration_fraction ?d),
       ed_durability := ed_durability e, ed_expects_inline_qos := ed_expects_inline_qos e,
       ed_unicast_locators := fresh_locators (locators (ed_unicast_locators e)),
       ed_multicast_locators := fresh_locators (locators (ed_multicast_locators e))\<rparr>,
      es_seen_endpoint := True, es_seen_participant := True, es_seen_topic := True, es_seen_type := True,
      es_seen_reliability := True, es_seen_durability := True, es_seen_inline := True,
      es_seen_locator := (locators (ed_unicast_locators e) \<noteq> [] \<or> locators (ed_multicast_locators e) \<noteq> [])\<rparr>"
  have "handle_all (sedp_parameter ?k) order (sedp_parameter_list order e) ?start = handle_all (sedp_parameter ?k) order [] st1"
    unfolding parts st1_def
    by (use ok texts in \<open>simp add: start steps del: append.simps handle_all.simps append_Nil2\<close>)
  moreover have "es_endpoint st1 = announced_endpoint e"
    using assms(4,5) by (cases e) (simp add: st1_def start announced_endpoint_def)
  ultimately show ?thesis by (simp add: st1_def)
qed

lemma announced_endpoint_agrees:
  assumes "wf_endpoint e" "endpoint_ok e" "unat (ed_max_blocking_time_ns e) < 2 ^ 31 * 10 ^ 9"
  shows "endpoint_agrees e (announced_endpoint e)"
    "size_add (ll_size (ed_unicast_locators (announced_endpoint e))) (ll_size (ed_multicast_locators (announced_endpoint e))) \<noteq> 0"
proof -
  have len: "length (locators ls) \<le> spdp_max_locators" if "ls \<in> set (endpoint_locators e)" for ls
    using assms(2) that by (auto simp: endpoint_ok_def list_all_iff valid_locators_def locators_def)
  note fresh = fresh_locators_props [OF len, unfolded endpoint_locators_def]
  have texts: "length (topic_text e) = ed_topic_name_size e" "length (type_text e) = ed_type_name_size e"
    using endpoint_arrays [OF assms(1)] assms(2) by (simp_all add: topic_text_def type_text_def endpoint_ok_def)
  then have "topic_text (announced_endpoint e) = topic_text e" "type_text (announced_endpoint e) = type_text e"
    by (simp_all add: announced_endpoint_def topic_text_def type_text_def)
  with fresh blocking_time_roundtrip(2) [OF assms(3)] show "endpoint_agrees e (announced_endpoint e)"
    by (simp add: endpoint_agrees_def announced_endpoint_def endpoint_locators_def)
  have "length (locators (ed_unicast_locators e)) \<le> 4" "length (locators (ed_multicast_locators e)) \<le> 4"
    using len by (simp_all add: endpoint_locators_def spdp_max_locators_def)
  then show "size_add (ll_size (ed_unicast_locators (announced_endpoint e)))
      (ll_size (ed_multicast_locators (announced_endpoint e))) \<noteq> 0"
    using fresh assms(2) by (auto simp: announced_endpoint_def endpoint_ok_def size_add_def SIZE_MAX_def)
qed

lemma sedp_parameters_wf:
  assumes "wf_endpoint e" "endpoint_ok e"
  shows "list_all parameter_ok (sedp_parameter_list order e)"
proof -
  note lens = endpoint_arrays [OF assms(1)]
  have sizes: "length (topic_text e) \<le> 255" "length (type_text e) \<le> 255"
    using assms(2) lens by (simp_all add: topic_text_def type_text_def endpoint_ok_def)
  have locs: "list_all parameter_ok (locator_parameters order pid ls)" if "ls \<in> set (endpoint_locators e)" "pid \<noteq> pid_sentinel" for ls pid
    using assms(1) that
    by (auto simp: locator_parameters_def list_all_iff parameter_ok_def wf_endpoint_def endpoint_locators_def locators_def
        locators_shape_def locator_bytes_def wf_locator_def padded_size_def dest!: in_set_takeD)
  have strings: "padded_size (length (string_bytes order s)) \<le> 65535" if "length s \<le> 255" for s
    using padded_size_props(3) [of "length (string_bytes order s)"] that by (simp add: string_bytes_def)
  then show ?thesis
    using locs strings [OF sizes(1)] strings [OF sizes(2)]
    by (simp add: sedp_parameter_list_def endpoint_locators_def parameter_ok_def sedp_pids lens padded_size_def
      duration_bytes_def entity_id_participant_def)
qed

lemma parse_endpoint_announcement:
  assumes "wf_sedp_config c" "sedp_announcement_ok c"
  shows "parse_sedp_message (Span (data_bytes (sedp_data_config c) (sedp_payload c))) expected =
    Some (if ed_participant_guid_prefix (ec_endpoint c) = expected
      then Inr (\<lparr>ev_endpoint = announced_endpoint (ec_endpoint c), ev_sequence_number = ec_sequence_number c,
             ev_submessage_byte_order = ec_submessage_byte_order c, ev_parameter_byte_order = ec_parameter_byte_order c\<rparr>,
           data_message_overhead + length (sedp_payload c))
      else Inl (sedp_participant_mismatch, rtps_none))"
proof -
  let ?e = "ec_endpoint c" and ?o = "ec_parameter_byte_order c" and ?pl = "sedp_payload c"
  let ?k = "ed_participant_guid_prefix ?e" and ?data = "data_view (sedp_data_config c) (sedp_payload c)"
  have wf: "wf_endpoint ?e" using assms(1) by (simp add: wf_sedp_config_def)
  have ok: "endpoint_ok ?e" "supported_byte_order (ec_submessage_byte_order c)" "supported_byte_order ?o"
    "unat (ed_max_blocking_time_ns ?e) < 2 ^ 31 * 10 ^ 9"
    and reader: "ec_reader_id c \<in> {entity_id_unknown, expected_reader (ed_kind ?e)}"
    using assms(2) by (simp_all add: sedp_announcement_ok_def)
  have dc: "wf_data_config (sedp_data_config c)" "data_config_ok (sedp_data_config c) ?pl"
    using sedp_data_config_ok [OF assms(1) ok(1,2)] assms(2) by (simp_all add: sedp_announcement_ok_def)
  have len: "8 \<le> length ?pl" using sedp_payload_fits(2) [OF wf ok(1)] by (simp add: sedp_payload_def)
  have head: "rd ?pl 0 = Some 0" "rd ?pl 1 = Some (if ?o = little_endian then 3 else 2)"
    by (simp_all add: sedp_payload_def payload_bytes_def rd_def)
  have view: "dv_payload ?data = ?pl" "dv_guid_prefix ?data = ?k" "dv_reader_id ?data = ec_reader_id c"
    "dv_version ?data = ed_protocol_version ?e" "dv_vendor_id ?data = ed_vendor_id ?e"
    by (simp_all add: data_view_def sedp_data_config_def)
  have kind: "sedp_kind ?data = Some (announced_kind (ed_kind ?e), expected_reader (ed_kind ?e))"
    by (cases "ed_kind ?e") (simp_all add: announced_kind_def sedp_kind_def data_view_def sedp_data_config_def expected_reader_def
        entity_id_publications_writer_def entity_id_subscriptions_writer_def)
  obtain st where st: "handle_all (sedp_parameter ?k) ?o (sedp_parameter_list ?o ?e) (sedp_parse_start ?data (announced_kind (ed_kind ?e)) ?k) = Some (Inr st)"
    "es_endpoint st = announced_endpoint ?e" "es_seen_endpoint st" "es_seen_topic st" "es_seen_type st"
    using handle_endpoint [OF wf ok(1,4) view(4,5)] by blast
  have walk: "parameter_walk (sedp_parameter ?k) sedp_malformed_parameter ?o ?pl 4 (sedp_parse_start ?data (announced_kind (ed_kind ?e)) ?k) = Some (Inr (st, True))"
    by (simp add: sedp_payload_def parameter_walk_payload [OF sedp_parameters_wf [OF wf ok(1)]] st(1) [unfolded sedp_payload_def])
  have id_kind: "valid_endpoint_id eid (announced_kind kind) = valid_endpoint_id eid kind" for eid kind
    by (simp add: valid_endpoint_id_def announced_kind_def)
  have accept: "sedp_accept ?data ?o (announced_kind (ed_kind ?e)) (st, True) =
      Inr \<lparr>ev_endpoint = announced_endpoint ?e, ev_sequence_number = ec_sequence_number c,
             ev_submessage_byte_order = ec_submessage_byte_order c, ev_parameter_byte_order = ?o\<rparr>"
    using announced_endpoint_agrees [OF wf ok(1,4)] st ok(1)
    by (simp add: sedp_accept_def data_view_def sedp_data_config_def endpoint_agrees_def endpoint_ok_def id_kind Let_def)
  show ?thesis
    using len accept walk head ok(3) reader
    by (cases "?o = little_endian")
      (auto simp: parse_sedp_message_def parse_data_bytes [OF dc] view kind Let_def length_data_bytes [OF dc(1)] supported_byte_order_def)
qed

text \<open>A step that writes its parameters passes a longer writer on to the next one.\<close>

lemma reliability_too_long:
  assumes "\<not> unat (ed_max_blocking_time_ns e) < 2 ^ 31 * 10 ^ 9" "16 \<le> length R"
  shows "\<exists>w. append_reliability e order \<lparr>pw_buffer = X @ R, pw_order = order, pw_size = length X\<rparr> = Some (False, w)"
proof -
  have twelve: "padded_size 12 = 12" by (simp add: padded_size_def)
  have "duration_seconds (ed_max_blocking_time_ns e) > 0x7FFFFFFF" using assms(1) by (simp add: lease_seconds)
  then show ?thesis
    using assms(2) parameter_append_room [of 12 R pid_reliability X order]
    by (simp add: append_reliability_def append_duration_def twelve u32_codec.put_block wr_block_def)
qed

lemma sedp_parameters_too_long:
  assumes "wf_endpoint e" "endpoint_ok e" "\<not> unat (ed_max_blocking_time_ns e) < 2 ^ 31 * 10 ^ 9"
  obtains w0 w where "parameter_writer_new (replicate sedp_payload_capacity 0) order = Some w0"
    "sedp_parameters e order w0 = Some (False, w)"
proof -
  note lens = endpoint_arrays [OF assms(1)]
  have sizes: "ed_topic_name_size e \<le> 255" "ed_type_name_size e \<le> 255" using assms(2) by (simp_all add: endpoint_ok_def)
  let ?k = "ed_participant_guid_prefix e"
  define h where "h = ([0, if order = little_endian then 3 else 2, 0, 0] :: byte list)"
  let ?ps = "[(pid_endpoint_guid, ?k @ ed_endpoint_id e)] @ [(pid_participant_guid, ?k @ entity_id_participant)] @
    [(pid_topic_name, string_bytes order (topic_text e))] @ [(pid_type_name, string_bytes order (type_text e))]"
  let ?rest = "\<lambda>w. and_also (append_reliability e order)
    (and_also (append_value pid_durability 4 (\<lambda>value b. write_u32 order value (ed_durability e) b))
    (and_also (append_value pid_expects_inline_qos 1 (\<lambda>value b. wr b value (if ed_expects_inline_qos e then 1 else 0)))
    (and_also (append_locators pid_unicast_locator (ed_unicast_locators e) order)
    (and_also (append_locators pid_multicast_locator (ed_multicast_locators e) order)
     parameter_finish)))) w"
  have assoc: "and_also (and_also f g) k = and_also f (and_also g k)" for f g k
    by (auto simp: fun_eq_iff and_also_def split: bind_splits option.splits prod.splits)
  have four: "writes order (and_also (append_guid pid_endpoint_guid ?k (ed_endpoint_id e))
    (and_also (append_guid pid_participant_guid ?k entity_id_participant)
    (and_also (append_string pid_topic_name (ed_topic_name e) (ed_topic_name_size e) order)
      (append_string pid_type_name (ed_type_name e) (ed_type_name_size e) order)))) ?ps"
    unfolding topic_text_def type_text_def append_guid_def
    by (intro writes_and_also writes_string writes_value)
      (use sizes in \<open>simp_all add: mem_simps padded_size_def lens entity_id_participant_def\<close>)
  have name: "padded_size (length (string_bytes order (take n s))) \<le> 264" if "n \<le> 255" for n s
    using that padded_size_props(3) [of "length (string_bytes order (take n s))"] by (simp add: string_bytes_def)
  have len: "length (parameters_bytes order ?ps) \<le> 600"
    using name [OF sizes(1), of "ed_topic_name e"] name [OF sizes(2), of "ed_type_name e"]
    by (simp add: lens entity_id_participant_def topic_text_def type_text_def) (simp add: padded_size_def)
  let ?R = "replicate 1276 0 :: byte list"
  define B where "B = parameters_bytes order ?ps"
  have room: "16 \<le> length (drop (length B) ?R)" using len unfolding B_def [symmetric] by simp
  obtain w where w: "append_reliability e order \<lparr>pw_buffer = (h @ B) @ drop (length B) ?R,
      pw_order = order, pw_size = length (h @ B)\<rparr> = Some (False, w)"
    using reliability_too_long [OF assms(3) room] by blast
  have "length B \<le> length ?R" using len unfolding B_def [symmetric] by simp
  from writes_then [OF four, folded B_def, OF this, of ?rest h] w
  have "sedp_parameters e order \<lparr>pw_buffer = h @ ?R, pw_order = order, pw_size = length h\<rparr> = Some (False, w)"
    unfolding sedp_parameters_def assoc by (simp add: and_also_def)
  moreover have "parameter_writer_new (replicate sedp_payload_capacity 0) order =
      Some \<lparr>pw_buffer = h @ ?R, pw_order = order, pw_size = length h\<rparr>"
    by (simp add: parameter_writer_new_bytes sedp_payload_capacity_def h_def)
  ultimately show thesis using that by blast
qed

lemma sedp_long_blocking_time:
  assumes "wf_endpoint (ec_endpoint c)" "sedp_request_ok c d"
    "\<not> unat (ed_max_blocking_time_ns (ec_endpoint c)) < 2 ^ 31 * 10 ^ 9"
  shows "\<exists>d'. sedp_build c d = Some (False, d') \<and> eb_error d' = sedp_buffer_overflow \<and>
    eb_size d' = 0 \<and> eb_buffer d' = eb_buffer d"
proof -
  have ok: "endpoint_ok (ec_endpoint c)" using assms(2) by (simp add: sedp_request_ok_def)
  obtain w0 w where "parameter_writer_new (replicate sedp_payload_capacity 0) (ec_parameter_byte_order c) = Some w0"
    "sedp_parameters (ec_endpoint c) (ec_parameter_byte_order c) w0 = Some (False, w)"
    by (rule sedp_parameters_too_long [OF assms(1) ok assms(3)])
  then show ?thesis unfolding sedp_build_checked [OF assms(1,2)] by (simp add: Let_def sedp_fail_def)
qed

lemma sedp_build_success:
  assumes "wf_sedp_config c" "sedp_build c d = Some (True, d')"
  obtains b where "sedp_announcement_ok c" "eb_buffer d = Span b"
    "data_message_overhead + length (sedp_payload c) \<le> length b"
proof -
  have wf: "wf_endpoint (ec_endpoint c)" using assms(1) by (simp add: wf_sedp_config_def)
  have req: "sedp_request_ok c d"
    by (rule ccontr) (use sedp_build_unchecked [OF wf, of d] assms(2) in \<open>auto simp: sedp_fail_def\<close>)
  then have ok: "endpoint_ok (ec_endpoint c)" by (simp add: sedp_request_ok_def)
  have time: "unat (ed_max_blocking_time_ns (ec_endpoint c)) < 2 ^ 31 * 10 ^ 9"
  proof (rule ccontr)
    assume "\<not> unat (ed_max_blocking_time_ns (ec_endpoint c)) < 2 ^ 31 * 10 ^ 9"
    from sedp_long_blocking_time [OF wf req this] assms(2) show False by auto
  qed
  have dc: "wf_data_config (sedp_data_config c)" "sedp_announcement_ok c \<longleftrightarrow> data_config_ok (sedp_data_config c) (sedp_payload c)"
    using req time sedp_data_config_ok [OF assms(1) ok] by (auto simp: sedp_request_ok_def sedp_announcement_ok_def)
  obtain r where r: "data_build (sedp_data_config c) (Span (sedp_payload c)) (data_builder_new (eb_buffer d)) =
      Some (db_error r = rtps_none, r)" using data_build_total [OF dc(1)] by blast
  with sedp_build_valid [OF wf req time r] assms(2) have "db_error r = rtps_none" by auto
  with data_build_iff(1) [OF dc(1) r] dc(2) that show thesis by (cases "eb_buffer d") auto
qed

lemma demo_sedp_config_ok: "wf_sedp_config demo_sedp_config" "sedp_announcement_ok demo_sedp_config"
proof -
  have lists: "list_all valid_locators (endpoint_locators demo_endpoint)" "locators (ed_unicast_locators demo_endpoint) \<noteq> []"
    "locators_shape (ed_unicast_locators demo_endpoint)" "locators_shape (ed_multicast_locators demo_endpoint)"
    by code_simp+
  have texts: "topic_text demo_endpoint = [97, 98]" "type_text demo_endpoint = [99]"
    by (simp_all add: topic_text_def type_text_def demo_endpoint_def)
  have lens: "length (ed_topic_name demo_endpoint) = 256" "length (ed_type_name demo_endpoint) = 256"
    by (simp_all add: demo_endpoint_def)
  have ids: "wf_vendor_id (ed_vendor_id demo_endpoint)" "wf_guid_prefix (ed_participant_guid_prefix demo_endpoint)"
    "wf_entity_id (ed_endpoint_id demo_endpoint)" "valid_endpoint_id (ed_endpoint_id demo_endpoint) (ed_kind demo_endpoint)"
    "\<exists>b \<in> set (ed_participant_guid_prefix demo_endpoint). b \<noteq> 0"
    by (simp_all add: demo_endpoint_def default_endpoint_def wf_vendor_id_def wf_guid_prefix_def wf_entity_id_def
        valid_endpoint_id_def)
  have qos: "valid_reliability (ed_reliability demo_endpoint)" "valid_durability (ed_durability demo_endpoint)"
    "unat (ed_max_blocking_time_ns demo_endpoint) = 100000000" "ed_topic_name_size demo_endpoint = 2"
    "ed_type_name_size demo_endpoint = 1" "ed_protocol_version demo_endpoint = \<lparr>pv_major = 2, pv_minor = 5\<rparr>"
    by (simp_all add: demo_endpoint_def default_endpoint_def valid_reliability_def valid_durability_def)
  show "wf_sedp_config demo_sedp_config"
    using lists ids lens
    by (simp add: wf_sedp_config_def wf_endpoint_def demo_sedp_config_def sedp_max_topic_name_def sedp_max_type_name_def
        entity_id_unknown_def) (simp add: wf_entity_id_def)
  show "sedp_announcement_ok demo_sedp_config"
    using lists ids
    by (simp add: sedp_announcement_ok_def endpoint_ok_def demo_sedp_config_def texts qos supported_byte_order_def)
qed

text \<open>C14: Whenever an endpoint announcement is built, parsing the reported bytes for that participant
  gives back the endpoint: the same identity, kind, topic and type names, reliability, durability,
  inline-QoS flag and locators, with the blocking time rounded down by at most one nanosecond. A kind
  that the enumeration does not name comes back as a reader. For any other participant the message
  is refused.\<close>

theorem sedp_roundtrip:
  assumes "wf_sedp_config c" "sedp_build c d = Some (True, d')"
  shows "\<exists>q. endpoint_agrees (ec_endpoint c) q \<and>
    (\<forall>expected. parse_sedp_message (Span (take (eb_size d') (span_bytes (eb_buffer d')))) expected =
      Some (if ed_participant_guid_prefix (ec_endpoint c) = expected
        then Inr (\<lparr>ev_endpoint = q, ev_sequence_number = ec_sequence_number c,
               ev_submessage_byte_order = ec_submessage_byte_order c,
               ev_parameter_byte_order = ec_parameter_byte_order c\<rparr>, eb_size d')
        else Inl (sedp_participant_mismatch, rtps_none)))"
proof -
  from assms obtain b where b: "sedp_announcement_ok c" "eb_buffer d = Span b"
    "data_message_overhead + length (sedp_payload c) \<le> length b" by (rule sedp_build_success)
  have wf: "wf_endpoint (ec_endpoint c)" using assms(1) by (simp add: wf_sedp_config_def)
  have ok: "endpoint_ok (ec_endpoint c)" "supported_byte_order (ec_submessage_byte_order c)"
    "unat (ed_max_blocking_time_ns (ec_endpoint c)) < 2 ^ 31 * 10 ^ 9"
    using b(1) by (simp_all add: sedp_announcement_ok_def)
  note len = length_data_bytes [OF sedp_data_config_ok(1) [OF assms(1) ok(1,2)], of "sedp_payload c"]
  from sedp_build_ok [OF assms(1) b] assms(2)
  have "eb_size d' = data_message_overhead + length (sedp_payload c)"
    "take (eb_size d') (span_bytes (eb_buffer d')) = data_bytes (sedp_data_config c) (sedp_payload c)"
    by (auto simp: len)
  with parse_endpoint_announcement [OF assms(1) b(1)] announced_endpoint_agrees(1) [OF wf ok(1,3)]
  show ?thesis by auto
qed

theorem sedp_roundtrip_witness:
  "\<exists>d' q. sedp_build demo_sedp_config (sedp_builder_new (Span (replicate 1400 0))) = Some (True, d') \<and>
     endpoint_agrees demo_endpoint q \<and>
     parse_sedp_message (Span (take (eb_size d') (span_bytes (eb_buffer d')))) [1, 2, 3, 4, 5, 6, 7, 8, 9, 10, 11, 12] =
       Some (Inr (\<lparr>ev_endpoint = q, ev_sequence_number = 5, ev_submessage_byte_order = big_endian,
         ev_parameter_byte_order = little_endian\<rparr>, eb_size d'))"
proof -
  have "wf_endpoint (ec_endpoint demo_sedp_config)" "endpoint_ok (ec_endpoint demo_sedp_config)"
    using demo_sedp_config_ok by (simp_all add: wf_sedp_config_def sedp_announcement_ok_def)
  from sedp_payload_fits(1) [OF this, of "ec_parameter_byte_order demo_sedp_config"]
  have "length (sedp_payload demo_sedp_config) \<le> 1280" by (simp add: sedp_payload_def sedp_payload_capacity_def)
  then obtain d' where d': "sedp_build demo_sedp_config (sedp_builder_new (Span (replicate 1400 0))) = Some (True, d')"
    using sedp_build_ok [OF demo_sedp_config_ok, of "sedp_builder_new (Span (replicate 1400 0))" "replicate 1400 0"]
    by (simp add: sedp_builder_new_def data_message_overhead_44)
  from sedp_roundtrip [OF demo_sedp_config_ok(1) d'] obtain q where q: "endpoint_agrees (ec_endpoint demo_sedp_config) q"
    "\<And>expected. parse_sedp_message (Span (take (eb_size d') (span_bytes (eb_buffer d')))) expected =
      Some (if ed_participant_guid_prefix (ec_endpoint demo_sedp_config) = expected
        then Inr (\<lparr>ev_endpoint = q, ev_sequence_number = ec_sequence_number demo_sedp_config,
               ev_submessage_byte_order = ec_submessage_byte_order demo_sedp_config,
               ev_parameter_byte_order = ec_parameter_byte_order demo_sedp_config\<rparr>, eb_size d')
        else Inl (sedp_participant_mismatch, rtps_none))" by blast
  with d' show ?thesis
    by (intro exI [of _ d'] exI [of _ q]) (simp add: demo_sedp_config_def demo_endpoint_def)
qed

text \<open>The parser's state, and what every parameter keeps of it.\<close>

lemma parse_string_ok:
  assumes "length output = 256" "zero_filled output 0"
  shows "\<exists>r. parse_string value order output = Some r \<and> handled (\<lambda>e. e \<noteq> sedp_none)
    (\<lambda>(name, n). length name = 256 \<and> 1 \<le> n \<and> zero_filled name n \<and> 0 \<notin> set (take n name)) r"
proof (cases "length value < 8")
  case False
  define n where "n = unat (bytes_word order (take 4 value) :: u32)"
  have n: "map_option unat (read_u32 order 0 value) = Some n" using False by (simp add: u32_codec.get_block n_def)
  show ?thesis
  proof (cases "n \<le> 1 \<or> n > length value - 4 \<or> n > length output")
    case big: False
    let ?s = "take (n - 1) (drop 4 value)"
    from big have len: "length ?s = n - 1" "n - 1 \<le> 255" "1 \<le> n - 1" using False assms by auto
    have "rd value (4 + n - 1) = Some (value ! (4 + n - 1))" "rd_block value 4 (n - 1) = Some ?s"
      using False big by (auto simp: rd_def rd_block_def)
    moreover have "wr_block output 0 ?s = Some (?s @ drop (n - 1) output)"
      using len assms by (simp add: wr_block_def)
    moreover have "take (n - 1) (?s @ drop (n - 1) output) = ?s" using len(1) by simp
    moreover have "length (?s @ drop (n - 1) output) = 256" using len assms by (simp only: length_append length_drop)
    moreover have "zero_filled (?s @ drop (n - 1) output) (n - 1)" using len assms by (intro zero_filled_write) simp_all
    ultimately show ?thesis
      using False big len(2,3)
      by (simp add: parse_string_def n list_ex_iff del: take_append length_append length_take)
  qed (use False n in \<open>auto simp: parse_string_def\<close>)
qed (simp add: parse_string_def)

lemma sedp_locator_ok:
  assumes "sedp_inv st" "get (es_endpoint st) \<in> set (endpoint_locators (es_endpoint st))"
    "\<And>ls. valid_locator_list ls \<Longrightarrow> sedp_inv (st\<lparr>es_endpoint := put ls, es_seen_locator := True\<rparr>)"
  shows "\<exists>r. sedp_locator value order get put st = Some r \<and> handled (\<lambda>e. e \<noteq> sedp_none) sedp_inv r"
proof -
  have "valid_locator_list (get (es_endpoint st))"
    using assms(1,2) by (auto simp: sedp_inv_def Let_def list_all_iff)
  from append_parsed_locator_ok [OF this] obtain e ls where
    "append_parsed_locator value order (get (es_endpoint st)) = Some (e, ls)" "valid_locator_list ls" by blast
  with assms(3) show ?thesis by (cases e) (simp_all add: sedp_locator_def)
qed

lemma sedp_reliability_ok:
  assumes "sedp_inv st"
  shows "\<exists>r. sedp_reliability value order st = Some r \<and> handled (\<lambda>e. e \<noteq> sedp_none) sedp_inv r"
  using assms
  by (cases "length value = 12")
    (auto simp: sedp_reliability_def parse_duration_def Let_def u32_codec.get_block sedp_inv_def endpoint_locators_def
      topic_text_def type_text_def)

lemma sedp_name_ok:
  assumes "sedp_inv st" "pid \<in> {pid_topic_name, pid_type_name}"
  shows "\<exists>r. sedp_parameter expected order pid value st = Some r \<and> handled (\<lambda>e. e \<noteq> sedp_none) sedp_inv r"
proof -
  let ?e = "es_endpoint st"
  note defs = sedp_parameter_def Let_def sedp_pids sedp_inv_def endpoint_locators_def topic_text_def type_text_def
  show ?thesis
  proof (cases "pid = pid_topic_name")
    case True
    show ?thesis
    proof (cases "es_seen_topic st")
      case False
      then have "length (ed_topic_name ?e) = 256" "zero_filled (ed_topic_name ?e) 0"
        using assms(1) by (auto simp: sedp_inv_def Let_def)
      from parse_string_ok [OF this, of "value" order] obtain r where
        r: "parse_string value order (ed_topic_name ?e) = Some r" "handled (\<lambda>e. e \<noteq> sedp_none)
          (\<lambda>(name, n). length name = 256 \<and> 1 \<le> n \<and> zero_filled name n \<and> 0 \<notin> set (take n name)) r" by blast
      then show ?thesis using assms(1) True False by (cases r) (auto simp: defs)
    qed (simp add: True defs)
  next
    case False
    then have pid: "pid = pid_type_name" using assms(2) by simp
    show ?thesis
    proof (cases "es_seen_type st")
      case False
      then have "length (ed_type_name ?e) = 256" "zero_filled (ed_type_name ?e) 0"
        using assms(1) by (auto simp: sedp_inv_def Let_def)
      from parse_string_ok [OF this, of "value" order] obtain r where
        r: "parse_string value order (ed_type_name ?e) = Some r" "handled (\<lambda>e. e \<noteq> sedp_none)
          (\<lambda>(name, n). length name = 256 \<and> 1 \<le> n \<and> zero_filled name n \<and> 0 \<notin> set (take n name)) r" by blast
      then show ?thesis using assms(1) pid False by (cases r) (auto simp: defs)
    qed (simp add: pid defs)
  qed
qed

lemma sedp_fixed_ok:
  assumes "sedp_inv st" "pid \<in> {pid_endpoint_guid, pid_participant_guid, pid_durability, pid_expects_inline_qos}"
  shows "\<exists>r. sedp_parameter expected order pid value st = Some r \<and> handled (\<lambda>e. e \<noteq> sedp_none) sedp_inv r"
proof -
  define d where "d = (bytes_word order (take 4 value) :: u32)"
  have four: "rd value 0 = Some (value ! 0)" "read_u32 order 0 value = Some d" if "length value = 4"
    using that by (simp_all add: rd_def u32_codec.get_block d_def)
  have sixteen: "rd_block value 0 12 = Some (take 12 value)" "rd_block value 12 4 = Some (take 4 (drop 12 value))"
    if "length value = 16" using that by (simp_all add: rd_block_def)
  note defs = sedp_parameter_def Let_def sedp_pids sedp_inv_def endpoint_locators_def topic_text_def type_text_def
  show ?thesis
  proof (cases "pid \<in> {pid_endpoint_guid, pid_participant_guid}")
    case True
    then show ?thesis using assms(1) sixteen by (cases "length value = 16"; elim insertE) (simp_all add: defs)
  next
    case False
    with assms(2) have "pid \<in> {pid_durability, pid_expects_inline_qos}" by blast
    then show ?thesis using assms(1) four by (cases "length value = 4"; elim insertE) (simp_all add: defs)
  qed
qed

lemma sedp_parameter_unknown:
  assumes "pid \<notin> sedp_known"
  shows "sedp_parameter expected order pid value st =
    (if pid \<noteq> 0 \<and> pid AND must_understand_mask \<noteq> 0 then Some (Inl sedp_unknown_required_parameter) else Some (Inr st))"
  using assms by (simp add: sedp_parameter_def sedp_known_def Let_def)

lemma sedp_parameter_ok:
  assumes "sedp_inv st"
  shows "\<exists>r. sedp_parameter expected order pid value st = Some r \<and> handled (\<lambda>e. e \<noteq> sedp_none) sedp_inv r"
proof -
  consider "pid \<in> {pid_unicast_locator, pid_multicast_locator}"
    | "pid \<in> {pid_endpoint_guid, pid_participant_guid, pid_durability, pid_expects_inline_qos}"
    | "pid \<in> {pid_topic_name, pid_type_name}" | "pid = pid_reliability" | "pid \<notin> sedp_known"
    unfolding sedp_known_def by blast
  then show ?thesis
  proof cases
    case 1
    then show ?thesis
      using assms
      by (elim insertE)
        (simp_all add: sedp_parameter_locator, (rule sedp_locator_ok; simp add: sedp_inv_def Let_def endpoint_locators_def
          topic_text_def type_text_def)+)
  next
    case 2
    then show ?thesis by (rule sedp_fixed_ok [OF assms])
  next
    case 3
    then show ?thesis by (rule sedp_name_ok [OF assms])
  next
    case 4
    with sedp_reliability_ok [OF assms] show ?thesis by (simp add: sedp_parameter_def Let_def sedp_pids)
  next
    case 5
    with assms show ?thesis by (simp add: sedp_parameter_unknown)
  qed
qed

lemma sedp_start_inv: "sedp_inv (sedp_parse_start data kind expected)"
  by (simp add: sedp_inv_def sedp_parse_start_def default_endpoint_def endpoint_locators_def topic_text_def type_text_def
      valid_reliability_def valid_durability_def sedp_max_topic_name_def sedp_max_type_name_def zero_filled_def list_all_iff)

text \<open>What no parameter changes: the identity taken from the header and the flags of the names.\<close>

lemma sedp_parameter_identity:
  assumes "sedp_parameter expected order pid value st = Some (Inr st')"
  shows "sedp_identity st' = sedp_identity st"
proof (cases "pid \<in> sedp_known")
  case False
  with assms show ?thesis by (simp add: sedp_parameter_unknown split: if_splits)
next
  case True
  note defs = sedp_parameter_def sedp_pids Let_def sedp_identity_def
  from True show ?thesis
    unfolding sedp_known_def
    by (elim insertE emptyE; insert assms; simp add: defs sedp_reliability_def sedp_locator_def;
        auto split: if_splits bind_splits sum.splits)
qed

interpretation sedp_handler:
  parameter_handler "sedp_parameter expected" sedp_malformed_parameter
    "\<lambda>st. sedp_inv st \<and> sedp_identity st = ident" "\<lambda>e. e \<noteq> sedp_none" for expected ident
proof unfold_locales
  fix st order pid and "value" :: "byte list"
  assume st: "sedp_inv st \<and> sedp_identity st = ident"
  with sedp_parameter_ok [of st expected order pid "value"] obtain r where
    r: "sedp_parameter expected order pid value st = Some r" "handled (\<lambda>e. e \<noteq> sedp_none) sedp_inv r" by blast
  with sedp_parameter_identity [of expected order pid "value" st] st
  show "\<exists>r. sedp_parameter expected order pid value st = Some r \<and>
      handled (\<lambda>e. e \<noteq> sedp_none) (\<lambda>st. sedp_inv st \<and> sedp_identity st = ident) r"
    by (cases r) auto
qed simp

lemma sedp_accept_handled:
  assumes "sedp_inv st" "sedp_identity st = (dv_version data, dv_vendor_id data, expected, kind)"
    "sedp_kind data = Some (kind, reader)" "dv_guid_prefix data = expected"
  shows "handled (\<lambda>e. e \<noteq> sedp_none) (accepted_endpoint expected data) (sedp_accept data order kind (st, seen))"
proof -
  have "reader = expected_reader kind"
    using assms(3) by (auto simp: sedp_kind_def expected_reader_def split: if_splits)
  then show ?thesis
    using assms
    by (auto simp: sedp_accept_def Let_def accepted_endpoint_def sedp_inv_def sedp_identity_def topic_text_def type_text_def
        dest: zero_filled_terminated(1))
qed

text \<open>C22: Parsing any bytes for any participant terminates and never reads outside the message. A view
  it returns belongs to that participant and to the header's version and vendor, has the kind of the
  builtin writer that sent it and an entity id of that kind, legal reliability and durability values,
  bounded lists of usable locators, and non-empty topic and type names without an inner zero byte,
  each followed by at least one zero byte and by nothing but zero bytes up to the end of its array.\<close>

theorem parse_sedp_safe:
  "case parse_sedp_message message expected of
     None \<Rightarrow> False
   | Some (Inl (e, _)) \<Rightarrow> e \<noteq> sedp_none
   | Some (Inr (v, n)) \<Rightarrow> n = span_size message \<and>
       (\<exists>data. parse_data_message message = Some (Inr data) \<and> accepted_endpoint expected data v)"
proof -
  from parse_data_message_total obtain r where r: "parse_data_message message = Some r" by blast
  show ?thesis
  proof (cases "\<exists>data kind reader. r = Inr data \<and> sedp_kind data = Some (kind, reader) \<and>
      \<not> (dv_reader_id data \<noteq> entity_id_unknown \<and> dv_reader_id data \<noteq> reader) \<and> dv_guid_prefix data = expected \<and>
      \<not> length (dv_payload data) < 8")
    case False
    with r show ?thesis by (auto simp: parse_sedp_message_def split: sum.splits option.splits)
  next
    case True
    then obtain data kind reader where data: "r = Inr data" "sedp_kind data = Some (kind, reader)"
      "\<not> (dv_reader_id data \<noteq> entity_id_unknown \<and> dv_reader_id data \<noteq> reader)" "dv_guid_prefix data = expected"
      "\<not> length (dv_payload data) < 8" by blast
    let ?pl = "dv_payload data" and ?order = "if dv_payload data ! 1 = 3 then little_endian else big_endian"
    let ?start = "sedp_parse_start data kind expected" and ?ident = "(dv_version data, dv_vendor_id data, expected, kind)"
    have "sedp_inv ?start \<and> sedp_identity ?start = ?ident"
      using sedp_start_inv by (simp add: sedp_identity_def sedp_parse_start_def)
    from sedp_handler.walk_ok [OF this, of expected ?order ?pl 4] obtain w where
      w: "parameter_walk (sedp_parameter expected) sedp_malformed_parameter ?order ?pl 4 ?start = Some w"
      "handled (\<lambda>e. e \<noteq> sedp_none) (\<lambda>(st, seen). sedp_inv st \<and> sedp_identity st = ?ident) w" by blast
    let ?r = "case w of Inl e \<Rightarrow> Inl e | Inr s \<Rightarrow> sedp_accept data ?order kind s"
    have good: "handled (\<lambda>e. e \<noteq> sedp_none) (accepted_endpoint expected data) ?r"
      using w(2) sedp_accept_handled [OF _ _ data(2,4)] by (cases w) auto
    have "rd ?pl 0 = Some (?pl ! 0)" "rd ?pl 1 = Some (?pl ! 1)" using data(5) by (auto simp: rd_def)
    with r data w(1) have "parse_sedp_message message expected =
        Some (if ?pl ! 0 \<noteq> 0 \<or> ?pl ! 1 \<noteq> 2 \<and> ?pl ! 1 \<noteq> 3 then Inl (sedp_unsupported_representation, rtps_none)
          else map_sum (\<lambda>e. (e, rtps_none)) (\<lambda>v. (v, span_size message)) ?r)"
      by (simp add: parse_sedp_message_def Let_def) blast
    with good r data(1) show ?thesis by (cases ?r) auto
  qed
qed

text \<open>The calls on a table, with an output array of the stated length for a removal.\<close>

text \<open>The same calls on a map from endpoint GUIDs to endpoints with room for \<open>n\<close> of them.\<close>

section \<open>The endpoint table\<close>

interpretation etable: slot_table de_occupied de_key blank_endpoint
  by unfold_locales (simp add: blank_endpoint_def)

lemma endpoints_card: "endpoint_inv t \<Longrightarrow> card (dom (endpoints t)) = et_size t"
  by (simp add: endpoint_inv_def endpoints_def etable.map_card)

lemma endpoint_upsert_refines:
  assumes "endpoint_inv t"
  shows "\<exists>e update index t'. endpoint_upsert v t = ((e, update, index), t') \<and> endpoint_inv t' \<and>
    length (et_entries t') = length (et_entries t) \<and>
    endpoint_spec (length (et_entries t)) (EndpointUpsert v) (endpoints t) = (UpsertAnswer e update, endpoints t')"
proof -
  have dist: "slot_distinct de_occupied de_key (et_entries t)" using assms by (simp add: endpoint_inv_def)
  have e: "de_occupied (stored_endpoint v)" "de_key (stored_endpoint v) = view_key v"
    by (simp_all add: stored_endpoint_def de_key_def view_key_def)
  have upd: "x\<lparr>de_data := ev_endpoint v, de_sequence_number := ev_sequence_number v, de_occupied := True\<rparr> = stored_endpoint v"
    "de_occupied x \<Longrightarrow> x\<lparr>de_data := ev_endpoint v, de_sequence_number := ev_sequence_number v\<rparr> = stored_endpoint v" for x
    by (cases x; simp add: stored_endpoint_def)+
  note defs = endpoint_upsert_def Let_def view_key_def [symmetric]
  show ?thesis
  proof (cases "find_index (slot_live de_occupied de_key (view_key v)) (et_entries t)")
    case (Some i)
    note found = etable.found [OF Some]
    note store = etable.store [OF dist found(1) e, OF disjI1, OF conjI, OF found(2,3)]
    show ?thesis
      using assms found store etable.store_count [OF found(1) e(1)]
      by (simp add: defs Some upd endpoint_inv_def endpoints_def)
  next
    case None
    then have absent: "slot_map de_occupied de_key (et_entries t) (view_key v) = None" by (simp add: slot_map_def)
    show ?thesis
    proof (cases "find_index (\<lambda>e. \<not> de_occupied e) (et_entries t)")
      case (Some i)
      note free = etable.free [OF Some]
      note store = etable.store [OF dist free(1) e, OF disjI2, OF conjI, OF free(2) absent]
      show ?thesis
        using assms free absent store etable.store_count [OF free(1) e(1)]
        by (simp add: defs None Some upd endpoint_inv_def endpoints_def etable.map_card [OF dist])
    next
      case full: None
      with etable.no_free [OF full] assms absent show ?thesis
        by (simp add: defs None endpoint_inv_def endpoints_def etable.map_card [OF dist])
    qed
  qed
qed

text \<open>A removal with an output array of at least the stated length, or none at all.\<close>

lemma remove_participant_eq:
  assumes "case removed of None \<Rightarrow> True | Some out \<Rightarrow> capacity \<le> length out"
  shows "remove_participant participant removed capacity t =
    (let gone = slot_due de_occupied (endpoint_of participant) (et_entries t); ids = map (\<lambda>e. ed_endpoint_id (de_data e)) gone
     in if gone \<noteq> [] \<and> removed = None then Some (sedp_invalid_argument, removed, 0, t)
        else if length gone > capacity then Some (sedp_action_capacity_exceeded, removed, 0, t)
        else Some (sedp_none, map_option (\<lambda>out. ids @ drop (length ids) out) removed, length ids,
          t\<lparr>et_entries := slot_remove de_occupied blank_endpoint (endpoint_of participant) (et_entries t),
            et_size := et_size t - length gone\<rparr>))"
proof -
  let ?gone = "slot_due de_occupied (endpoint_of participant) (et_entries t)"
  let ?out = "case removed of None \<Rightarrow> [] | Some out \<Rightarrow> out" and ?id = "\<lambda>e. ed_endpoint_id (de_data e)"
  have len: "length (filter (\<lambda>e. de_occupied e \<and> endpoint_of participant e) (et_entries t)) = length ?gone"
    by (simp add: slot_due_def)
  have loop: "for_loop 0 (length (et_entries t)) (slot_sweep de_occupied (endpoint_of participant) ?id blank_endpoint)
      (et_entries t, ?out, 0, et_size t) =
      Some (slot_remove de_occupied blank_endpoint (endpoint_of participant) (et_entries t),
        map ?id ?gone @ drop (length ?gone) ?out, length ?gone, et_size t - length ?gone)" if "length ?gone \<le> length ?out"
    using etable.sweep_loop [of 0 "endpoint_of participant" "et_entries t" ?out "[]" ?id "et_size t"] that by simp
  show ?thesis
  proof (cases removed)
    case None
    with loop show ?thesis by (simp add: remove_participant_def len Let_def)
  next
    case (Some out)
    with loop assms show ?thesis by (simp add: remove_participant_def len Let_def)
  qed
qed

lemma removed_ids:
  fixes participant :: guid_prefix
  assumes "slot_distinct de_occupied de_key (et_entries t)"
  defines "gone \<equiv> slot_due de_occupied (endpoint_of participant) (et_entries t)"
  shows "set (map (\<lambda>e. ed_endpoint_id (de_data e)) gone) = {x. (participant, x) \<in> dom (endpoints t)}"
    "distinct (map (\<lambda>e. ed_endpoint_id (de_data e)) gone)"
proof -
  have key: "de_key e = (participant, ed_endpoint_id (de_data e))" if "e \<in> set gone" for e
    using that by (auto simp: gone_def slot_due_def endpoint_of_def de_key_def)
  have img: "de_key ` set gone = {k. \<exists>e. endpoints t k = Some e \<and> endpoint_of participant e}"
    using etable.due_keys(1) [OF assms(1), of "endpoint_of participant"] by (simp add: gone_def endpoints_def)
  have part: "fst k = participant \<longleftrightarrow> endpoint_of participant e" if "endpoints t k = Some e" for k e
    using etable.map_SomeD [OF that [unfolded endpoints_def]] by (auto simp: de_key_def endpoint_of_def)
  have "x \<in> (\<lambda>e. ed_endpoint_id (de_data e)) ` set gone \<longleftrightarrow> (participant, x) \<in> de_key ` set gone" for x
    using key by (auto simp: image_iff)
  then show "set (map (\<lambda>e. ed_endpoint_id (de_data e)) gone) = {x. (participant, x) \<in> dom (endpoints t)}"
    unfolding img set_map using part by fastforce
  have "map de_key gone = map (Pair participant) (map (\<lambda>e. ed_endpoint_id (de_data e)) gone)" using key by simp
  with etable.due_keys(2) [OF assms(1), of "endpoint_of participant"]
  show "distinct (map (\<lambda>e. ed_endpoint_id (de_data e)) gone)" unfolding gone_def by (metis distinct_map)
qed

lemma endpoint_removed:
  fixes participant :: guid_prefix
  assumes "endpoint_inv t"
  defines "t' \<equiv> t\<lparr>et_entries := slot_remove de_occupied blank_endpoint (endpoint_of participant) (et_entries t),
    et_size := et_size t - length (slot_due de_occupied (endpoint_of participant) (et_entries t))\<rparr>"
  shows "endpoint_inv t'" "endpoints t' = (\<lambda>k. if fst k = participant then None else endpoints t k)"
    "length (et_entries t') = length (et_entries t)"
proof -
  have dist: "slot_distinct de_occupied de_key (et_entries t)" using assms(1) by (simp add: endpoint_inv_def)
  show "endpoint_inv t'"
    using etable.remove(1) [OF dist] etable.remove_count [of "endpoint_of participant" "et_entries t"] assms(1)
    by (simp add: endpoint_inv_def t'_def)
  have part: "fst k = participant \<longleftrightarrow> endpoint_of participant e" if "endpoints t k = Some e" for k e
    using etable.map_SomeD [OF that [unfolded endpoints_def]] by (auto simp: de_key_def endpoint_of_def)
  show "endpoints t' = (\<lambda>k. if fst k = participant then None else endpoints t k)"
  proof
    fix k
    show "endpoints t' k = (if fst k = participant then None else endpoints t k)"
      using etable.remove(2) [OF dist, of "endpoint_of participant" k] part [of k]
      by (cases "endpoints t k") (auto simp: t'_def endpoints_def)
  qed
qed (simp add: t'_def slot_remove_def)

lemma endpoint_step_refines:
  assumes "endpoint_inv t \<and> length (et_entries t) = n"
  shows "\<exists>r t'. endpoint_step x t = Some (r, t') \<and> (endpoint_inv t' \<and> length (et_entries t') = n) \<and>
    endpoint_spec n x (endpoints t) = (r, endpoints t')"
proof (cases x)
  case (EndpointUpsert v)
  from endpoint_upsert_refines [of t v] assms obtain e update index t' where
    "endpoint_upsert v t = ((e, update, index), t')" "endpoint_inv t'" "length (et_entries t') = n"
    "endpoint_spec n (EndpointUpsert v) (endpoints t) = (UpsertAnswer e update, endpoints t')" by auto
  with EndpointUpsert show ?thesis by (simp del: endpoint_spec.simps)
next
  case (RemoveParticipant participant capacity)
  have inv: "endpoint_inv t" "length (et_entries t) = n" using assms by blast+
  have dist: "slot_distinct de_occupied de_key (et_entries t)" using inv(1) by (simp add: endpoint_inv_def)
  let ?gone = "slot_due de_occupied (endpoint_of participant) (et_entries t)"
  note ids = removed_ids [OF dist, of participant]
  have card: "card {x. (participant, x) \<in> dom (endpoints t)} = length ?gone"
    unfolding ids(1) [symmetric] using distinct_card [OF ids(2)] by simp
  show ?thesis
    using inv endpoint_removed [OF inv(1), of participant] ids(1)
    by (auto simp: RemoveParticipant remove_participant_eq Let_def card)
next
  case (EndpointFind participant endpoint)
  with assms show ?thesis by (simp add: endpoint_find_def endpoints_def slot_map_def)
qed

interpretation endpoint_calls: refinement "\<lambda>t. endpoint_inv t \<and> length (et_entries t) = n" endpoints endpoint_step
  "endpoint_spec n" for n
  by unfold_locales (rule endpoint_step_refines)

lemma endpoint_table_new_inv:
  "endpoint_inv (endpoint_table_new n)" "length (et_entries (endpoint_table_new n)) = n" "endpoints (endpoint_table_new n) = Map.empty"
  using etable.blank_table [of n]
  by (simp_all add: endpoint_inv_def endpoint_table_new_def endpoints_def fun_eq_iff)

text \<open>C16: From construction on, every sequence of announcements, participant removals and lookups on
  the endpoint table is memory safe and answers exactly as a finite map from endpoint GUIDs to
  endpoints of the table's capacity: a new endpoint is added when there is room, a known one only
  replaced by a later announcement, and a removal takes out and reports all endpoints of a
  participant or, when the output is too small, none.\<close>

theorem endpoint_table_refines_map:
  "\<exists>rs t. run_ops endpoint_step xs (endpoint_table_new n) = Some (rs, t) \<and>
     run_spec (endpoint_spec n) xs Map.empty = (rs, endpoints t) \<and> et_size t = card (dom (endpoints t)) \<and> et_size t \<le> n"
proof -
  from endpoint_calls.run_refines [of "endpoint_table_new n" n xs] obtain rs t where
    t: "run_ops endpoint_step xs (endpoint_table_new n) = Some (rs, t)" "endpoint_inv t" "length (et_entries t) = n"
    "run_spec (endpoint_spec n) xs Map.empty = (rs, endpoints t)" by (auto simp: endpoint_table_new_inv)
  have "et_size t \<le> n" using t(2) by (simp add: endpoint_inv_def length_filter_le flip: t(3))
  with t endpoints_card [OF t(2)] show ?thesis by auto
qed

text \<open>What matching means: a writer and a reader of the same topic and type, the writer offering at
  least the reliability and durability the reader requests.\<close>

section \<open>Matching\<close>

lemma same_text_eq:
  assumes "n \<le> length right"
  shows "same_text left right n = Some (left = take n right)"
  using assms by (auto simp: same_text_def rd_block_def)

lemma valid_reliability_order:
  assumes "valid_reliability a" "valid_reliability b"
  shows "sint a < sint b \<longleftrightarrow> \<not> (b = rk_reliable \<longrightarrow> a = rk_reliable)"
  using assms by (auto simp: valid_reliability_def rk_best_effort_def rk_reliable_def)

lemma valid_durability_order:
  assumes "valid_durability a" "valid_durability b"
  shows "sint a < sint b \<longleftrightarrow> \<not> (b = dk_transient_local \<longrightarrow> a = dk_transient_local)"
  using assms by (auto simp: valid_durability_def dk_volatile_durability_def dk_transient_local_def)

lemma match_compatible:
  assumes "wf_endpoint a" "endpoint_ok a" "remote_ok b" "legal_kind (ed_kind a)" "legal_kind (ed_kind b)"
  shows "\<exists>s. evaluate_endpoint_match (descriptor_of a) b = Some s \<and> (s = ms_matched \<longleftrightarrow> compatible a b)"
proof -
  have len: "length (topic_text a) = ed_topic_name_size a" "length (type_text a) = ed_type_name_size a"
    using endpoint_arrays [OF assms(1)] assms(2) by (simp_all add: topic_text_def type_text_def endpoint_ok_def)
  have guards: "\<not> (topic_text a = [] \<or> sedp_max_topic_name < length (topic_text a) \<or> type_text a = [] \<or>
      sedp_max_type_name < length (type_text a) \<or> \<not> valid_reliability (ed_reliability a) \<or> \<not> valid_durability (ed_durability a))"
    using len assms(2) by (auto simp: endpoint_ok_def sedp_max_topic_name_def sedp_max_type_name_def)
  have valid: "valid_reliability (ed_reliability a)" "valid_durability (ed_durability a)" "valid_reliability (ed_reliability b)"
    "valid_durability (ed_durability b)" using assms(2,3) by (simp_all add: endpoint_ok_def remote_ok_def)
  have texts: "same_text x (ed_topic_name b) (ed_topic_name_size b) = Some (x = topic_text b)"
    "same_text x (ed_type_name b) (ed_type_name_size b) = Some (x = type_text b)" for x
    using assms(3) by (simp_all add: same_text_eq remote_ok_def topic_text_def type_text_def)
  note order = valid_reliability_order [OF valid(1,3)] valid_reliability_order [OF valid(3,1)]
    valid_durability_order [OF valid(2,4)] valid_durability_order [OF valid(4,2)]
  show ?thesis
    using guards assms(4,5)
    by (cases "ed_kind a"; cases "ed_kind b")
      (simp_all add: legal_kind_def evaluate_endpoint_match_def descriptor_of_def texts Let_def order compatible_def)
qed

lemma compatible_sym: "compatible a b \<longleftrightarrow> compatible b a"
  by (cases "ed_kind a"; cases "ed_kind b") (auto simp: compatible_def Let_def)

lemma compatible_agrees:
  assumes "endpoint_agrees b q" "legal_kind (ed_kind b)"
  shows "compatible a q \<longleftrightarrow> compatible a b"
  using assms by (auto simp: legal_kind_def announced_kind_def compatible_def endpoint_agrees_def Let_def)

lemma announced_remote_ok:
  assumes "endpoint_ok e" "wf_endpoint e"
  shows "remote_ok (announced_endpoint e)"
  using assms endpoint_arrays [OF assms(2)]
  by (simp add: remote_ok_def announced_endpoint_def endpoint_ok_def topic_text_def type_text_def)

lemma demo_reader_config_ok: "wf_sedp_config demo_reader_config" "sedp_announcement_ok demo_reader_config"
proof -
  let ?e = "ec_endpoint demo_reader_config"
  have e: "?e = demo_endpoint\<lparr>ed_kind := ek_reader, ed_endpoint_id := [0, 0, 1, 4], ed_reliability := rk_best_effort\<rparr>"
    "ec_reader_id demo_reader_config = ec_reader_id demo_sedp_config"
    "ec_submessage_byte_order demo_reader_config = ec_submessage_byte_order demo_sedp_config"
    "ec_parameter_byte_order demo_reader_config = ec_parameter_byte_order demo_sedp_config"
    "ec_sequence_number demo_reader_config = ec_sequence_number demo_sedp_config" "ec_endpoint demo_sedp_config = demo_endpoint"
    "ec_reader_id demo_sedp_config = entity_id_unknown"
    by (simp_all add: demo_reader_config_def demo_sedp_config_def)
  show "wf_sedp_config demo_reader_config"
    using demo_sedp_config_ok(1) by (simp add: wf_sedp_config_def wf_endpoint_def e wf_entity_id_def)
  show "sedp_announcement_ok demo_reader_config"
    using demo_sedp_config_ok(2)
    by (simp add: sedp_announcement_ok_def endpoint_ok_def e topic_text_def type_text_def endpoint_locators_def
        valid_reliability_def valid_endpoint_id_def)
qed

lemma sedp_reported_view:
  assumes "wf_sedp_config c" "sedp_build c d = Some (True, d')"
  obtains v n where
    "parse_sedp_message (Span (take (eb_size d') (span_bytes (eb_buffer d')))) (ed_participant_guid_prefix (ec_endpoint c)) = Some (Inr (v, n))"
    "ev_endpoint v = announced_endpoint (ec_endpoint c)" "sedp_announcement_ok c"
proof -
  from assms obtain b where b: "sedp_announcement_ok c" "eb_buffer d = Span b"
    "data_message_overhead + length (sedp_payload c) \<le> length b" by (rule sedp_build_success)
  have ok: "endpoint_ok (ec_endpoint c)" "supported_byte_order (ec_submessage_byte_order c)"
    using b(1) by (simp_all add: sedp_announcement_ok_def)
  note len = length_data_bytes [OF sedp_data_config_ok(1) [OF assms(1) ok], of "sedp_payload c"]
  from sedp_build_ok [OF assms(1) b] assms(2)
  have "take (eb_size d') (span_bytes (eb_buffer d')) = data_bytes (sedp_data_config c) (sedp_payload c)"
    by (auto simp: len)
  with parse_endpoint_announcement [OF assms(1) b(1), of "ed_participant_guid_prefix (ec_endpoint c)"] b(1) that show thesis by simp
qed

text \<open>C5: Two participants that announce their endpoints to each other reach the same verdict. When
  both announcements are built and each side matches its own endpoint with what it parsed of the
  other's, the kinds being the two that the enumeration names, one side reports a match exactly when
  the other does, and exactly when one endpoint is a writer and the other a reader of the same topic
  and type and the writer offers at least the reliability and durability that the reader requests.\<close>

theorem match_agreement:
  assumes "wf_sedp_config a" "sedp_build a da = Some (True, da')" "wf_sedp_config b" "sedp_build b db = Some (True, db')"
    and "legal_kind (ed_kind (ec_endpoint a))" "legal_kind (ed_kind (ec_endpoint b))"
  shows "\<exists>va vb na nb.
    parse_sedp_message (Span (take (eb_size da') (span_bytes (eb_buffer da')))) (ed_participant_guid_prefix (ec_endpoint a)) = Some (Inr (va, na)) \<and>
    parse_sedp_message (Span (take (eb_size db') (span_bytes (eb_buffer db')))) (ed_participant_guid_prefix (ec_endpoint b)) = Some (Inr (vb, nb)) \<and>
    (evaluate_endpoint_match (descriptor_of (ec_endpoint a)) (ev_endpoint vb) = Some ms_matched \<longleftrightarrow> compatible (ec_endpoint a) (ec_endpoint b)) \<and>
    (evaluate_endpoint_match (descriptor_of (ec_endpoint b)) (ev_endpoint va) = Some ms_matched \<longleftrightarrow> compatible (ec_endpoint a) (ec_endpoint b))"
proof -
  have side: "evaluate_endpoint_match (descriptor_of (ec_endpoint x)) (announced_endpoint (ec_endpoint y)) = Some ms_matched \<longleftrightarrow>
      compatible (ec_endpoint x) (ec_endpoint y)"
    if "wf_sedp_config x" "wf_sedp_config y" "sedp_announcement_ok x" "sedp_announcement_ok y"
      "legal_kind (ed_kind (ec_endpoint x))" "legal_kind (ed_kind (ec_endpoint y))" for x y
  proof -
    have wf: "wf_endpoint (ec_endpoint x)" "wf_endpoint (ec_endpoint y)" using that(1,2) by (simp_all add: wf_sedp_config_def)
    have ok: "endpoint_ok (ec_endpoint x)" "endpoint_ok (ec_endpoint y)"
      "unat (ed_max_blocking_time_ns (ec_endpoint y)) < 2 ^ 31 * 10 ^ 9"
      using that(3,4) by (simp_all add: sedp_announcement_ok_def)
    have "legal_kind (ed_kind (announced_endpoint (ec_endpoint y)))"
      by (simp add: announced_endpoint_def announced_kind_def legal_kind_def)
    from match_compatible [OF wf(1) ok(1) announced_remote_ok [OF ok(2) wf(2)] that(5) this] obtain s where
      "evaluate_endpoint_match (descriptor_of (ec_endpoint x)) (announced_endpoint (ec_endpoint y)) = Some s"
      "s = ms_matched \<longleftrightarrow> compatible (ec_endpoint x) (announced_endpoint (ec_endpoint y))" by blast
    then show ?thesis
      unfolding compatible_agrees [OF announced_endpoint_agrees(1) [OF wf(2) ok(2,3)] that(6)] by simp
  qed
  obtain va na where va: "parse_sedp_message (Span (take (eb_size da') (span_bytes (eb_buffer da'))))
      (ed_participant_guid_prefix (ec_endpoint a)) = Some (Inr (va, na))"
    "ev_endpoint va = announced_endpoint (ec_endpoint a)" "sedp_announcement_ok a"
    by (rule sedp_reported_view [OF assms(1,2)])
  obtain vb nb where vb: "parse_sedp_message (Span (take (eb_size db') (span_bytes (eb_buffer db'))))
      (ed_participant_guid_prefix (ec_endpoint b)) = Some (Inr (vb, nb))"
    "ev_endpoint vb = announced_endpoint (ec_endpoint b)" "sedp_announcement_ok b"
    by (rule sedp_reported_view [OF assms(3,4)])
  note sides = side [OF assms(1,3) va(3) vb(3) assms(5,6), folded vb(2)]
    side [OF assms(3,1) vb(3) va(3) assms(6,5), folded va(2), unfolded compatible_sym [of "ec_endpoint b"]]
  show ?thesis by (rule exI [of _ va], rule exI [of _ vb], rule exI [of _ na], rule exI [of _ nb]) (intro conjI va(1) vb(1) sides)
qed

theorem match_agreement_witness:
  "\<exists>da db va vb na nb.
    sedp_build demo_sedp_config (sedp_builder_new (Span (replicate 1400 0))) = Some (True, da) \<and>
    sedp_build demo_reader_config (sedp_builder_new (Span (replicate 1400 0))) = Some (True, db) \<and>
    parse_sedp_message (Span (take (eb_size da) (span_bytes (eb_buffer da)))) (ed_participant_guid_prefix demo_endpoint) = Some (Inr (va, na)) \<and>
    parse_sedp_message (Span (take (eb_size db) (span_bytes (eb_buffer db)))) (ed_participant_guid_prefix (ec_endpoint demo_reader_config)) = Some (Inr (vb, nb)) \<and>
    evaluate_endpoint_match (descriptor_of demo_endpoint) (ev_endpoint vb) = Some ms_matched"
proof -
  have built: "\<exists>d. sedp_build c (sedp_builder_new (Span (replicate 1400 0))) = Some (True, d)"
    if "wf_sedp_config c" "sedp_announcement_ok c" for c
  proof -
    have "wf_endpoint (ec_endpoint c)" "endpoint_ok (ec_endpoint c)"
      using that by (simp_all add: wf_sedp_config_def sedp_announcement_ok_def)
    from sedp_payload_fits(1) [OF this, of "ec_parameter_byte_order c"]
    have "length (sedp_payload c) \<le> 1280" by (simp add: sedp_payload_def sedp_payload_capacity_def)
    then show ?thesis
      using sedp_build_ok [OF that, of "sedp_builder_new (Span (replicate 1400 0))" "replicate 1400 0"]
      by (simp add: sedp_builder_new_def data_message_overhead_44)
  qed
  from built [OF demo_sedp_config_ok] built [OF demo_reader_config_ok] obtain da db where
    d: "sedp_build demo_sedp_config (sedp_builder_new (Span (replicate 1400 0))) = Some (True, da)"
    "sedp_build demo_reader_config (sedp_builder_new (Span (replicate 1400 0))) = Some (True, db)" by blast
  have e: "ec_endpoint demo_sedp_config = demo_endpoint" by (simp add: demo_sedp_config_def)
  have "compatible demo_endpoint (ec_endpoint demo_reader_config)"
    by (simp add: compatible_def demo_reader_config_def demo_endpoint_def default_endpoint_def topic_text_def type_text_def
        rk_reliable_def rk_best_effort_def)
  moreover have "legal_kind (ed_kind (ec_endpoint demo_sedp_config))" "legal_kind (ed_kind (ec_endpoint demo_reader_config))"
    by code_simp+
  ultimately show ?thesis
    using match_agreement [OF demo_sedp_config_ok(1) d(1) demo_reader_config_ok(1) d(2)] d unfolding e by blast
qed

text \<open>C28: Building an endpoint announcement stays inside the caller's buffer and its own payload
  buffer. It succeeds exactly when the endpoint, the reader id, the byte orders, the blocking time and
  the sequence number are valid and the buffer holds the message; otherwise it returns false and
  reports no bytes. A blocking time of 2147483648 seconds or more is the only cause of
  \<open>buffer_overflow\<close>: the payload buffer itself never overflows.\<close>

theorem sedp_build_correct:
  assumes "wf_sedp_config c"
  shows "\<exists>d'. sedp_build c d = Some (eb_error d' = sedp_none, d') \<and>
    span_size (eb_buffer d') = span_size (eb_buffer d) \<and> eb_size d' \<le> span_size (eb_buffer d) \<and>
    (eb_error d' = sedp_none \<longleftrightarrow> sedp_announcement_ok c \<and> \<not> null_span (eb_buffer d) \<and>
       data_message_overhead + length (sedp_payload c) \<le> span_size (eb_buffer d)) \<and>
    (eb_error d' = sedp_none \<longleftrightarrow> eb_size d' \<noteq> 0) \<and>
    (eb_error d' = sedp_buffer_overflow \<longleftrightarrow>
       sedp_request_ok c d \<and> 2 ^ 31 * 10 ^ 9 \<le> unat (ed_max_blocking_time_ns (ec_endpoint c)))"
proof -
  have wf: "wf_endpoint (ec_endpoint c)" using assms by (simp add: wf_sedp_config_def)
  consider "\<not> sedp_request_ok c d" | "sedp_request_ok c d" "\<not> unat (ed_max_blocking_time_ns (ec_endpoint c)) < 2 ^ 31 * 10 ^ 9"
    | "sedp_request_ok c d" "unat (ed_max_blocking_time_ns (ec_endpoint c)) < 2 ^ 31 * 10 ^ 9" by blast
  then show ?thesis
  proof cases
    case 1
    from sedp_build_unchecked [OF wf this] obtain e where
      "e \<in> {sedp_invalid_argument, sedp_invalid_configuration, sedp_invalid_locator}"
      "sedp_build c d = sedp_fail e (d\<lparr>eb_size := 0, eb_error := sedp_none, eb_rtps_error := rtps_none\<rparr>)" by blast
    with 1 show ?thesis by (cases "eb_buffer d") (auto simp: sedp_announcement_ok_def sedp_request_ok_def sedp_fail_def)
  next
    case 2
    from sedp_long_blocking_time [OF wf 2] 2 show ?thesis by (auto simp: sedp_announcement_ok_def)
  next
    case 3
    have ok: "endpoint_ok (ec_endpoint c)" "supported_byte_order (ec_submessage_byte_order c)"
      using 3(1) by (simp_all add: sedp_request_ok_def)
    note dc = sedp_data_config_ok [OF assms ok]
    from data_build_total [OF dc(1), of "Span (sedp_payload c)" "data_builder_new (eb_buffer d)"] obtain b where
      b: "data_build (sedp_data_config c) (Span (sedp_payload c)) (data_builder_new (eb_buffer d)) = Some (db_error b = rtps_none, b)"
      "span_size (db_buffer b) = span_size (eb_buffer d)" "db_size b \<le> span_size (eb_buffer d)" by auto
    have "sedp_announcement_ok c \<longleftrightarrow> data_config_ok (sedp_data_config c) (sedp_payload c)"
      using 3 dc(2) by (auto simp: sedp_announcement_ok_def sedp_request_ok_def)
    with sedp_build_valid [OF wf 3 b(1)] data_build_iff [OF dc(1) b(1)] 3 b show ?thesis by auto
  qed
qed

theorem sedp_build_correct_witness:
  "\<exists>d'. sedp_build demo_sedp_config (sedp_builder_new (Span (replicate 1400 0))) = Some (eb_error d' = sedp_none, d') \<and>
     eb_size d' \<le> 1400"
  using sedp_build_correct [OF demo_sedp_config_ok(1), of "sedp_builder_new (Span (replicate 1400 0))"]
  by (auto simp: sedp_builder_new_def)

end
