(* ===== verification/Cdr.thy ===== *)
theory Cdr
  imports Wire
begin

text \<open>
  The bounded CDR serializer and parser: \<open>src/include/openrtdds/serialization/cdr.hpp\<close> and
  \<open>src/src/serialization/cdr.cpp\<close>. \<open>cdr_writer\<close> and \<open>cdr_reader\<close> are the objects \<open>CdrWriter\<close> and
  \<open>CdrReader\<close>; the prefixes \<open>cw_\<close> and \<open>cr_\<close> name their members. The signed and floating
  point members transfer the bit pattern, as the code does with a cast or \<open>memcpy\<close>.
  \<open>cdr_encode_all\<close> is the reference encoding that the writer is proved to produce and the
  reader to invert; the invariants \<open>cw_inv\<close> and \<open>cr_inv\<close> carry memory safety.
\<close>

unbundle bit_operations_syntax

datatype cdr_error =
  cdr_none | cdr_invalid_argument | cdr_not_initialized | cdr_overflow | cdr_underflow
  | cdr_unsupported_encoding | cdr_invalid_data | cdr_bound_exceeded

definition encapsulation_size :: nat where
  "encapsulation_size = 4"

definition is_power_of_two :: "nat \<Rightarrow> bool" where
  "is_power_of_two v \<longleftrightarrow> v \<noteq> 0 \<and> (v AND (v - 1)) = 0"

definition aligned_position :: "nat \<Rightarrow> nat \<Rightarrow> nat \<Rightarrow> nat option" where
  "aligned_position offset origin alignment =
     (if offset < origin \<or> \<not> is_power_of_two alignment then None
      else
        let relative = offset - origin;
            remainder = relative AND (alignment - 1);
            padding = (if remainder = 0 then 0 else alignment - remainder)
        in if offset > SIZE_MAX - padding then None else Some (offset + padding))"

section \<open>The writer\<close>

record cdr_writer =
  cw_buffer :: span
  cw_offset :: nat
  cw_origin :: nat
  cw_byte_order :: byte_order
  cw_error :: cdr_error
  cw_initialized :: bool

definition cdr_writer_new :: "span \<Rightarrow> cdr_writer" where
  "cdr_writer_new buffer =
     \<lparr>cw_buffer = buffer, cw_offset = 0, cw_origin = 0, cw_byte_order = little_endian,
      cw_error = (if null_span buffer \<and> span_size buffer \<noteq> 0 then cdr_invalid_argument else cdr_none),
      cw_initialized = False\<rparr>"

definition cw_fail :: "cdr_error \<Rightarrow> cdr_writer \<Rightarrow> cdr_writer" where
  "cw_fail e w = (if cw_error w = cdr_none then w\<lparr>cw_error := e\<rparr> else w)"

definition cw_begin :: "byte_order \<Rightarrow> cdr_writer \<Rightarrow> (bool \<times> cdr_writer) option" where
  "cw_begin order w =
     (let w = w\<lparr>cw_offset := 0, cw_origin := 0, cw_byte_order := order,
                cw_initialized := False, cw_error := cdr_none\<rparr>;
          capacity = span_size (cw_buffer w)
      in if null_span (cw_buffer w) \<and> capacity \<noteq> 0 then Some (False, cw_fail cdr_invalid_argument w)
         else if order \<noteq> big_endian \<and> order \<noteq> little_endian
         then Some (False, cw_fail cdr_invalid_argument w)
         else if capacity < encapsulation_size then Some (False, cw_fail cdr_overflow w)
         else do {
           b \<leftarrow> deref (cw_buffer w);
           b \<leftarrow> wr b 0 0;
           b \<leftarrow> wr b 1 (if order = little_endian then 1 else 0);
           b \<leftarrow> wr b 2 0;
           b \<leftarrow> wr b 3 0;
           Some (True, w\<lparr>cw_buffer := Span b, cw_offset := encapsulation_size,
                         cw_origin := encapsulation_size, cw_initialized := True\<rparr>) })"

definition cw_reserve :: "nat \<Rightarrow> nat \<Rightarrow> cdr_writer \<Rightarrow> (nat option \<times> cdr_writer) option" where
  "cw_reserve alignment width w =
     (let capacity = span_size (cw_buffer w)
      in if cw_error w \<noteq> cdr_none then Some (None, w)
         else if \<not> cw_initialized w then Some (None, cw_fail cdr_not_initialized w)
         else (case aligned_position (cw_offset w) (cw_origin w) alignment of
             None \<Rightarrow> Some (None, cw_fail cdr_overflow w)
           | Some start \<Rightarrow>
               if start > capacity \<or> width > capacity - start
               then Some (None, cw_fail cdr_overflow w)
               else do {
                 b \<leftarrow> deref (cw_buffer w);
                 b \<leftarrow> for_loop (cw_offset w) (start - cw_offset w) (\<lambda>i b. wr b i 0) b;
                 Some (Some start, w\<lparr>cw_buffer := Span b\<rparr>) }))"

definition cw_store_integral :: "nat \<Rightarrow> u64 \<Rightarrow> nat \<Rightarrow> cdr_writer \<Rightarrow> cdr_writer option" where
  "cw_store_integral start v width w = do {
     b \<leftarrow> deref (cw_buffer w);
     b \<leftarrow> store_word (cw_byte_order w) width start v b;
     Some (w\<lparr>cw_buffer := Span b\<rparr>) }"

definition cw_write_integral :: "u64 \<Rightarrow> nat \<Rightarrow> nat \<Rightarrow> cdr_writer \<Rightarrow> (bool \<times> cdr_writer) option" where
  "cw_write_integral v width alignment w = do {
     (start, w) \<leftarrow> cw_reserve alignment width w;
     case start of
       None \<Rightarrow> Some (False, w)
     | Some start \<Rightarrow> do {
         w \<leftarrow> cw_store_integral start v width w;
         Some (True, w\<lparr>cw_offset := start + width\<rparr>) } }"

definition cw_write_uint8 :: "byte \<Rightarrow> cdr_writer \<Rightarrow> (bool \<times> cdr_writer) option" where
  "cw_write_uint8 v = cw_write_integral (ucast v) 1 1"

definition cw_write_bool :: "bool \<Rightarrow> cdr_writer \<Rightarrow> (bool \<times> cdr_writer) option" where
  "cw_write_bool v = cw_write_uint8 (if v then 1 else 0)"

definition cw_write_uint16 :: "u16 \<Rightarrow> cdr_writer \<Rightarrow> (bool \<times> cdr_writer) option" where
  "cw_write_uint16 v = cw_write_integral (ucast v) 2 2"

definition cw_write_int16 :: "u16 \<Rightarrow> cdr_writer \<Rightarrow> (bool \<times> cdr_writer) option" where
  "cw_write_int16 v = cw_write_uint16 v"

definition cw_write_uint32 :: "u32 \<Rightarrow> cdr_writer \<Rightarrow> (bool \<times> cdr_writer) option" where
  "cw_write_uint32 v = cw_write_integral (ucast v) 4 4"

definition cw_write_int32 :: "u32 \<Rightarrow> cdr_writer \<Rightarrow> (bool \<times> cdr_writer) option" where
  "cw_write_int32 v = cw_write_uint32 v"

definition cw_write_float32 :: "u32 \<Rightarrow> cdr_writer \<Rightarrow> (bool \<times> cdr_writer) option" where
  "cw_write_float32 bits = cw_write_uint32 bits"

definition cw_write_uint64 :: "u64 \<Rightarrow> cdr_writer \<Rightarrow> (bool \<times> cdr_writer) option" where
  "cw_write_uint64 v = cw_write_integral v 8 8"

definition cw_write_int64 :: "u64 \<Rightarrow> cdr_writer \<Rightarrow> (bool \<times> cdr_writer) option" where
  "cw_write_int64 v = cw_write_uint64 v"

definition cw_write_float64 :: "u64 \<Rightarrow> cdr_writer \<Rightarrow> (bool \<times> cdr_writer) option" where
  "cw_write_float64 bits = cw_write_uint64 bits"

definition cw_write_bytes :: "span \<Rightarrow> cdr_writer \<Rightarrow> (bool \<times> cdr_writer) option" where
  "cw_write_bytes data w =
     (if null_span data \<and> span_size data \<noteq> 0 then Some (False, cw_fail cdr_invalid_argument w)
      else do {
        (start, w) \<leftarrow> cw_reserve 1 (span_size data) w;
        case start of
          None \<Rightarrow> Some (False, w)
        | Some start \<Rightarrow> do {
            w \<leftarrow> (if span_size data \<noteq> 0 then do {
                    src \<leftarrow> deref data;
                    src \<leftarrow> rd_block src 0 (span_size data);
                    b \<leftarrow> deref (cw_buffer w);
                    b \<leftarrow> wr_block b start src;
                    Some (w\<lparr>cw_buffer := Span b\<rparr>) }
                  else Some w);
            Some (True, w\<lparr>cw_offset := start + span_size data\<rparr>) } })"

definition cw_write_string :: "span \<Rightarrow> nat \<Rightarrow> cdr_writer \<Rightarrow> (bool \<times> cdr_writer) option" where
  "cw_write_string value max_characters w =
     (let len = span_size value
      in if null_span value \<and> len \<noteq> 0 then Some (False, cw_fail cdr_invalid_argument w)
         else if len > max_characters then Some (False, cw_fail cdr_bound_exceeded w)
         else if len \<ge> 2 ^ 32 - 1 then Some (False, cw_fail cdr_bound_exceeded w)
         else
           let serialized_length = len + 1
           in if serialized_length > SIZE_MAX - 4 then Some (False, cw_fail cdr_bound_exceeded w)
              else do {
                (start, w) \<leftarrow> cw_reserve 4 (4 + serialized_length) w;
                case start of
                  None \<Rightarrow> Some (False, w)
                | Some start \<Rightarrow> do {
                    w \<leftarrow> cw_store_integral start (ucast (of_nat serialized_length :: u32)) 4 w;
                    b \<leftarrow> deref (cw_buffer w);
                    b \<leftarrow> (if len \<noteq> 0 then do {
                            src \<leftarrow> deref value;
                            src \<leftarrow> rd_block src 0 len;
                            wr_block b (start + 4) src }
                          else Some b);
                    b \<leftarrow> wr b (start + 4 + len) 0;
                    Some (True, w\<lparr>cw_buffer := Span b,
                                  cw_offset := start + 4 + serialized_length\<rparr>) } })"

section \<open>The reader\<close>

record cdr_reader =
  cr_buffer :: span
  cr_offset :: nat
  cr_origin :: nat
  cr_byte_order :: byte_order
  cr_error :: cdr_error
  cr_initialized :: bool

definition cdr_reader_new :: "span \<Rightarrow> cdr_reader" where
  "cdr_reader_new buffer =
     \<lparr>cr_buffer = buffer, cr_offset = 0, cr_origin = 0, cr_byte_order = little_endian,
      cr_error = (if null_span buffer \<and> span_size buffer \<noteq> 0 then cdr_invalid_argument else cdr_none),
      cr_initialized = False\<rparr>"

definition cr_fail :: "cdr_error \<Rightarrow> cdr_reader \<Rightarrow> cdr_reader" where
  "cr_fail e r = (if cr_error r = cdr_none then r\<lparr>cr_error := e\<rparr> else r)"

definition cr_begin :: "cdr_reader \<Rightarrow> (bool \<times> cdr_reader) option" where
  "cr_begin r =
     (let r = r\<lparr>cr_offset := 0, cr_origin := 0, cr_initialized := False, cr_error := cdr_none\<rparr>;
          size = span_size (cr_buffer r)
      in if null_span (cr_buffer r) \<and> size \<noteq> 0 then Some (False, cr_fail cdr_invalid_argument r)
         else if size < encapsulation_size then Some (False, cr_fail cdr_underflow r)
         else do {
           b \<leftarrow> deref (cr_buffer r);
           b0 \<leftarrow> rd b 0;
           b1 \<leftarrow> rd b 1;
           if b0 \<noteq> 0 \<or> (b1 \<noteq> 0 \<and> b1 \<noteq> 1) then Some (False, cr_fail cdr_unsupported_encoding r)
           else Some (True, r\<lparr>cr_byte_order := (if b1 = 1 then little_endian else big_endian),
                              cr_offset := encapsulation_size, cr_origin := encapsulation_size,
                              cr_initialized := True\<rparr>) })"

definition cr_locate :: "nat \<Rightarrow> nat \<Rightarrow> cdr_reader \<Rightarrow> (nat \<times> nat) option \<times> cdr_reader" where
  "cr_locate alignment width r =
     (let size = span_size (cr_buffer r)
      in if cr_error r \<noteq> cdr_none then (None, r)
         else if \<not> cr_initialized r then (None, cr_fail cdr_not_initialized r)
         else (case aligned_position (cr_offset r) (cr_origin r) alignment of
             None \<Rightarrow> (None, cr_fail cdr_underflow r)
           | Some start \<Rightarrow>
               if start > size \<or> width > size - start then (None, cr_fail cdr_underflow r)
               else (Some (start, start + width), r)))"

definition cr_load_integral :: "nat \<Rightarrow> nat \<Rightarrow> cdr_reader \<Rightarrow> u64 option" where
  "cr_load_integral start width r = do {
     b \<leftarrow> deref (cr_buffer r);
     load_word (cr_byte_order r) width start b }"

definition cr_read_integral :: "nat \<Rightarrow> nat \<Rightarrow> cdr_reader \<Rightarrow> (u64 option \<times> cdr_reader) option" where
  "cr_read_integral width alignment r =
     (case cr_locate alignment width r of
        (None, r) \<Rightarrow> Some (None, r)
      | (Some (start, fin), r) \<Rightarrow> do {
          v \<leftarrow> cr_load_integral start width r;
          Some (Some v, r\<lparr>cr_offset := fin\<rparr>) })"

definition cr_read_uint8 :: "cdr_reader \<Rightarrow> (byte option \<times> cdr_reader) option" where
  "cr_read_uint8 r = do {
     (v, r) \<leftarrow> cr_read_integral 1 1 r;
     Some (map_option ucast v, r) }"

definition cr_read_bool :: "cdr_reader \<Rightarrow> (bool option \<times> cdr_reader) option" where
  "cr_read_bool r =
     (let saved_offset = cr_offset r
      in do {
        (encoded, r) \<leftarrow> cr_read_uint8 r;
        case encoded of
          None \<Rightarrow> Some (None, r)
        | Some encoded \<Rightarrow>
            if encoded > 1 then Some (None, cr_fail cdr_invalid_data (r\<lparr>cr_offset := saved_offset\<rparr>))
            else Some (Some (encoded = 1), r) })"

definition cr_read_uint16 :: "cdr_reader \<Rightarrow> (u16 option \<times> cdr_reader) option" where
  "cr_read_uint16 r = do {
     (v, r) \<leftarrow> cr_read_integral 2 2 r;
     Some (map_option ucast v, r) }"

definition cr_read_int16 :: "cdr_reader \<Rightarrow> (u16 option \<times> cdr_reader) option" where
  "cr_read_int16 r = cr_read_uint16 r"

definition cr_read_uint32 :: "cdr_reader \<Rightarrow> (u32 option \<times> cdr_reader) option" where
  "cr_read_uint32 r = do {
     (v, r) \<leftarrow> cr_read_integral 4 4 r;
     Some (map_option ucast v, r) }"

definition cr_read_int32 :: "cdr_reader \<Rightarrow> (u32 option \<times> cdr_reader) option" where
  "cr_read_int32 r = cr_read_uint32 r"

definition cr_read_float32 :: "cdr_reader \<Rightarrow> (u32 option \<times> cdr_reader) option" where
  "cr_read_float32 r = cr_read_uint32 r"

definition cr_read_uint64 :: "cdr_reader \<Rightarrow> (u64 option \<times> cdr_reader) option" where
  "cr_read_uint64 r = cr_read_integral 8 8 r"

definition cr_read_int64 :: "cdr_reader \<Rightarrow> (u64 option \<times> cdr_reader) option" where
  "cr_read_int64 r = cr_read_uint64 r"

definition cr_read_float64 :: "cdr_reader \<Rightarrow> (u64 option \<times> cdr_reader) option" where
  "cr_read_float64 r = cr_read_uint64 r"

definition cr_read_bytes :: "span \<Rightarrow> cdr_reader \<Rightarrow> (bool \<times> span \<times> cdr_reader) option" where
  "cr_read_bytes destination r =
     (let size = span_size destination
      in if null_span destination \<and> size \<noteq> 0
         then Some (False, destination, cr_fail cdr_invalid_argument r)
         else (case cr_locate 1 size r of
             (None, r) \<Rightarrow> Some (False, destination, r)
           | (Some (start, fin), r) \<Rightarrow> do {
               destination \<leftarrow>
                 (if size \<noteq> 0 then do {
                    b \<leftarrow> deref (cr_buffer r);
                    src \<leftarrow> rd_block b start size;
                    d \<leftarrow> deref destination;
                    d \<leftarrow> wr_block d 0 src;
                    Some (Span d) }
                  else Some destination);
               Some (True, destination, r\<lparr>cr_offset := fin\<rparr>) }))"

definition cr_read_string ::
  "span \<Rightarrow> nat \<Rightarrow> cdr_reader \<Rightarrow> (nat option \<times> span \<times> cdr_reader) option" where
  "cr_read_string destination max_characters r =
     (let destination_capacity = span_size destination; size = span_size (cr_buffer r)
      in if null_span destination \<and> destination_capacity \<noteq> 0
         then Some (None, destination, cr_fail cdr_invalid_argument r)
         else (case cr_locate 4 4 r of
             (None, r) \<Rightarrow> Some (None, destination, r)
           | (Some (length_start, data_start), r) \<Rightarrow> do {
               v \<leftarrow> cr_load_integral length_start 4 r;
               let serialized_length = unat v;
               if serialized_length = 0 then Some (None, destination, cr_fail cdr_invalid_data r)
               else
                 let character_count = serialized_length - 1
                 in if character_count > max_characters
                    then Some (None, destination, cr_fail cdr_bound_exceeded r)
                    else if serialized_length > destination_capacity
                    then Some (None, destination, cr_fail cdr_bound_exceeded r)
                    else if data_start > size \<or> serialized_length > size - data_start
                    then Some (None, destination, cr_fail cdr_underflow r)
                    else do {
                      b \<leftarrow> deref (cr_buffer r);
                      t \<leftarrow> rd b (data_start + serialized_length - 1);
                      if t \<noteq> 0 then Some (None, destination, cr_fail cdr_invalid_data r)
                      else do {
                        src \<leftarrow> rd_block b data_start serialized_length;
                        d \<leftarrow> deref destination;
                        d \<leftarrow> wr_block d 0 src;
                        Some (Some character_count, Span d,
                              r\<lparr>cr_offset := data_start + serialized_length\<rparr>) } } }))"

definition cr_read_string_view :: "nat \<Rightarrow> cdr_reader \<Rightarrow> (byte list option \<times> cdr_reader) option" where
  "cr_read_string_view max_characters r =
     (let size = span_size (cr_buffer r)
      in (case cr_locate 4 4 r of
             (None, r) \<Rightarrow> Some (None, r)
           | (Some (length_start, data_start), r) \<Rightarrow> do {
               v \<leftarrow> cr_load_integral length_start 4 r;
               let serialized_length = unat v;
               if serialized_length = 0 then Some (None, cr_fail cdr_invalid_data r)
               else
                 let character_count = serialized_length - 1
                 in if character_count > max_characters then Some (None, cr_fail cdr_bound_exceeded r)
                    else if data_start > size \<or> serialized_length > size - data_start
                    then Some (None, cr_fail cdr_underflow r)
                    else do {
                      b \<leftarrow> deref (cr_buffer r);
                      t \<leftarrow> rd b (data_start + character_count);
                      if t \<noteq> 0 then Some (None, cr_fail cdr_invalid_data r)
                      else do {
                        view \<leftarrow> rd_block b data_start character_count;
                        Some (Some view, r\<lparr>cr_offset := data_start + serialized_length\<rparr>) } } }))"

section \<open>Reference encoding\<close>

text \<open>
  Values of the primitive types, with their alignment and their bytes; a string carries the
  bound its field declares. \<open>write_value\<close> and \<open>read_value\<close> call the operation of the codec for
  the type, so that theorems about value lists cover every sequence of calls.
\<close>

definition cdr_pad :: "nat \<Rightarrow> nat \<Rightarrow> nat" where
  "cdr_pad alignment pos = (alignment - pos mod alignment) mod alignment"

datatype cdr_value =
  VBool bool | VU8 byte | VU16 u16 | VU32 u32 | VU64 u64 | VBytes "byte list"
  | VString "byte list" nat

fun cdr_value_ok :: "cdr_value \<Rightarrow> bool" where
  "cdr_value_ok (VString s bound) = (length s \<le> bound \<and> length s < 2 ^ 32 - 1)"
| "cdr_value_ok v = True"

fun cdr_alignment :: "cdr_value \<Rightarrow> nat" where
  "cdr_alignment (VBool b) = 1"
| "cdr_alignment (VU8 v) = 1"
| "cdr_alignment (VU16 v) = 2"
| "cdr_alignment (VU32 v) = 4"
| "cdr_alignment (VU64 v) = 8"
| "cdr_alignment (VBytes bs) = 1"
| "cdr_alignment (VString s bound) = 4"

fun cdr_body :: "byte_order \<Rightarrow> cdr_value \<Rightarrow> byte list" where
  "cdr_body order (VBool b) = [if b then 1 else 0]"
| "cdr_body order (VU8 v) = [v]"
| "cdr_body order (VU16 v) = word_bytes order 2 v"
| "cdr_body order (VU32 v) = word_bytes order 4 v"
| "cdr_body order (VU64 v) = word_bytes order 8 v"
| "cdr_body order (VBytes bs) = bs"
| "cdr_body order (VString s bound) =
     word_bytes order 4 (of_nat (length s + 1) :: u32) @ s @ [0]"

definition cdr_encode :: "byte_order \<Rightarrow> nat \<Rightarrow> cdr_value \<Rightarrow> byte list" where
  "cdr_encode order pos v = replicate (cdr_pad (cdr_alignment v) pos) 0 @ cdr_body order v"

primrec cdr_encode_all :: "byte_order \<Rightarrow> nat \<Rightarrow> cdr_value list \<Rightarrow> byte list" where
  "cdr_encode_all order pos [] = []"
| "cdr_encode_all order pos (v # vs) =
     cdr_encode order pos v @ cdr_encode_all order (pos + length (cdr_encode order pos v)) vs"

definition cdr_header :: "byte_order \<Rightarrow> byte list" where
  "cdr_header order = [0, if order = little_endian then 1 else 0, 0, 0]"

fun write_value :: "cdr_value \<Rightarrow> cdr_writer \<Rightarrow> (bool \<times> cdr_writer) option" where
  "write_value (VBool b) = cw_write_bool b"
| "write_value (VU8 v) = cw_write_uint8 v"
| "write_value (VU16 v) = cw_write_uint16 v"
| "write_value (VU32 v) = cw_write_uint32 v"
| "write_value (VU64 v) = cw_write_uint64 v"
| "write_value (VBytes bs) = cw_write_bytes (Span bs)"
| "write_value (VString s bound) = cw_write_string (Span s) bound"

primrec write_values :: "cdr_value list \<Rightarrow> cdr_writer \<Rightarrow> (bool \<times> cdr_writer) option" where
  "write_values [] w = Some (True, w)"
| "write_values (v # vs) w = do {
     (ok, w) \<leftarrow> write_value v w;
     if ok then write_values vs w else Some (False, w) }"

definition cdr_write :: "byte_order \<Rightarrow> cdr_value list \<Rightarrow> cdr_writer \<Rightarrow> (bool \<times> cdr_writer) option" where
  "cdr_write order vs w = do {
     (ok, w) \<leftarrow> cw_begin order w;
     if ok then write_values vs w else Some (False, w) }"

definition cw_at :: "byte_order \<Rightarrow> byte list \<Rightarrow> byte list \<Rightarrow> cdr_writer" where
  "cw_at order pre rest =
     \<lparr>cw_buffer = Span (pre @ rest), cw_offset = length pre, cw_origin = 4, cw_byte_order = order,
      cw_error = cdr_none, cw_initialized = True\<rparr>"

datatype cdr_type =
  TBool | TU8 | TU16 | TU32 | TU64 | TBytes nat | TString nat | TStringView nat

fun cdr_typed :: "cdr_type \<Rightarrow> cdr_value \<Rightarrow> bool" where
  "cdr_typed TBool (VBool b) = True"
| "cdr_typed TU8 (VU8 v) = True"
| "cdr_typed TU16 (VU16 v) = True"
| "cdr_typed TU32 (VU32 v) = True"
| "cdr_typed TU64 (VU64 v) = True"
| "cdr_typed (TBytes n) (VBytes bs) = (length bs = n)"
| "cdr_typed (TString n) (VString s bound) = (n = bound)"
| "cdr_typed (TStringView n) (VString s bound) = (n = bound)"
| "cdr_typed _ _ = False"

fun read_value :: "cdr_type \<Rightarrow> cdr_reader \<Rightarrow> (cdr_value option \<times> cdr_reader) option" where
  "read_value TBool r = do { (v, r) \<leftarrow> cr_read_bool r; Some (map_option VBool v, r) }"
| "read_value TU8 r = do { (v, r) \<leftarrow> cr_read_uint8 r; Some (map_option VU8 v, r) }"
| "read_value TU16 r = do { (v, r) \<leftarrow> cr_read_uint16 r; Some (map_option VU16 v, r) }"
| "read_value TU32 r = do { (v, r) \<leftarrow> cr_read_uint32 r; Some (map_option VU32 v, r) }"
| "read_value TU64 r = do { (v, r) \<leftarrow> cr_read_uint64 r; Some (map_option VU64 v, r) }"
| "read_value (TBytes n) r = do {
     (ok, d, r) \<leftarrow> cr_read_bytes (Span (replicate n 0)) r;
     Some (if ok then Some (VBytes (span_bytes d)) else None, r) }"
| "read_value (TString bound) r = do {
     (v, d, r) \<leftarrow> cr_read_string (Span (replicate (Suc bound) 0)) bound r;
     Some (map_option (\<lambda>n. VString (take n (span_bytes d)) bound) v, r) }"
| "read_value (TStringView bound) r = do {
     (v, r) \<leftarrow> cr_read_string_view bound r;
     Some (map_option (\<lambda>s. VString s bound) v, r) }"

primrec read_values :: "cdr_type list \<Rightarrow> cdr_reader \<Rightarrow> (cdr_value list option \<times> cdr_reader) option" where
  "read_values [] r = Some (Some [], r)"
| "read_values (t # ts) r = do {
     (v, r) \<leftarrow> read_value t r;
     case v of
       None \<Rightarrow> Some (None, r)
     | Some v \<Rightarrow> do {
         (vs, r) \<leftarrow> read_values ts r;
         Some (map_option ((#) v) vs, r) } }"

definition cdr_read :: "cdr_type list \<Rightarrow> cdr_reader \<Rightarrow> (cdr_value list option \<times> cdr_reader) option" where
  "cdr_read ts r = do {
     (ok, r) \<leftarrow> cr_begin r;
     if ok then read_values ts r else Some (None, r) }"

definition cr_at :: "byte_order \<Rightarrow> byte list \<Rightarrow> nat \<Rightarrow> cdr_reader" where
  "cr_at order bs n =
     \<lparr>cr_buffer = Span bs, cr_offset = n, cr_origin = 4, cr_byte_order = order,
      cr_error = cdr_none, cr_initialized = True\<rparr>"

section \<open>Invariants\<close>

definition cr_inv :: "cdr_reader \<Rightarrow> bool" where
  "cr_inv r \<longleftrightarrow> cr_initialized r \<longrightarrow>
     (\<exists>b. cr_buffer r = Span b \<and> cr_origin r \<le> cr_offset r \<and> cr_offset r \<le> length b)"

definition cr_stepped :: "cdr_reader \<Rightarrow> bool \<Rightarrow> cdr_reader \<Rightarrow> bool" where
  "cr_stepped r ok r' \<longleftrightarrow> cr_inv r' \<and> cr_buffer r' = cr_buffer r \<and> cr_origin r' = cr_origin r \<and>
     cr_byte_order r' = cr_byte_order r \<and> cr_initialized r' = cr_initialized r \<and>
     (if ok then cr_offset r \<le> cr_offset r' \<and> cr_error r = cdr_none \<and> cr_error r' = cdr_none
      else cr_offset r' = cr_offset r \<and> cr_error r' \<noteq> cdr_none)"

definition cw_inv :: "cdr_writer \<Rightarrow> bool" where
  "cw_inv w \<longleftrightarrow> cw_initialized w \<longrightarrow>
     (\<exists>b. cw_buffer w = Span b \<and> cw_origin w \<le> cw_offset w \<and> cw_offset w \<le> length b)"

definition cw_stepped :: "cdr_writer \<Rightarrow> bool \<Rightarrow> cdr_writer \<Rightarrow> bool" where
  "cw_stepped w ok w' \<longleftrightarrow> cw_inv w' \<and> span_size (cw_buffer w') = span_size (cw_buffer w) \<and>
     take (cw_offset w) (span_bytes (cw_buffer w')) = take (cw_offset w) (span_bytes (cw_buffer w)) \<and>
     (if ok then cw_offset w \<le> cw_offset w' \<and> cw_error w = cdr_none \<and> cw_error w' = cdr_none
      else cw_offset w' = cw_offset w \<and> cw_buffer w' = cw_buffer w \<and> cw_error w' \<noteq> cdr_none)"

definition cw_safe :: "cdr_writer \<Rightarrow> (bool \<times> cdr_writer) option \<Rightarrow> bool" where
  "cw_safe w res \<longleftrightarrow> (case res of None \<Rightarrow> False | Some (ok, w') \<Rightarrow> cw_stepped w ok w')"

section \<open>Alignment\<close>

lemma power_of_two_iff: "is_power_of_two v \<longleftrightarrow> (\<exists>k. v = 2 ^ k)"
proof
  show "\<exists>k. v = 2 ^ k" if "is_power_of_two v"
    using that
  proof (induction v rule: less_induct)
    case (less v)
    then have v: "v \<noteq> 0" "v AND (v - 1) = 0" by (simp_all add: is_power_of_two_def)
    show ?case
    proof (cases "even v")
      case True
      then obtain m where m: "v = 2 * m" by blast
      with v have "(v - 1) div 2 = m - 1" "odd (v - 1)" "m \<noteq> 0" by auto
      with v m have "m AND (m - 1) = 0"
        by (subst (asm) and_rec) auto
      with less.IH [of m] m \<open>m \<noteq> 0\<close> obtain k where "m = 2 ^ k"
        by (auto simp: is_power_of_two_def)
      with m show ?thesis by (intro exI [of _ "Suc k"]) simp
    next
      case False
      then have "(v - 1) div 2 = v div 2" by (auto elim!: oddE)
      with v have "v div 2 = 0" by (subst (asm) and_rec) auto
      with False show ?thesis by (intro exI [of _ 0]) (auto elim!: oddE)
    qed
  qed
next
  assume "\<exists>k. v = 2 ^ k"
  then obtain k where v: "v = 2 ^ k" ..
  then have "v AND (v - 1) = take_bit k v"
    by (simp add: take_bit_eq_mask mask_eq_exp_minus_1)
  with v show "is_power_of_two v"
    by (simp add: is_power_of_two_def take_bit_eq_mod)
qed

lemma and_power_of_two: "is_power_of_two a \<Longrightarrow> x AND (a - Suc 0) = x mod a"
proof -
  assume "is_power_of_two a"
  then obtain k where "a = 2 ^ k" by (auto simp: power_of_two_iff)
  then have "x AND (a - Suc 0) = take_bit k x"
    by (simp add: take_bit_eq_mask mask_eq_exp_minus_1)
  with \<open>a = 2 ^ k\<close> show ?thesis by (simp add: take_bit_eq_mod)
qed

lemma cdr_pad_less: "0 < a \<Longrightarrow> cdr_pad a pos < a"
  by (simp add: cdr_pad_def)

lemma cdr_pad_aligned: "0 < a \<Longrightarrow> (pos + cdr_pad a pos) mod a = 0"
proof (cases "pos mod a = 0")
  case False
  assume "0 < a"
  then have "pos mod a < a" by simp
  then have "pos + (a - pos mod a) = (pos div a + 1) * a"
    using div_mult_mod_eq [of pos a] unfolding add_mult_distrib by linarith
  with False \<open>0 < a\<close> show ?thesis by (simp add: cdr_pad_def)
qed (simp add: cdr_pad_def)

lemma aligned_position_pad:
  assumes "origin \<le> offset" "is_power_of_two a" "a \<le> SIZE_MAX"
  shows "aligned_position offset origin a =
    (if offset + cdr_pad a (offset - origin) \<le> SIZE_MAX
     then Some (offset + cdr_pad a (offset - origin)) else None)"
proof -
  have "0 < a" using assms(2) by (simp add: is_power_of_two_def)
  with assms show ?thesis
    using mod_less_divisor [of a "offset - origin"]
    by (auto simp: aligned_position_def Let_def and_power_of_two cdr_pad_def)
qed

lemma powers_of_two [simp]:
  "is_power_of_two (Suc 0)" "is_power_of_two 1" "is_power_of_two 2" "is_power_of_two 4" "is_power_of_two 8"
  by (simp_all add: is_power_of_two_def)

section \<open>The writer produces the reference encoding\<close>

lemma cw_reserve_at:
  assumes "4 \<le> length pre" "length (pre @ rest) \<le> SIZE_MAX" "is_power_of_two a" "a \<le> SIZE_MAX"
  defines "p \<equiv> cdr_pad a (length pre - 4)"
  shows "cw_reserve a width (cw_at order pre rest) =
    (if p + width \<le> length rest
     then Some (Some (length pre + p),
            (cw_at order pre rest)\<lparr>cw_buffer := Span (pre @ replicate p 0 @ drop p rest)\<rparr>)
     else Some (None, (cw_at order pre rest)\<lparr>cw_error := cdr_overflow\<rparr>))"
  using assms
  by (auto simp: cw_reserve_def cw_at_def aligned_position_pad for_loop_zero cw_fail_def Let_def)

lemma cw_write_integral_at:
  fixes v :: u64 and order :: byte_order
  assumes "4 \<le> length pre" "length (pre @ rest) \<le> SIZE_MAX" "is_power_of_two a" "a \<le> SIZE_MAX"
    "0 < width"
  defines "e \<equiv> replicate (cdr_pad a (length pre - 4)) 0 @ word_bytes order width v"
  shows "cw_write_integral v width a (cw_at order pre rest) =
    (if length e \<le> length rest
     then Some (True, cw_at order (pre @ e) (drop (length e) rest))
     else Some (False, (cw_at order pre rest)\<lparr>cw_error := cdr_overflow\<rparr>))"
  using assms
  by (auto simp: cw_write_integral_def cw_reserve_at cw_store_integral_def mem_simps)
    (auto simp: cw_at_def wr_block_def ac_simps)

lemma cdr_pad_1 [simp]: "cdr_pad (Suc 0) n = 0"
  by (simp add: cdr_pad_def)

lemma cw_write_bytes_at:
  assumes "4 \<le> length pre" "length (pre @ rest) \<le> SIZE_MAX"
  shows "cw_write_bytes (Span bs) (cw_at order pre rest) =
    (if length bs \<le> length rest
     then Some (True, cw_at order (pre @ bs) (drop (length bs) rest))
     else Some (False, (cw_at order pre rest)\<lparr>cw_error := cdr_overflow\<rparr>))"
proof -
  have "Suc 0 \<le> SIZE_MAX" by (simp add: SIZE_MAX_def)
  with assms show ?thesis
    by (auto simp: cw_write_bytes_def cw_reserve_at [where a = "Suc 0"])
      (auto simp: cw_at_def wr_block_def)
qed

lemma cw_write_string_at:
  fixes s :: "byte list" and order :: byte_order
  assumes "4 \<le> length pre" "length (pre @ rest) \<le> SIZE_MAX" "cdr_value_ok (VString s bound)"
  defines "e \<equiv> cdr_encode order (length pre - 4) (VString s bound)"
  shows "cw_write_string (Span s) bound (cw_at order pre rest) =
    (if length e \<le> length rest
     then Some (True, cw_at order (pre @ e) (drop (length e) rest))
     else Some (False, (cw_at order pre rest)\<lparr>cw_error := cdr_overflow\<rparr>))"
proof -
  let ?n = "of_nat (Suc (length s)) :: u32" and ?p = "cdr_pad 4 (length pre - 4)"
  let ?w = "word_bytes order 4 ?n"
  have max: "\<not> SIZE_MAX - 4 < Suc (length s)" "4 \<le> SIZE_MAX"
    using assms(3) by (simp_all add: SIZE_MAX_def)
  have e: "e = replicate ?p 0 @ ?w @ s @ [0]"
    by (simp add: e_def cdr_encode_def)
  have wb: "word_bytes order 4 (ucast (v :: u32) :: u64) = word_bytes order 4 v" for v
    by (rule word_bytes_ucast) simp_all
  have len: "length e = ?p + (4 + Suc (length s))" by (simp add: e)
  from assms max have guards: "\<not> bound < length s" "\<not> 2 ^ 32 - 1 \<le> length s" by auto
  show ?thesis
  proof (cases "length e \<le> length rest")
    case False
    with assms max guards len show ?thesis
      by (simp add: cw_write_string_def Let_def cw_reserve_at)
  next
    case True
    with assms(1-3) max guards len show ?thesis
      by (simp add: cw_write_string_def Let_def cw_reserve_at cw_store_integral_def store_word_block
          wb del: of_nat_Suc)
        (auto simp: cw_at_def wr_eq_block wr_block_def e wb ac_simps simp del: of_nat_Suc)
  qed
qed

lemma write_value_at:
  fixes order :: byte_order
  assumes "4 \<le> length pre" "length (pre @ rest) \<le> SIZE_MAX" "cdr_value_ok v"
  defines "e \<equiv> cdr_encode order (length pre - 4) v"
  shows "write_value v (cw_at order pre rest) =
    (if length e \<le> length rest
     then Some (True, cw_at order (pre @ e) (drop (length e) rest))
     else Some (False, (cw_at order pre rest)\<lparr>cw_error := cdr_overflow\<rparr>))"
proof -
  have wb: "word_bytes order (Suc 0) (ucast (v :: byte) :: u64) = [v]"
      "word_bytes order 2 (ucast (v2 :: u16) :: u64) = word_bytes order 2 v2"
      "word_bytes order 4 (ucast (v4 :: u32) :: u64) = word_bytes order 4 v4" for v v2 v4
    using word_bytes_1 by (simp_all add: word_bytes_ucast)
  have max: "Suc 0 \<le> SIZE_MAX" "2 \<le> SIZE_MAX" "4 \<le> SIZE_MAX" "8 \<le> SIZE_MAX"
    by (simp_all add: SIZE_MAX_def)
  note int = cw_write_integral_at [OF assms(1,2)]
  show ?thesis
  proof (cases v)
    case (VString s bound)
    with assms show ?thesis by (simp add: cw_write_string_at)
  next
    case (VBytes bs)
    with assms show ?thesis by (simp add: cw_write_bytes_at cdr_encode_def)
  qed (use max in \<open>simp_all add: e_def cdr_encode_def wb int cw_write_bool_def cw_write_uint8_def
      cw_write_uint16_def cw_write_uint32_def cw_write_uint64_def\<close>)
qed

lemma write_values_at:
  fixes order :: byte_order
  assumes "4 \<le> length pre" "length (pre @ rest) \<le> SIZE_MAX" "list_all cdr_value_ok vs"
    and "e = cdr_encode_all order (length pre - 4) vs"
  shows "if length e \<le> length rest
     then write_values vs (cw_at order pre rest) =
       Some (True, cw_at order (pre @ e) (drop (length e) rest))
     else \<exists>w. write_values vs (cw_at order pre rest) = Some (False, w) \<and> cw_error w = cdr_overflow"
  using assms
proof (induction vs arbitrary: pre rest e)
  case Nil
  then show ?case by simp
next
  case (Cons v vs)
  let ?e = "cdr_encode order (length pre - 4) v"
  let ?es = "cdr_encode_all order (length (pre @ ?e) - 4) vs"
  have e: "e = ?e @ ?es" using Cons.prems by (simp add: add.commute)
  show ?case
  proof (cases "length ?e \<le> length rest")
    case True
    with Cons.IH [of "pre @ ?e" "drop (length ?e) rest" ?es] Cons.prems show ?thesis
      by (auto simp: write_value_at e ac_simps split: if_splits)
  next
    case False
    with Cons.prems show ?thesis by (simp add: write_value_at e)
  qed
qed

lemma cw_begin_new:
  assumes "order = big_endian \<or> order = little_endian" "4 \<le> length buf"
  shows "cw_begin order (cdr_writer_new (Span buf)) =
    Some (True, cw_at order (cdr_header order) (drop 4 buf))"
  using assms
  by (auto simp: cw_begin_def cdr_writer_new_def cw_at_def cdr_header_def encapsulation_size_def
      mem_simps numeral_eq_Suc)
    (auto simp: wr_block_def)

lemma length_cdr_header [simp]: "length (cdr_header order) = 4"
  by (simp add: cdr_header_def)

section \<open>The reader inverts the reference encoding\<close>

lemma cr_at_simps [simp]:
  "cr_buffer (cr_at order bs n) = Span bs" "cr_offset (cr_at order bs n) = n"
  "cr_byte_order (cr_at order bs n) = order" "cr_error (cr_at order bs n) = cdr_none"
  "(cr_at order bs n)\<lparr>cr_offset := m\<rparr> = cr_at order bs m"
  by (simp_all add: cr_at_def)

lemma cr_locate_at:
  assumes "4 \<le> n" "n \<le> length bs" "length bs \<le> SIZE_MAX" "is_power_of_two a" "a \<le> SIZE_MAX"
  defines "p \<equiv> cdr_pad a (n - 4)"
  shows "cr_locate a width (cr_at order bs n) =
    (if n + p + width \<le> length bs
     then (Some (n + p, n + p + width), cr_at order bs n)
     else (None, (cr_at order bs n)\<lparr>cr_error := cdr_underflow\<rparr>))"
  using assms
  by (auto simp: cr_locate_def cr_at_def aligned_position_pad cr_fail_def Let_def)

lemma cr_read_integral_at:
  fixes v :: u64 and order :: byte_order
  assumes "4 \<le> length pre" "length bs \<le> SIZE_MAX" "is_power_of_two a" "a \<le> SIZE_MAX"
    "0 < width" "width \<le> 8"
    "bs = pre @ replicate (cdr_pad a (length pre - 4)) 0 @ word_bytes order width v @ post"
  shows "cr_read_integral width a (cr_at order bs (length pre)) =
    Some (Some (take_bit (8 * width) v),
      cr_at order bs (length pre + (cdr_pad a (length pre - 4) + width)))"
proof -
  let ?n = "length pre + cdr_pad a (length pre - 4)"
  have "load_word order width ?n bs = Some (take_bit (8 * width) v)"
    using assms by (simp add: load_word_block bytes_word_bytes rd_block_def)
  with assms show ?thesis
    by (simp add: cr_read_integral_def cr_locate_at cr_load_integral_def add.assoc)
qed

lemma string_length_word:
  assumes "length s < 2 ^ 32 - 1"
  shows "unat (take_bit 32 (ucast (of_nat (Suc (length s)) :: u32) :: u64)) = Suc (length s)"
proof -
  have "unat (of_nat (Suc (length s)) :: u32) = Suc (length s)"
    using assms by (simp add: unat_of_nat del: of_nat_Suc)
  then show ?thesis using assms
    by (simp add: take_bit_eq_mod unat_mod_distrib del: of_nat_Suc)
qed

lemma cr_string_header_at:
  fixes s :: "byte list" and order :: byte_order
  assumes "4 \<le> length pre" "length bs \<le> SIZE_MAX" "length s < 2 ^ 32 - 1"
    and bs: "bs = pre @ cdr_encode order (length pre - 4) (VString s bound) @ post"
  defines "n \<equiv> length pre + cdr_pad 4 (length pre - 4)"
  shows "cr_locate 4 4 (cr_at order bs (length pre)) = (Some (n, n + 4), cr_at order bs (length pre))"
    and "map_option unat (cr_load_integral n 4 (cr_at order bs (length pre))) = Some (Suc (length s))"
    and "n + 4 + Suc (length s) \<le> length bs"
    and "drop (n + 4) bs = s @ [0] @ post"
proof -
  have bs: "bs = pre @ replicate (cdr_pad 4 (length pre - 4)) 0 @
      word_bytes order 4 (ucast (of_nat (Suc (length s)) :: u32) :: u64) @ s @ [0] @ post"
    using bs by (simp add: cdr_encode_def word_bytes_ucast del: of_nat_Suc)
  have max: "4 \<le> SIZE_MAX" by (simp add: SIZE_MAX_def)
  with assms(1,2) bs show "cr_locate 4 4 (cr_at order bs (length pre)) = (Some (n, n + 4), cr_at order bs (length pre))"
    by (simp add: cr_locate_at n_def del: of_nat_Suc)
  from bs have "load_word order 4 n bs = Some (take_bit 32 (ucast (of_nat (Suc (length s)) :: u32) :: u64))"
    by (simp add: load_word_block n_def del: of_nat_Suc)
  with string_length_word [OF assms(3)]
  show "map_option unat (cr_load_integral n 4 (cr_at order bs (length pre))) = Some (Suc (length s))"
    by (simp add: cr_load_integral_def cr_at_def del: of_nat_Suc)
  from bs show "n + 4 + Suc (length s) \<le> length bs" "drop (n + 4) bs = s @ [0] @ post"
    by (simp_all add: n_def del: of_nat_Suc)
qed

lemma read_string_at:
  fixes s :: "byte list" and order :: byte_order
  assumes "4 \<le> length pre" "length bs \<le> SIZE_MAX" "cdr_value_ok (VString s bound)"
    and "bs = pre @ e @ post" "e = cdr_encode order (length pre - 4) (VString s bound)"
  shows "cr_read_string_view bound (cr_at order bs (length pre)) =
      Some (Some s, cr_at order bs (length pre + length e))"
    and "length s < length d \<Longrightarrow> cr_read_string (Span d) bound (cr_at order bs (length pre)) =
      Some (Some (length s), Span (s @ [0] @ drop (Suc (length s)) d), cr_at order bs (length pre + length e))"
proof -
  define n where "n = length pre + cdr_pad 4 (length pre - 4)"
  note h = cr_string_header_at [OF assms(1,2), of s order bound post, folded n_def]
  from assms have s: "length s < 2 ^ 32 - 1" and bs: "bs = pre @ cdr_encode order (length pre - 4) (VString s bound) @ post"
    by simp_all
  from h(2) [OF s bs] obtain v where v: "cr_load_integral n 4 (cr_at order bs (length pre)) = Some v"
    "unat v = Suc (length s)" by auto
  have len: "length pre + length e = n + 4 + Suc (length s)"
    by (simp add: assms(5) n_def cdr_encode_def)
  note loc = h(1) [OF s bs] and fits = h(3) [OF s bs] and dr = h(4) [OF s bs]
  have z: "bs ! (n + 4 + length s) = 0" "bs ! (4 + (n + length s)) = 0"
    using dr fits nth_drop [of "n + 4" bs "length s"] by (simp_all add: ac_simps)
  have room: "\<not> length bs - (n + 4) < Suc (length s)" using fits by linarith
  show "cr_read_string_view bound (cr_at order bs (length pre)) =
      Some (Some s, cr_at order bs (length pre + length e))"
    using loc v fits dr z room assms(3) unfolding len
    by (simp add: cr_read_string_view_def Let_def rd_block_def)
  show "cr_read_string (Span d) bound (cr_at order bs (length pre)) =
      Some (Some (length s), Span (s @ [0] @ drop (Suc (length s)) d), cr_at order bs (length pre + length e))"
    if "length s < length d"
    using that loc v fits dr z room assms(3) unfolding len
    by (simp add: cr_read_string_def Let_def rd_block_def wr_block_def)
qed

lemma read_value_at:
  fixes order :: byte_order
  assumes "4 \<le> length pre" "length bs \<le> SIZE_MAX" "cdr_value_ok v" "cdr_typed t v"
    and "bs = pre @ e @ post" "e = cdr_encode order (length pre - 4) v"
  shows "read_value t (cr_at order bs (length pre)) = Some (Some v, cr_at order bs (length pre + length e))"
proof -
  have wb: "word_bytes order (Suc 0) (ucast (v :: byte) :: u64) = [v]"
      "word_bytes order 2 (ucast (v2 :: u16) :: u64) = word_bytes order 2 v2"
      "word_bytes order 4 (ucast (v4 :: u32) :: u64) = word_bytes order 4 v4" for v v2 v4
    using word_bytes_1 by (simp_all add: word_bytes_ucast)
  have max: "Suc 0 \<le> SIZE_MAX" "2 \<le> SIZE_MAX" "4 \<le> SIZE_MAX" "8 \<le> SIZE_MAX"
    by (simp_all add: SIZE_MAX_def)
  note int = cr_read_integral_at [OF assms(1,2), where post = post]
  show ?thesis
  proof (cases v)
    case (VBool b)
    with assms max int [where a = "Suc 0" and width = "Suc 0" and v = "ucast (if b then 1 else 0 :: byte)" and order = order]
    show ?thesis by (cases t) (simp_all add: cr_read_bool_def cr_read_uint8_def cdr_encode_def wb ucast_take_bit)
  next
    case (VU8 x)
    with assms max int [where a = "Suc 0" and width = "Suc 0" and v = "ucast x" and order = order]
    show ?thesis by (cases t) (simp_all add: cr_read_uint8_def cdr_encode_def wb ucast_take_bit)
  next
    case (VU16 x)
    with assms max int [where a = 2 and width = 2 and v = "ucast x" and order = order]
    show ?thesis by (cases t) (simp_all add: cr_read_uint16_def cdr_encode_def wb ucast_take_bit)
  next
    case (VU32 x)
    with assms max int [where a = 4 and width = 4 and v = "ucast x" and order = order]
    show ?thesis by (cases t) (simp_all add: cr_read_uint32_def cdr_encode_def wb ucast_take_bit)
  next
    case (VU64 x)
    with assms max int [where a = 8 and width = 8 and v = x and order = order]
    show ?thesis by (cases t) (simp_all add: cr_read_uint64_def cdr_encode_def)
  next
    case (VBytes x)
    with assms max show ?thesis
      by (cases t) (auto simp: cr_read_bytes_def cr_locate_at [where a = "Suc 0"] cdr_encode_def rd_block_def wr_block_def)
  next
    case (VString s bound)
    with assms read_string_at [where bs = bs and pre = pre and post = post, of s bound e order]
    show ?thesis by (cases t) simp_all
  qed
qed

lemma read_values_at:
  fixes order :: byte_order
  assumes "4 \<le> length pre" "length bs \<le> SIZE_MAX" "list_all cdr_value_ok vs" "list_all2 cdr_typed ts vs"
    and "bs = pre @ e @ post" "e = cdr_encode_all order (length pre - 4) vs"
  shows "read_values ts (cr_at order bs (length pre)) = Some (Some vs, cr_at order bs (length pre + length e))"
  using assms(4,1,2,3,5,6)
proof (induction arbitrary: pre e rule: list_all2_induct)
  case Nil
  then show ?case by simp
next
  case (Cons t ts v vs)
  let ?e = "cdr_encode order (length pre - 4) v"
  let ?es = "cdr_encode_all order (length (pre @ ?e) - 4) vs"
  have e: "e = ?e @ ?es" using Cons.prems by (simp add: add.commute)
  have "read_value t (cr_at order bs (length pre)) = Some (Some v, cr_at order bs (length pre + length ?e))"
    by (rule read_value_at [where post = "?es @ post"]) (use Cons e in simp_all)
  moreover have "read_values ts (cr_at order bs (length (pre @ ?e))) =
      Some (Some vs, cr_at order bs (length (pre @ ?e) + length ?es))"
    by (rule Cons.IH) (use Cons.prems e in simp_all)
  ultimately show ?case by (simp add: e ac_simps)
qed

lemma cr_begin_new:
  assumes "order = big_endian \<or> order = little_endian"
  shows "cr_begin (cdr_reader_new (Span (cdr_header order @ bs))) =
    Some (True, cr_at order (cdr_header order @ bs) 4)"
  using assms
  by (auto simp: cr_begin_def cdr_reader_new_def cr_at_def cdr_header_def encapsulation_size_def)

section \<open>Safety of the reader\<close>

lemma aligned_position_ge: "aligned_position offset origin a = Some start \<Longrightarrow> offset \<le> start"
  by (auto simp: aligned_position_def Let_def split: if_splits)

lemma cr_stepped_fail: "cr_inv r \<Longrightarrow> e \<noteq> cdr_none \<Longrightarrow> cr_stepped r False (cr_fail e r)"
  by (auto simp: cr_stepped_def cr_fail_def cr_inv_def)

lemma cr_stepped_advance:
  "cr_inv r \<Longrightarrow> cr_error r = cdr_none \<Longrightarrow> cr_buffer r = Span b \<Longrightarrow> cr_offset r \<le> n \<Longrightarrow> n \<le> length b \<Longrightarrow>
   cr_stepped r True (r\<lparr>cr_offset := n\<rparr>)"
  by (auto simp: cr_stepped_def cr_inv_def)

lemma cr_locate_cases:
  assumes "cr_inv r"
  obtains (fail) e where "cr_locate a width r = (None, cr_fail e r)" "e \<noteq> cdr_none"
  | (found) start b where "cr_locate a width r = (Some (start, start + width), r)" "cr_buffer r = Span b"
      "cr_offset r \<le> start" "start + width \<le> length b" "cr_error r = cdr_none"
proof (cases "cr_error r = cdr_none \<and> cr_initialized r")
  case False
  have "\<exists>e. cr_locate a width r = (None, cr_fail e r) \<and> e \<noteq> cdr_none"
  proof (cases "cr_error r = cdr_none")
    case True
    with False have "cr_locate a width r = (None, cr_fail cdr_not_initialized r)"
      by (simp add: cr_locate_def)
    then show ?thesis by blast
  next
    case False
    then have "cr_locate a width r = (None, cr_fail (cr_error r) r)"
      by (simp add: cr_locate_def cr_fail_def)
    with False show ?thesis by blast
  qed
  with fail show thesis by blast
next
  case True
  with assms obtain b where b: "cr_buffer r = Span b" "cr_offset r \<le> length b"
    by (auto simp: cr_inv_def)
  show thesis
  proof (cases "aligned_position (cr_offset r) (cr_origin r) a")
    case None
    with True show thesis by (intro fail [of cdr_underflow]) (simp_all add: cr_locate_def)
  next
    case (Some start)
    with aligned_position_ge have "cr_offset r \<le> start" by blast
    with Some True b show thesis
      by (cases "length b < start \<or> length b - start < width")
        (auto simp: cr_locate_def intro: fail [of cdr_underflow] found)
  qed
qed

lemma cr_read_integral_stepped:
  assumes "cr_inv r"
  shows "\<exists>v r'. cr_read_integral width a r = Some (v, r') \<and> cr_stepped r (v \<noteq> None) r'"
  using assms
proof (cases rule: cr_locate_cases [where a = a and width = width])
  case (fail e)
  with cr_stepped_fail [OF assms] show ?thesis by (auto simp: cr_read_integral_def)
next
  case (found start b)
  then show ?thesis
    using cr_stepped_advance [OF assms, of b "start + width"]
    by (simp add: cr_read_integral_def cr_load_integral_def load_word_block)
qed

lemma cr_read_mapped_stepped:
  assumes "cr_inv r"
  shows "\<exists>v r'. Option.bind (cr_read_integral width a r) (\<lambda>(v, r). Some (map_option f v, r)) = Some (v, r')
      \<and> cr_stepped r (v \<noteq> None) r'"
  using cr_read_integral_stepped [OF assms, of width a] by fastforce

lemma cr_read_word_stepped:
  assumes "cr_inv r"
  shows "\<exists>v r'. cr_read_uint8 r = Some (v, r') \<and> cr_stepped r (v \<noteq> None) r'"
    and "\<exists>v r'. cr_read_uint16 r = Some (v, r') \<and> cr_stepped r (v \<noteq> None) r'"
    and "\<exists>v r'. cr_read_uint32 r = Some (v, r') \<and> cr_stepped r (v \<noteq> None) r'"
    and "\<exists>v r'. cr_read_uint64 r = Some (v, r') \<and> cr_stepped r (v \<noteq> None) r'"
  unfolding cr_read_uint8_def cr_read_uint16_def cr_read_uint32_def cr_read_uint64_def
  by (rule cr_read_mapped_stepped [OF assms] cr_read_integral_stepped [OF assms])+

lemma cr_read_bool_stepped:
  assumes "cr_inv r"
  shows "\<exists>v r'. cr_read_bool r = Some (v, r') \<and> cr_stepped r (v \<noteq> None) r'"
proof -
  from cr_read_word_stepped(1) [OF assms] obtain v r' where
    v: "cr_read_uint8 r = Some (v, r')" "cr_stepped r (v \<noteq> None) r'" by blast
  show ?thesis
  proof (cases "\<exists>x. v = Some x \<and> x > 1")
    case True
    with v have "cr_read_bool r = Some (None, cr_fail cdr_invalid_data (r'\<lparr>cr_offset := cr_offset r\<rparr>))"
      by (auto simp: cr_read_bool_def)
    moreover have "cr_stepped r False (cr_fail cdr_invalid_data (r'\<lparr>cr_offset := cr_offset r\<rparr>))"
      using True v assms by (auto simp: cr_stepped_def cr_fail_def cr_inv_def)
    ultimately show ?thesis by simp
  next
    case False
    with v show ?thesis
      by (cases v) (auto simp: cr_read_bool_def cr_stepped_def)
  qed
qed

lemma cr_read_bytes_stepped:
  assumes "cr_inv r"
  shows "\<exists>ok d' r'. cr_read_bytes d r = Some (ok, d', r') \<and> span_size d' = span_size d \<and>
     cr_stepped r ok r'"
proof (cases "null_span d \<and> span_size d \<noteq> 0")
  case True
  then show ?thesis using cr_stepped_fail [OF assms, of cdr_invalid_argument]
    by (intro exI [of _ False]) (auto simp: cr_read_bytes_def)
next
  case False
  note d = this
  from assms show ?thesis
  proof (cases rule: cr_locate_cases [where a = 1 and width = "span_size d"])
    case (fail e)
    with d cr_stepped_fail [OF assms, of e] show ?thesis
      by (intro exI [of _ False]) (auto simp: cr_read_bytes_def simp del: One_nat_def)
  next
    case (found start b)
    with d show ?thesis
      using cr_stepped_advance [OF assms, of b "start + span_size d"]
      by (cases d; intro exI [of _ True]) (auto simp: cr_read_bytes_def Let_def rd_block_def wr_block_def simp del: One_nat_def)
  qed
qed

lemma cr_read_string_stepped:
  assumes "cr_inv r"
  shows "\<exists>n d' r'. cr_read_string d bound r = Some (n, d', r') \<and> span_size d' = span_size d \<and>
     cr_stepped r (n \<noteq> None) r' \<and> (\<forall>k. n = Some k \<longrightarrow> k \<le> bound \<and> k < span_size d)"
  using assms
proof (cases rule: cr_locate_cases [where a = 4 and width = 4])
  case (fail e)
  with cr_stepped_fail [OF assms] show ?thesis by (auto simp: cr_read_string_def Let_def)
next
  case (found start b)
  obtain v where v: "cr_load_integral start 4 r = Some v"
    using found by (auto simp: cr_load_integral_def load_word_block)
  show ?thesis
    using found v cr_stepped_advance [OF assms, of b "start + 4 + unat v"] cr_stepped_fail [OF assms]
    by (cases d) (auto simp: cr_read_string_def Let_def rd_block_def wr_block_def)
qed

lemma cr_read_string_view_stepped:
  assumes "cr_inv r"
  shows "\<exists>s r'. cr_read_string_view bound r = Some (s, r') \<and> cr_stepped r (s \<noteq> None) r' \<and>
     (\<forall>s'. s = Some s' \<longrightarrow> length s' \<le> bound)"
  using assms
proof (cases rule: cr_locate_cases [where a = 4 and width = 4])
  case (fail e)
  with cr_stepped_fail [OF assms] show ?thesis by (auto simp: cr_read_string_view_def Let_def)
next
  case (found start b)
  obtain v where v: "cr_load_integral start 4 r = Some v"
    using found by (auto simp: cr_load_integral_def load_word_block)
  show ?thesis
    using found v cr_stepped_advance [OF assms, of b "start + 4 + unat v"] cr_stepped_fail [OF assms]
    by (auto simp: cr_read_string_view_def Let_def rd_block_def)
qed

lemma read_value_stepped:
  assumes "cr_inv r"
  shows "\<exists>v r'. read_value t r = Some (v, r') \<and> cr_stepped r (v \<noteq> None) r'"
proof (cases t)
  case (TBytes n)
  then show ?thesis using cr_read_bytes_stepped [OF assms, of "Span (replicate n 0)"]
    by auto
next
  case (TString n)
  then show ?thesis using cr_read_string_stepped [OF assms, of "Span (replicate (Suc n) 0)" n]
    by (auto simp del: replicate.simps)
next
  case (TStringView n)
  then show ?thesis using cr_read_string_view_stepped [OF assms, of n]
    by auto
qed (use cr_read_word_stepped [OF assms] cr_read_bool_stepped [OF assms] in auto)

section \<open>Safety of the writer\<close>

lemma cw_stepped_fail: "cw_inv w \<Longrightarrow> e \<noteq> cdr_none \<Longrightarrow> cw_stepped w False (cw_fail e w)"
  by (auto simp: cw_stepped_def cw_fail_def cw_inv_def)

lemma cw_reserve_cases:
  assumes "cw_inv w"
  obtains (fail) e where "cw_reserve a width w = Some (None, cw_fail e w)" "e \<noteq> cdr_none"
  | (room) start b b' where "cw_reserve a width w = Some (Some start, w\<lparr>cw_buffer := Span b'\<rparr>)"
      "cw_buffer w = Span b" "length b' = length b" "take (cw_offset w) b' = take (cw_offset w) b"
      "cw_offset w \<le> start" "start + width \<le> length b" "cw_error w = cdr_none" "cw_origin w \<le> start"
proof (cases "cw_error w = cdr_none \<and> cw_initialized w")
  case False
  have "\<exists>e. cw_reserve a width w = Some (None, cw_fail e w) \<and> e \<noteq> cdr_none"
  proof (cases "cw_error w = cdr_none")
    case True
    with False have "cw_reserve a width w = Some (None, cw_fail cdr_not_initialized w)"
      by (simp add: cw_reserve_def)
    then show ?thesis by blast
  next
    case False
    then have "cw_reserve a width w = Some (None, cw_fail (cw_error w) w)"
      by (simp add: cw_reserve_def cw_fail_def)
    with False show ?thesis by blast
  qed
  with fail show thesis by blast
next
  case True
  with assms obtain b where b: "cw_buffer w = Span b" "cw_offset w \<le> length b" "cw_origin w \<le> cw_offset w"
    by (auto simp: cw_inv_def)
  show thesis
  proof (cases "aligned_position (cw_offset w) (cw_origin w) a")
    case None
    with True show thesis by (intro fail [of cdr_overflow]) (simp_all add: cw_reserve_def)
  next
    case (Some start)
    with aligned_position_ge have ge: "cw_offset w \<le> start" by blast
    let ?p = "start - cw_offset w" and ?pre = "take (cw_offset w) b" and ?rest = "drop (cw_offset w) b"
    have zero: "for_loop (cw_offset w) ?p (\<lambda>i b. wr b i 0) b =
        (if ?p \<le> length b - cw_offset w then Some (?pre @ replicate ?p 0 @ drop ?p ?rest) else None)"
      using for_loop_zero [of ?pre ?p ?rest] b by (simp add: min_absorb2)
    show thesis
    proof (cases "length b < start \<or> length b - start < width")
      case True
      then show thesis using Some \<open>cw_error w = cdr_none \<and> cw_initialized w\<close> b
        by (intro fail [of cdr_overflow]) (auto simp: cw_reserve_def)
    next
      case False
      then show thesis using Some \<open>cw_error w = cdr_none \<and> cw_initialized w\<close> b ge zero
        by (intro room [of start "?pre @ replicate ?p 0 @ drop ?p ?rest" b]) (auto simp: cw_reserve_def)
    qed
  qed
qed

lemma cw_stepped_write:
  assumes "cw_inv w" "cw_buffer w = Span b" "length b' = length b" "take (cw_offset w) b' = take (cw_offset w) b"
    "cw_offset w \<le> start" "start + length xs \<le> length b" "cw_error w = cdr_none" "cw_origin w \<le> start"
  shows "\<exists>b''. wr_block b' start xs = Some b'' \<and>
    cw_stepped w True (w\<lparr>cw_buffer := Span b'', cw_offset := start + length xs\<rparr>)"
  using assms by (auto simp: wr_block_def cw_stepped_def cw_inv_def min_absorb2)

lemma cw_safe_Some [simp]: "cw_safe w (Some (ok, w')) = cw_stepped w ok w'"
  by (simp add: cw_safe_def)

lemma string_block:
  "off = start + length xs \<Longrightarrow> off' = off + length s \<Longrightarrow>
   Option.bind (wr_block b start xs) (\<lambda>b.
     Option.bind (if s \<noteq> [] then wr_block b off s else Some b) (\<lambda>b.
       Option.bind (wr_block b off' [v]) k)) =
   Option.bind (wr_block b start (xs @ s @ [v])) k"
  by (cases "s = []") (simp_all add: mem_simps)

lemma cw_write_integral_stepped:
  assumes "cw_inv w" "0 < width"
  shows "cw_safe w (cw_write_integral v width a w)"
  using assms(1)
proof (cases rule: cw_reserve_cases [where a = a and width = width])
  case (fail e)
  with cw_stepped_fail [OF assms(1), of e] show ?thesis by (simp add: cw_write_integral_def)
next
  case (room start b b')
  let ?xs = "word_bytes (cw_byte_order w) width v"
  from room cw_stepped_write [OF assms(1), of b b' start ?xs] obtain b'' where
    "wr_block b' start ?xs = Some b''"
    "cw_stepped w True (w\<lparr>cw_buffer := Span b'', cw_offset := start + length ?xs\<rparr>)" by auto
  with room assms(2) show ?thesis
    by (simp add: cw_write_integral_def cw_store_integral_def store_word_block)
qed

lemma cw_write_bytes_stepped:
  assumes "cw_inv w"
  shows "cw_safe w (cw_write_bytes d w)"
proof (cases "null_span d \<and> span_size d \<noteq> 0")
  case True
  then show ?thesis using cw_stepped_fail [OF assms, of cdr_invalid_argument]
    by (simp add: cw_write_bytes_def)
next
  case False
  note d = this
  from assms show ?thesis
  proof (cases rule: cw_reserve_cases [where a = 1 and width = "span_size d"])
    case (fail e)
    with d cw_stepped_fail [OF assms, of e] show ?thesis
      by (auto simp: cw_write_bytes_def simp del: One_nat_def)
  next
    case (room start b b')
    from d have len: "length (span_bytes d) = span_size d" by (cases d) simp_all
    with room cw_stepped_write [OF assms, of b b' start "span_bytes d"] obtain b'' where
      "wr_block b' start (span_bytes d) = Some b''"
      "cw_stepped w True (w\<lparr>cw_buffer := Span b'', cw_offset := start + span_size d\<rparr>)" by auto
    with room d show ?thesis
      by (cases d) (auto simp: cw_write_bytes_def simp del: One_nat_def)
  qed
qed

lemma cw_write_string_stepped:
  assumes "cw_inv w"
  shows "cw_safe w (cw_write_string d bound w)"
proof (cases "(null_span d \<and> span_size d \<noteq> 0) \<or> span_size d > bound \<or> span_size d \<ge> 2 ^ 32 - 1")
  case True
  then show ?thesis
    using cw_stepped_fail [OF assms, of cdr_invalid_argument] cw_stepped_fail [OF assms, of cdr_bound_exceeded]
    by (auto simp: cw_write_string_def Let_def)
next
  case False
  note d = this
  then have max: "\<not> Suc (span_size d) > SIZE_MAX - 4" by (simp add: SIZE_MAX_def)
  from assms show ?thesis
  proof (cases rule: cw_reserve_cases [where a = 4 and width = "4 + Suc (span_size d)"])
    case (fail e)
    with d max cw_stepped_fail [OF assms, of e] show ?thesis
      by (auto simp: cw_write_string_def Let_def)
  next
    case (room start b b')
    let ?n = "ucast (of_nat (Suc (span_size d)) :: u32) :: u64"
    let ?xs = "word_bytes (cw_byte_order w) 4 ?n @ span_bytes d @ [0]"
    from d have len: "length (span_bytes d) = span_size d" by (cases d) simp_all
    with room cw_stepped_write [OF assms, of b b' start ?xs] obtain b'' where
      "wr_block b' start ?xs = Some b''"
      "cw_stepped w True (w\<lparr>cw_buffer := Span b'', cw_offset := start + (4 + Suc (span_size d))\<rparr>)"
      by (auto simp del: of_nat_Suc)
    moreover obtain s where "d = Span s \<or> d = Null 0 \<and> s = []" using d by (cases d) auto
    ultimately show ?thesis using room d max len
      by (auto simp: cw_write_string_def Let_def cw_store_integral_def store_word_block wr_eq_block
          string_block wr_block_fuse_bind ac_simps cong: if_cong simp del: of_nat_Suc)
  qed
qed

lemma write_value_stepped:
  assumes "cw_inv w"
  shows "cw_safe w (write_value v w)"
  by (cases v) (simp_all add: cw_write_bool_def cw_write_uint8_def cw_write_uint16_def cw_write_uint32_def
    cw_write_uint64_def assms cw_write_integral_stepped cw_write_bytes_stepped cw_write_string_stepped)

lemma cdr_writer_new_inv [simp]: "cw_inv (cdr_writer_new sp)"
  by (simp add: cw_inv_def cdr_writer_new_def)

lemma cdr_reader_new_inv [simp]: "cr_inv (cdr_reader_new sp)"
  by (simp add: cr_inv_def cdr_reader_new_def)

lemma cr_begin_inv:
  "\<exists>r'. cr_begin r = Some (cr_error r' = cdr_none, r') \<and> cr_inv r' \<and> cr_buffer r' = cr_buffer r"
proof (cases "cr_buffer r")
  case (Null n)
  then show ?thesis by (simp add: cr_begin_def Let_def cr_inv_def cr_fail_def encapsulation_size_def)
next
  case (Span b)
  show ?thesis
  proof (cases "length b < 4")
    case False
    then have "0 < length b" "Suc 0 < length b" by auto
    with Span False show ?thesis
      by (simp add: cr_begin_def Let_def cr_inv_def cr_fail_def encapsulation_size_def)
  qed (use Span in \<open>simp add: cr_begin_def Let_def cr_inv_def cr_fail_def encapsulation_size_def\<close>)
qed

lemma cw_begin_inv:
  "\<exists>w'. cw_begin order w = Some (cw_error w' = cdr_none, w') \<and> cw_inv w' \<and>
     span_size (cw_buffer w') = span_size (cw_buffer w)"
proof (cases "cw_buffer w")
  case (Null n)
  then show ?thesis by (simp add: cw_begin_def Let_def cw_inv_def cw_fail_def encapsulation_size_def)
next
  case (Span b)
  show ?thesis
  proof (cases "length b < 4")
    case False
    then have "0 < length b" "Suc 0 < length b" "2 < length b" "3 < length b" by auto
    with Span False show ?thesis
      by (simp add: cw_begin_def Let_def cw_inv_def cw_fail_def encapsulation_size_def wr_def)
  qed (use Span in \<open>simp add: cw_begin_def Let_def cw_inv_def cw_fail_def encapsulation_size_def\<close>)
qed

lemma read_values_total:
  assumes "cr_inv r" "cr_error r = cdr_none"
  shows "\<exists>vs r'. read_values ts r = Some (vs, r') \<and> cr_inv r' \<and> cr_buffer r' = cr_buffer r \<and>
    (vs = None \<longleftrightarrow> cr_error r' \<noteq> cdr_none)"
  using assms
proof (induction ts arbitrary: r)
  case Nil
  then show ?case by simp
next
  case (Cons t ts)
  from read_value_stepped [OF Cons.prems(1), of t] obtain v r' where
    v: "read_value t r = Some (v, r')" "cr_stepped r (v \<noteq> None) r'" by blast
  show ?case
  proof (cases v)
    case None
    with v show ?thesis by (auto simp: cr_stepped_def)
  next
    case (Some x)
    with v have "cr_inv r'" "cr_error r' = cdr_none" "cr_buffer r' = cr_buffer r"
      by (simp_all add: cr_stepped_def)
    with Cons.IH [of r'] Some v show ?thesis by auto
  qed
qed

lemma write_values_total:
  assumes "cw_inv w" "cw_error w = cdr_none"
  shows "\<exists>w'. write_values vs w = Some (cw_error w' = cdr_none, w') \<and> cw_inv w' \<and>
    span_size (cw_buffer w') = span_size (cw_buffer w)"
  using assms
proof (induction vs arbitrary: w)
  case Nil
  then show ?case by simp
next
  case (Cons v vs)
  from write_value_stepped [OF Cons.prems(1), of v] obtain ok w' where
    v: "write_value v w = Some (ok, w')" "cw_stepped w ok w'"
    by (auto simp: cw_safe_def split: option.splits)
  then show ?case
    using Cons.IH [of w'] by (cases ok) (auto simp: cw_stepped_def)
qed

section \<open>Properties\<close>

text \<open>C19: A writer over a buffer that is large enough produces exactly the
  encapsulation header followed by the reference encoding of the values (alignment padding
  relative to the end of the header, zero padding bytes, the declared byte order, strings with
  their NUL and their length word) and leaves the rest of the buffer alone; when the encoding
  does not fit, some write returns false and the writer's sticky error is overflow.
\<close>

theorem cdr_write_encodes:
  fixes order :: byte_order
  assumes "order = big_endian \<or> order = little_endian" "list_all cdr_value_ok vs" "length buf \<le> SIZE_MAX"
  defines "e \<equiv> cdr_header order @ cdr_encode_all order 0 vs"
  shows "if length e \<le> length buf
    then cdr_write order vs (cdr_writer_new (Span buf)) =
      Some (True, cw_at order e (drop (length e) buf))
    else \<exists>w. cdr_write order vs (cdr_writer_new (Span buf)) = Some (False, w) \<and> cw_error w = cdr_overflow"
proof (cases "4 \<le> length buf")
  case True
  then show ?thesis
    using write_values_at [of "cdr_header order" "drop 4 buf" vs "cdr_encode_all order 0 vs" order] assms(1-3)
    by (auto simp: e_def cdr_write_def cw_begin_new ac_simps split: if_splits)
next
  case False
  with assms(1) show ?thesis
    by (auto simp: e_def cdr_write_def cw_begin_def cdr_writer_new_def encapsulation_size_def cw_fail_def)
qed

theorem cdr_write_encodes_witness:
  "cdr_write big_endian [VBool True, VU32 7, VString [65, 66] 8] (cdr_writer_new (Span (replicate 20 0xEE))) =
     Some (True, cw_at big_endian [0,0,0,0, 1, 0,0,0, 0,0,0,7, 0,0,0,3, 65,66,0] [0xEE])"
proof -
  have e: "cdr_header big_endian @ cdr_encode_all big_endian 0 [VBool True, VU32 7, VString [65, 66] 8] =
      [0,0,0,0, 1, 0,0,0, 0,0,0,7, 0,0,0,3, 65,66,0]" by code_simp
  show ?thesis
    using cdr_write_encodes [of big_endian "[VBool True, VU32 7, VString [65, 66] 8]" "replicate 20 0xEE"]
    unfolding e by (simp add: SIZE_MAX_def)
qed

text \<open>C18: Whatever values are written, in either byte order, a reader of the written
  bytes that reads the same types gets the same values and ends at the same offset.
\<close>

theorem cdr_roundtrip:
  fixes order :: byte_order
  assumes "order = big_endian \<or> order = little_endian" "list_all cdr_value_ok vs" "list_all2 cdr_typed ts vs"
    and "length (cdr_header order @ cdr_encode_all order 0 vs) \<le> length buf" "length buf \<le> SIZE_MAX"
  shows "\<exists>w r. cdr_write order vs (cdr_writer_new (Span buf)) = Some (True, w) \<and>
    cdr_read ts (cdr_reader_new (Span (take (cw_offset w) (span_bytes (cw_buffer w))))) = Some (Some vs, r) \<and>
    cr_offset r = cw_offset w \<and> cr_error r = cdr_none"
proof -
  let ?e = "cdr_encode_all order 0 vs"
  let ?bs = "cdr_header order @ ?e"
  have "cdr_write order vs (cdr_writer_new (Span buf)) = Some (True, cw_at order ?bs (drop (length ?bs) buf))"
    using cw_begin_new [OF assms(1)] assms(2,4,5)
      write_values_at [of "cdr_header order" "drop 4 buf" vs ?e order]
    by (auto simp: cdr_write_def ac_simps split: if_splits)
  moreover have "read_values ts (cr_at order ?bs (length (cdr_header order))) =
      Some (Some vs, cr_at order ?bs (length (cdr_header order) + length ?e))"
    by (rule read_values_at [where post = "[]"]) (use assms in simp_all)
  then have "cdr_read ts (cdr_reader_new (Span ?bs)) = Some (Some vs, cr_at order ?bs (length ?bs))"
    by (simp add: cdr_read_def cr_begin_new [OF assms(1)])
  ultimately show ?thesis by (simp add: cw_at_def)
qed

theorem cdr_roundtrip_witness:
  "\<exists>w r. cdr_write little_endian [VU16 258, VString [72, 105] 4, VU64 1] (cdr_writer_new (Span (replicate 40 0))) = Some (True, w) \<and>
    cdr_read [TU16, TStringView 4, TU64] (cdr_reader_new (Span (take (cw_offset w) (span_bytes (cw_buffer w))))) =
      Some (Some [VU16 258, VString [72, 105] 4, VU64 1], r) \<and>
    cr_offset r = cw_offset w \<and> cr_error r = cdr_none"
  by (rule cdr_roundtrip) (simp_all add: cdr_encode_def cdr_pad_def SIZE_MAX_def)

text \<open>C20: Reading any sequence of types from any buffer, including null pointers
  and arbitrary bytes, touches no byte outside the buffer or the destination, returns, and
  reports failure exactly by its sticky error.
\<close>

theorem cdr_read_total:
  "\<exists>vs r. cdr_read ts (cdr_reader_new sp) = Some (vs, r) \<and> cr_buffer r = sp \<and>
     (vs = None \<longleftrightarrow> cr_error r \<noteq> cdr_none)"
proof -
  from cr_begin_inv [of "cdr_reader_new sp"] obtain r where
    "cr_begin (cdr_reader_new sp) = Some (cr_error r = cdr_none, r)" "cr_inv r" "cr_buffer r = sp"
    by (auto simp: cdr_reader_new_def)
  then show ?thesis using read_values_total [of r ts]
    by (cases "cr_error r = cdr_none") (auto simp: cdr_read_def)
qed

text \<open>C38: Writing any values to any buffer, including a null pointer and one that is
  too small, writes no byte outside the buffer, returns, and returns false exactly when the
  writer's sticky error is set.
\<close>

theorem cdr_write_total:
  "\<exists>w. cdr_write order vs (cdr_writer_new sp) = Some (cw_error w = cdr_none, w) \<and>
     span_size (cw_buffer w) = span_size sp"
proof -
  from cw_begin_inv [of order "cdr_writer_new sp"] obtain w where
    "cw_begin order (cdr_writer_new sp) = Some (cw_error w = cdr_none, w)" "cw_inv w"
      "span_size (cw_buffer w) = span_size sp"
    by (auto simp: cdr_writer_new_def)
  then show ?thesis using write_values_total [of w vs]
    by (cases "cw_error w = cdr_none") (auto simp: cdr_write_def)
qed

text \<open>C39: For an alignment that is a power of two, the next field goes to the first position at or
  after the cursor whose distance from the alignment origin is a multiple of the alignment, and
  there is none exactly when that position is not representable.\<close>

theorem aligned_position_least:
  assumes "origin \<le> offset" "alignment = 2 ^ k" "k < 64"
  shows "aligned_position offset origin alignment = Some p \<longleftrightarrow>
    p \<le> SIZE_MAX \<and> offset \<le> p \<and> alignment dvd p - origin \<and>
    (\<forall>q. offset \<le> q \<and> alignment dvd q - origin \<longrightarrow> p \<le> q)"
proof -
  let ?n = "offset + cdr_pad alignment (offset - origin)"
  have pos: "0 < alignment" and max: "alignment \<le> SIZE_MAX"
    using assms power_strict_increasing [of k 64 "2 :: nat"] by (auto simp: SIZE_MAX_def)
  have pow: "is_power_of_two alignment" using assms by (auto simp: power_of_two_iff)
  have n: "offset \<le> ?n" "alignment dvd ?n - origin"
    using cdr_pad_aligned [OF pos, of "offset - origin"] assms(1) by (auto simp: mod_0_imp_dvd)
  have least: "?n \<le> q" if q: "offset \<le> q" "alignment dvd q - origin" for q
  proof (rule ccontr)
    assume "\<not> ?n \<le> q"
    then have less: "q - origin < ?n - origin" using assms(1) q by linarith
    from n(2) q(2) have "alignment dvd (?n - origin) - (q - origin)" by (rule dvd_diff_nat)
    with less have "alignment \<le> (?n - origin) - (q - origin)" by (simp add: dvd_imp_le)
    with q assms(1) cdr_pad_less [OF pos, of "offset - origin"] show False by linarith
  qed
  have "aligned_position offset origin alignment = (if ?n \<le> SIZE_MAX then Some ?n else None)"
    using assms(1) pow max by (rule aligned_position_pad)
  with n least show ?thesis by (auto intro: le_antisym) (meson le_trans)
qed

theorem aligned_position_least_witness:
  "aligned_position 9 4 8 = Some 12 \<and> (8 :: nat) dvd 12 - 4 \<and> \<not> (8 :: nat) dvd 11 - 4"
  using aligned_position_least [of 4 9 8 3 12] by (auto simp: SIZE_MAX_def aligned_position_def Let_def)

end
