(* ===== verification/Reliability_Messages.thy ===== *)
theory Reliability_Messages
  imports Data_Message
begin

text \<open>
  HEARTBEAT and ACKNACK messages, \<open>src/include/openrtdds/rtps/reliability_messages.hpp\<close> and
  \<open>src/src/rtps/reliability_messages.cpp\<close>: the sequence-number set with its bitmap, the message
  builder and the two parsers. The signed counts are kept as their bit patterns.
\<close>

unbundle bit_operations_syntax

section \<open>Model\<close>

subsection \<open>Sequence-number sets\<close>

datatype reliability_message_error =
  rel_none | rel_invalid_argument | rel_buffer_overflow | rel_truncated | rel_invalid_protocol
  | rel_unsupported_version | rel_unsupported_submessage | rel_unsupported_feature
  | rel_invalid_submessage | rel_invalid_sequence_number | rel_bitmap_bound_exceeded

definition heartbeat_content_size :: nat where "heartbeat_content_size = 28"

definition heartbeat_message_size :: nat where
  "heartbeat_message_size = rtps_header_size + submessage_header_size + heartbeat_content_size"

definition acknack_fixed_content_size :: nat where "acknack_fixed_content_size = 24"

definition supported_version :: "protocol_version \<Rightarrow> bool" where
  "supported_version version \<longleftrightarrow> pv_major version = 2 \<and> pv_minor version \<noteq> 0 \<and> pv_minor version \<le> 5"

definition valid_sequence_number :: "u64 \<Rightarrow> bool" where
  "valid_sequence_number n \<longleftrightarrow> n \<noteq> 0 \<and> n \<le> INT64_MAX"

definition maximum_bits :: u32 where "maximum_bits = 256"

definition maximum_words :: nat where "maximum_words = 8"

record sequence_number_set =
  sns_bitmap_base :: u64
  sns_num_bits :: u32
  sns_bitmap :: "u32 list"

definition sns_empty :: sequence_number_set where
  "sns_empty = \<lparr>sns_bitmap_base = 1, sns_num_bits = 0, sns_bitmap = replicate maximum_words 0\<rparr>"

definition sns_reset :: "u64 \<Rightarrow> u32 \<Rightarrow> sequence_number_set \<Rightarrow> bool \<times> sequence_number_set" where
  "sns_reset base num_bits s =
     (if \<not> valid_sequence_number base \<or> num_bits > maximum_bits then (False, s)
      else if num_bits \<noteq> 0 \<and> base > INT64_MAX - ucast (num_bits - 1) then (False, s)
      else (True, \<lparr>sns_bitmap_base = base, sns_num_bits = num_bits, sns_bitmap = replicate maximum_words 0\<rparr>))"

definition sns_set :: "u32 \<Rightarrow> sequence_number_set \<Rightarrow> (bool \<times> sequence_number_set) option" where
  "sns_set offset s =
     (if offset \<ge> sns_num_bits s then Some (False, s)
      else
        let word_index = unat (offset div 32); bit_index = unat (offset mod 32)
        in do {
          w \<leftarrow> rd (sns_bitmap s) word_index;
          b \<leftarrow> wr (sns_bitmap s) word_index (w OR push_bit (31 - bit_index) 1);
          Some (True, s\<lparr>sns_bitmap := b\<rparr>) })"

definition sns_test :: "u32 \<Rightarrow> sequence_number_set \<Rightarrow> bool option" where
  "sns_test offset s =
     (if offset \<ge> sns_num_bits s then Some False
      else
        let word_index = unat (offset div 32); bit_index = unat (offset mod 32)
        in do {
          w \<leftarrow> rd (sns_bitmap s) word_index;
          Some (w AND push_bit (31 - bit_index) 1 \<noteq> 0) })"

definition sns_word_count :: "sequence_number_set \<Rightarrow> nat" where
  "sns_word_count s = unat ((sns_num_bits s + 31) div 32)"

definition sns_word :: "nat \<Rightarrow> sequence_number_set \<Rightarrow> u32 option" where
  "sns_word i s = (if i < sns_word_count s then rd (sns_bitmap s) i else Some 0)"

subsection \<open>Messages\<close>

record reliability_message_header =
  rh_version :: protocol_version
  rh_vendor_id :: vendor_id
  rh_guid_prefix :: guid_prefix
  rh_byte_order :: byte_order

text \<open>\<open>HeartbeatConfig\<close> and \<open>HeartbeatView\<close> have the same members, as do the ACKNACK structs.\<close>

record heartbeat =
  hb_header :: reliability_message_header
  hb_reader_id :: entity_id
  hb_writer_id :: entity_id
  hb_first_sequence_number :: u64
  hb_last_sequence_number :: u64
  hb_count :: u32
  hb_final_flag :: bool
  hb_liveliness_flag :: bool

record acknack =
  an_header :: reliability_message_header
  an_reader_id :: entity_id
  an_writer_id :: entity_id
  an_reader_state :: sequence_number_set
  an_count :: u32
  an_final_flag :: bool

record reliability_message_builder =
  rb_buffer :: span
  rb_size :: nat
  rb_error :: reliability_message_error

definition reliability_builder_new :: "span \<Rightarrow> reliability_message_builder" where
  "reliability_builder_new buffer =
     \<lparr>rb_buffer = buffer, rb_size = 0,
      rb_error = (if null_span buffer \<and> span_size buffer \<noteq> 0 then rel_invalid_argument else rel_none)\<rparr>"

definition rb_fail ::
  "reliability_message_error \<Rightarrow> reliability_message_builder \<Rightarrow> bool \<times> reliability_message_builder" where
  "rb_fail e r = (False, (if rb_error r = rel_none then r\<lparr>rb_error := e\<rparr> else r)\<lparr>rb_size := 0\<rparr>)"

definition write_rtps_header :: "reliability_message_header \<Rightarrow> byte list \<Rightarrow> byte list option" where
  "write_rtps_header h b = do {
     b \<leftarrow> wr b 0 0x52;
     b \<leftarrow> wr b 1 0x54;
     b \<leftarrow> wr b 2 0x50;
     b \<leftarrow> wr b 3 0x53;
     b \<leftarrow> wr b 4 (pv_major (rh_version h));
     b \<leftarrow> wr b 5 (pv_minor (rh_version h));
     b \<leftarrow> wr_block b 6 (rh_vendor_id h);
     wr_block b 8 (rh_guid_prefix h) }"

definition rb_begin ::
  "reliability_message_header \<Rightarrow> nat \<Rightarrow> reliability_message_builder
   \<Rightarrow> (bool \<times> reliability_message_builder) option" where
  "rb_begin h message_size r =
     (let capacity = span_size (rb_buffer r)
      in if null_span (rb_buffer r) \<and> capacity \<noteq> 0 then Some (rb_fail rel_invalid_argument r)
         else if \<not> supported_version (rh_version h) then Some (rb_fail rel_unsupported_version r)
         else if \<not> supported_byte_order (rh_byte_order h) then Some (rb_fail rel_invalid_argument r)
         else if message_size > capacity then Some (rb_fail rel_buffer_overflow r)
         else do {
           b \<leftarrow> deref (rb_buffer r);
           b \<leftarrow> write_rtps_header h b;
           Some (True, r\<lparr>rb_buffer := Span b\<rparr>) })"

text \<open>\<open>buffer[i] |= flag\<close> under a condition.\<close>

definition or_flag :: "nat \<Rightarrow> bool \<Rightarrow> byte \<Rightarrow> byte list \<Rightarrow> byte list option" where
  "or_flag i c flag b = (if c then do { x \<leftarrow> rd b i; wr b i (x OR flag) } else Some b)"

definition heartbeat_write :: "heartbeat \<Rightarrow> byte list \<Rightarrow> byte list option" where
  "heartbeat_write c b =
     (let order = rh_byte_order (hb_header c)
      in do {
        b \<leftarrow> wr b 20 submessage_id_heartbeat;
        b \<leftarrow> wr b 21 0;
        b \<leftarrow> or_flag 21 (order = little_endian) 0x01 b;
        b \<leftarrow> or_flag 21 (hb_final_flag c) 0x02 b;
        b \<leftarrow> or_flag 21 (hb_liveliness_flag c) 0x04 b;
        b \<leftarrow> write_u16 order 22 (of_nat heartbeat_content_size) b;
        b \<leftarrow> wr_block b 24 (hb_reader_id c);
        b \<leftarrow> wr_block b 28 (hb_writer_id c);
        b \<leftarrow> write_sequence_number order 32 (hb_first_sequence_number c) b;
        b \<leftarrow> write_sequence_number order 40 (hb_last_sequence_number c) b;
        write_u32 order 48 (hb_count c) b })"

definition build_heartbeat ::
  "heartbeat \<Rightarrow> reliability_message_builder \<Rightarrow> (bool \<times> reliability_message_builder) option" where
  "build_heartbeat c r =
     (let r = r\<lparr>rb_size := 0, rb_error := rel_none\<rparr>
      in if \<not> valid_sequence_number (hb_first_sequence_number c) \<or>
            hb_last_sequence_number c > INT64_MAX \<or>
            hb_last_sequence_number c < hb_first_sequence_number c - 1
         then Some (rb_fail rel_invalid_sequence_number r)
         else do {
           (ok, r) \<leftarrow> rb_begin (hb_header c) heartbeat_message_size r;
           if \<not> ok then Some (False, r)
           else do {
             b \<leftarrow> deref (rb_buffer r);
             b \<leftarrow> heartbeat_write c b;
             Some (True, r\<lparr>rb_buffer := Span b, rb_size := heartbeat_message_size\<rparr>) } })"

definition acknack_write :: "acknack \<Rightarrow> nat \<Rightarrow> byte list \<Rightarrow> byte list option" where
  "acknack_write c content_size b =
     (let order = rh_byte_order (an_header c); s = an_reader_state c
      in do {
        b \<leftarrow> wr b 20 submessage_id_acknack;
        b \<leftarrow> wr b 21 0;
        b \<leftarrow> or_flag 21 (order = little_endian) 0x01 b;
        b \<leftarrow> or_flag 21 (an_final_flag c) 0x02 b;
        b \<leftarrow> write_u16 order 22 (of_nat content_size) b;
        b \<leftarrow> wr_block b 24 (an_reader_id c);
        b \<leftarrow> wr_block b 28 (an_writer_id c);
        b \<leftarrow> write_sequence_number order 32 (sns_bitmap_base s) b;
        b \<leftarrow> write_u32 order 40 (sns_num_bits s) b;
        b \<leftarrow> for_loop 0 (sns_word_count s)
              (\<lambda>i b. do { w \<leftarrow> sns_word i s; write_u32 order (44 + 4 * i) w b }) b;
        write_u32 order (44 + 4 * sns_word_count s) (an_count c) b })"

definition build_acknack ::
  "acknack \<Rightarrow> reliability_message_builder \<Rightarrow> (bool \<times> reliability_message_builder) option" where
  "build_acknack c r =
     (let r = r\<lparr>rb_size := 0, rb_error := rel_none\<rparr>; s = an_reader_state c
      in if \<not> valid_sequence_number (sns_bitmap_base s)
         then Some (rb_fail rel_invalid_sequence_number r)
         else if sns_num_bits s > maximum_bits then Some (rb_fail rel_bitmap_bound_exceeded r)
         else
           let content_size = acknack_fixed_content_size + sns_word_count s * 4;
               message_size = rtps_header_size + submessage_header_size + content_size
           in do {
             (ok, r) \<leftarrow> rb_begin (an_header c) message_size r;
             if \<not> ok then Some (False, r)
             else do {
               b \<leftarrow> deref (rb_buffer r);
               b \<leftarrow> acknack_write c content_size b;
               Some (True, r\<lparr>rb_buffer := Span b, rb_size := message_size\<rparr>) } })"

subsection \<open>Parsers\<close>

definition read_sequence_number :: "byte_order \<Rightarrow> bool \<Rightarrow> nat \<Rightarrow> byte list \<Rightarrow> u64 option option" where
  "read_sequence_number order allow_zero off source = do {
     high_bits \<leftarrow> read_u32 order off source;
     if sint high_bits < 0 then Some None
     else do {
       low \<leftarrow> read_u32 order (off + 4) source;
       let candidate = push_bit 32 (ucast high_bits :: u64) OR ucast low;
       if (\<not> allow_zero \<and> candidate = 0) \<or> candidate > INT64_MAX then Some None
       else Some (Some candidate) } }"

fun rel_route_error :: "message_route_error \<Rightarrow> reliability_message_error" where
  "rel_route_error route_invalid_argument = rel_invalid_argument"
| "rel_route_error route_truncated = rel_truncated"
| "rel_route_error route_invalid_protocol = rel_invalid_protocol"
| "rel_route_error route_unsupported_version = rel_unsupported_version"
| "rel_route_error route_submessage_not_found = rel_unsupported_submessage"
| "rel_route_error route_malformed_submessage = rel_invalid_submessage"
| "rel_route_error route_invalid_info_submessage = rel_invalid_submessage"

record parsed_prefix =
  pp_header :: reliability_message_header
  pp_byte_order :: byte_order
  pp_flags :: byte
  pp_content :: "byte list"

definition parse_prefix :: "span \<Rightarrow> byte \<Rightarrow> (reliability_message_error + parsed_prefix) option" where
  "parse_prefix message expected_submessage_id =
     (if null_span message \<and> span_size message \<noteq> 0 then Some (Inl rel_invalid_argument)
      else do {
        routed \<leftarrow> find_submessage message expected_submessage_id 0;
        case routed of
          Inl e \<Rightarrow> Some (Inl (rel_route_error e))
        | Inr v \<Rightarrow>
            Some (Inr
              \<lparr>pp_header =
                 \<lparr>rh_version = rv_version v, rh_vendor_id = rv_vendor_id v,
                  rh_guid_prefix = rv_source_guid_prefix v, rh_byte_order = rv_byte_order v\<rparr>,
               pp_byte_order = rv_byte_order v, pp_flags = rv_flags v, pp_content = rv_content v\<rparr>) })"

definition parse_heartbeat_content ::
  "parsed_prefix \<Rightarrow> (reliability_message_error + heartbeat) option" where
  "parse_heartbeat_content p =
     (let flags = pp_flags p; order = pp_byte_order p; content = pp_content p
      in if flags AND 0x08 \<noteq> 0 then Some (Inl rel_unsupported_feature)
         else if flags AND NOT (0x01 OR 0x02 OR 0x04) \<noteq> 0 then Some (Inl rel_unsupported_feature)
         else if length content \<noteq> heartbeat_content_size then Some (Inl rel_invalid_submessage)
         else do {
           reader_id \<leftarrow> rd_block content 0 4;
           writer_id \<leftarrow> rd_block content 4 4;
           first \<leftarrow> read_sequence_number order False 8 content;
           case first of
             None \<Rightarrow> Some (Inl rel_invalid_sequence_number)
           | Some first \<Rightarrow> do {
               last_sn \<leftarrow> read_sequence_number order True 16 content;
               case last_sn of
                 None \<Rightarrow> Some (Inl rel_invalid_sequence_number)
               | Some last_sn \<Rightarrow>
                   if last_sn < first - 1 then Some (Inl rel_invalid_sequence_number)
                   else do {
                     count \<leftarrow> read_u32 order 24 content;
                     Some (Inr
                       \<lparr>hb_header = pp_header p, hb_reader_id = reader_id, hb_writer_id = writer_id,
                        hb_first_sequence_number = first, hb_last_sequence_number = last_sn,
                        hb_count = count, hb_final_flag = (flags AND 0x02 \<noteq> 0),
                        hb_liveliness_flag = (flags AND 0x04 \<noteq> 0)\<rparr>) } } })"

definition parse_heartbeat_message :: "span \<Rightarrow> (reliability_message_error + heartbeat) option" where
  "parse_heartbeat_message message = do {
     p \<leftarrow> parse_prefix message submessage_id_heartbeat;
     case p of
       Inl e \<Rightarrow> Some (Inl e)
     | Inr p \<Rightarrow> parse_heartbeat_content p }"

text \<open>The nested loops over the bitmap words and their bits.\<close>

definition parse_bitmap_word ::
  "u32 \<Rightarrow> nat \<Rightarrow> u32 \<Rightarrow> sequence_number_set \<Rightarrow> sequence_number_set option" where
  "parse_bitmap_word num_bits word_index word s =
     for_loop 0 32
       (\<lambda>bit_index s.
          let bit_offset = of_nat (word_index * 32) + of_nat bit_index
          in if bit_offset < num_bits \<and> word AND push_bit (31 - bit_index) 1 \<noteq> 0
             then map_option snd (sns_set bit_offset s) else Some s) s"

definition parse_bitmap ::
  "byte_order \<Rightarrow> byte list \<Rightarrow> u32 \<Rightarrow> nat \<Rightarrow> sequence_number_set \<Rightarrow> sequence_number_set option" where
  "parse_bitmap order content num_bits word_count s =
     for_loop 0 word_count
       (\<lambda>word_index s. do {
          word \<leftarrow> read_u32 order (20 + 4 * word_index) content;
          parse_bitmap_word num_bits word_index word s }) s"

definition parse_acknack_content ::
  "parsed_prefix \<Rightarrow> (reliability_message_error + acknack) option" where
  "parse_acknack_content p =
     (let flags = pp_flags p; order = pp_byte_order p; content = pp_content p
      in if flags AND NOT (0x01 OR 0x02) \<noteq> 0 then Some (Inl rel_unsupported_feature)
         else if length content < acknack_fixed_content_size then Some (Inl rel_invalid_submessage)
         else do {
           base \<leftarrow> read_sequence_number order False 8 content;
           case base of
             None \<Rightarrow> Some (Inl rel_invalid_sequence_number)
           | Some bitmap_base \<Rightarrow> do {
               num_bits \<leftarrow> read_u32 order 16 content;
               if num_bits > maximum_bits then Some (Inl rel_bitmap_bound_exceeded)
               else
                 let word_count = unat ((num_bits + 31) div 32)
                 in if length content \<noteq> acknack_fixed_content_size + word_count * 4
                    then Some (Inl rel_invalid_submessage)
                    else do {
                      reader_id \<leftarrow> rd_block content 0 4;
                      writer_id \<leftarrow> rd_block content 4 4;
                      let (ok, state) = sns_reset bitmap_base num_bits sns_empty;
                      if \<not> ok then Some (Inl rel_invalid_sequence_number)
                      else do {
                        state \<leftarrow> parse_bitmap order content num_bits word_count state;
                        count \<leftarrow> read_u32 order (20 + 4 * word_count) content;
                        Some (Inr
                          \<lparr>an_header = pp_header p, an_reader_id = reader_id, an_writer_id = writer_id,
                           an_reader_state = state, an_count = count,
                           an_final_flag = (flags AND 0x02 \<noteq> 0)\<rparr>) } } } })"

definition parse_acknack_message :: "span \<Rightarrow> (reliability_message_error + acknack) option" where
  "parse_acknack_message message = do {
     p \<leftarrow> parse_prefix message submessage_id_acknack;
     case p of
       Inl e \<Rightarrow> Some (Inl e)
     | Inr p \<Rightarrow> parse_acknack_content p }"

definition sns_bit :: "sequence_number_set \<Rightarrow> nat \<Rightarrow> bool" where
  "sns_bit s k = bit (sns_bitmap s ! (k div 32)) (31 - k mod 32)"

definition sns_range_ok :: "u64 \<Rightarrow> u32 \<Rightarrow> bool" where
  "sns_range_ok base num_bits \<longleftrightarrow> valid_sequence_number base \<and> num_bits \<le> maximum_bits \<and>
     (num_bits = 0 \<or> base \<le> INT64_MAX - ucast (num_bits - 1))"

definition sns_wf :: "sequence_number_set \<Rightarrow> bool" where
  "sns_wf s \<longleftrightarrow> length (sns_bitmap s) = maximum_words \<and>
     sns_range_ok (sns_bitmap_base s) (sns_num_bits s) \<and>
     list_all (\<lambda>k. \<not> sns_bit s k) [unat (sns_num_bits s)..<256]"

definition sns_insert :: "nat \<Rightarrow> sequence_number_set \<Rightarrow> sequence_number_set" where
  "sns_insert k s = s\<lparr>sns_bitmap := (sns_bitmap s)[k div 32 := sns_bitmap s ! (k div 32) OR push_bit (31 - k mod 32) 1]\<rparr>"

definition sns_same_range :: "sequence_number_set \<Rightarrow> sequence_number_set \<Rightarrow> bool" where
  "sns_same_range s t \<longleftrightarrow> sns_bitmap_base s = sns_bitmap_base t \<and> sns_num_bits s = sns_num_bits t"

definition content_word :: "byte_order \<Rightarrow> byte list \<Rightarrow> nat \<Rightarrow> u32" where
  "content_word order content i = bytes_word order (take 4 (drop (20 + 4 * i) content))"

definition seq_bytes :: "byte_order \<Rightarrow> u64 \<Rightarrow> byte list" where
  "seq_bytes order v =
     word_bytes order 4 (ucast (drop_bit 32 v) :: u32) @ word_bytes order 4 (ucast (v AND 0xFFFFFFFF) :: u32)"

definition hb_flags :: "heartbeat \<Rightarrow> byte" where
  "hb_flags c =
     (let x = if rh_byte_order (hb_header c) = little_endian then 0 OR 0x01 else 0;
          y = if hb_final_flag c then x OR 0x02 else x
      in if hb_liveliness_flag c then y OR 0x04 else y)"

definition heartbeat_submessage :: "heartbeat \<Rightarrow> rtps_submessage" where
  "heartbeat_submessage c =
     (let order = rh_byte_order (hb_header c)
      in Submessage submessage_id_heartbeat (hb_flags c)
           (hb_reader_id c @ hb_writer_id c @ seq_bytes order (hb_first_sequence_number c) @
            seq_bytes order (hb_last_sequence_number c) @ word_bytes order 4 (hb_count c)))"

definition an_flags :: "acknack \<Rightarrow> byte" where
  "an_flags c =
     (let x = if rh_byte_order (an_header c) = little_endian then 0 OR 0x01 else 0
      in if an_final_flag c then x OR 0x02 else x)"

definition acknack_submessage :: "acknack \<Rightarrow> rtps_submessage" where
  "acknack_submessage c =
     (let order = rh_byte_order (an_header c); s = an_reader_state c
      in Submessage submessage_id_acknack (an_flags c)
           (an_reader_id c @ an_writer_id c @ seq_bytes order (sns_bitmap_base s) @
            word_bytes order 4 (sns_num_bits s) @
            concat (map (\<lambda>i. word_bytes order 4 (sns_bitmap s ! i)) [0..<sns_word_count s]) @
            word_bytes order 4 (an_count c)))"

definition header_bytes :: "reliability_message_header \<Rightarrow> byte list" where
  "header_bytes h = rtps_header (rh_version h) (rh_vendor_id h) (rh_guid_prefix h)"

definition wf_reliability_header :: "reliability_message_header \<Rightarrow> bool" where
  "wf_reliability_header h \<longleftrightarrow> wf_vendor_id (rh_vendor_id h) \<and> wf_guid_prefix (rh_guid_prefix h)"

definition wf_heartbeat :: "heartbeat \<Rightarrow> bool" where
  "wf_heartbeat c \<longleftrightarrow> wf_reliability_header (hb_header c) \<and> wf_entity_id (hb_reader_id c) \<and> wf_entity_id (hb_writer_id c)"

definition wf_acknack :: "acknack \<Rightarrow> bool" where
  "wf_acknack c \<longleftrightarrow> wf_reliability_header (an_header c) \<and> wf_entity_id (an_reader_id c) \<and> wf_entity_id (an_writer_id c) \<and>
     sns_wf (an_reader_state c)"

definition header_ok :: "reliability_message_header \<Rightarrow> bool" where
  "header_ok h \<longleftrightarrow> supported_version (rh_version h) \<and> supported_byte_order (rh_byte_order h)"

definition heartbeat_range_ok :: "heartbeat \<Rightarrow> bool" where
  "heartbeat_range_ok c \<longleftrightarrow> valid_sequence_number (hb_first_sequence_number c) \<and>
     hb_last_sequence_number c \<le> INT64_MAX \<and> hb_first_sequence_number c - 1 \<le> hb_last_sequence_number c"

definition message_bytes :: "reliability_message_header \<Rightarrow> rtps_submessage \<Rightarrow> byte list" where
  "message_bytes h s = header_bytes h @ encode_submessages [s] None"

definition builder_done :: "reliability_message_header \<Rightarrow> byte list \<Rightarrow> reliability_message_builder
   \<Rightarrow> (bool \<times> reliability_message_builder) option \<Rightarrow> bool" where
  "builder_done h m r result \<longleftrightarrow>
     (if header_ok h \<and> length m \<le> span_size (rb_buffer r) \<and> \<not> null_span (rb_buffer r)
      then result = Some (True, \<lparr>rb_buffer = Span (m @ drop (length m) (span_bytes (rb_buffer r))),
        rb_size = length m, rb_error = rel_none\<rparr>)
      else \<exists>e. e \<noteq> rel_none \<and> result = Some (False, r\<lparr>rb_size := 0, rb_error := e\<rparr>))"

definition demo_reliability_header :: reliability_message_header where
  "demo_reliability_header =
     \<lparr>rh_version = \<lparr>pv_major = 2, pv_minor = 5\<rparr>, rh_vendor_id = [1, 2],
      rh_guid_prefix = [1, 2, 3, 4, 5, 6, 7, 8, 9, 10, 11, 12], rh_byte_order = big_endian\<rparr>"

definition demo_heartbeat :: heartbeat where
  "demo_heartbeat =
     \<lparr>hb_header = demo_reliability_header, hb_reader_id = [0, 0, 1, 4], hb_writer_id = [0, 0, 1, 3],
      hb_first_sequence_number = 3, hb_last_sequence_number = 2, hb_count = 0xFFFFFFFF,
      hb_final_flag = True, hb_liveliness_flag = False\<rparr>"

definition demo_acknack :: acknack where
  "demo_acknack =
     \<lparr>an_header = demo_reliability_header, an_reader_id = [0, 0, 1, 4], an_writer_id = [0, 0, 1, 3],
      an_reader_state = \<lparr>sns_bitmap_base = 7, sns_num_bits = 40, sns_bitmap = [1, 0x80000000, 0, 0, 0, 0, 0, 0]\<rparr>,
      an_count = 9, an_final_flag = False\<rparr>"

section \<open>The bitmap as a set of offsets\<close>

lemma sns_wf_bits: "sns_wf s \<Longrightarrow> unat (sns_num_bits s) \<le> k \<Longrightarrow> k < 256 \<Longrightarrow> \<not> sns_bit s k"
  by (auto simp: sns_wf_def list_all_iff)

lemma sns_num_bits_le: "sns_range_ok base n \<Longrightarrow> unat n \<le> 256"
  by (simp add: sns_range_ok_def maximum_bits_def word_le_nat_alt)

lemma unat_word_arith [simp]:
  "unat (n div 32 :: u32) = unat n div 32" "unat (n mod 32 :: u32) = unat n mod 32"
  by (simp_all add: unat_div_distrib unat_mod_distrib)

lemma sns_reset_ok:
  "sns_reset base n s = (if sns_range_ok base n
     then (True, \<lparr>sns_bitmap_base = base, sns_num_bits = n, sns_bitmap = replicate maximum_words 0\<rparr>)
     else (False, s))"
  by (auto simp: sns_reset_def sns_range_ok_def)

lemma sns_bit_zero [simp]: "k < 256 \<Longrightarrow> sns_bitmap s = replicate maximum_words 0 \<Longrightarrow> \<not> sns_bit s k"
  by (simp add: sns_bit_def maximum_words_def)

lemma sns_reset_wf:
  "sns_range_ok base n \<Longrightarrow>
   sns_wf \<lparr>sns_bitmap_base = base, sns_num_bits = n, sns_bitmap = replicate maximum_words 0\<rparr>"
  by (auto simp: sns_wf_def list_all_iff)

lemma sns_index:
  assumes "sns_wf s" "offset < sns_num_bits s"
  shows "unat offset div 32 < length (sns_bitmap s)"
proof -
  have "unat offset < unat (sns_num_bits s)" using assms(2) by (simp add: word_less_nat_alt)
  moreover have "unat (sns_num_bits s) \<le> 256" using assms(1) by (auto simp: sns_wf_def intro: sns_num_bits_le)
  ultimately have "unat offset < 32 * 8" by linarith
  then show ?thesis using assms(1) by (simp add: sns_wf_def maximum_words_def less_mult_imp_div_less mult.commute)
qed

lemma and_exp_eq_0 [simp]: "w AND 2 ^ n = 0 \<longleftrightarrow> \<not> bit (w :: 'a::len word) n"
  by (simp add: bit_iff_and_push_bit_not_eq_0)

lemma sns_test_bit:
  assumes "sns_wf s"
  shows "sns_test offset s = Some (offset < sns_num_bits s \<and> sns_bit s (unat offset))"
  using sns_index [OF assms, of offset]
  by (auto simp: sns_test_def sns_bit_def not_less)

lemma sns_insert_fields [simp]:
  "sns_bitmap_base (sns_insert k s) = sns_bitmap_base s" "sns_num_bits (sns_insert k s) = sns_num_bits s"
  "length (sns_bitmap (sns_insert k s)) = length (sns_bitmap s)"
  by (simp_all add: sns_insert_def)

lemma sns_bit_insert:
  assumes "k div 32 < length (sns_bitmap s)"
  shows "sns_bit (sns_insert k s) j \<longleftrightarrow> j = k \<or> sns_bit s j"
proof (cases "j div 32 = k div 32")
  case True
  have m: "31 - j mod 32 = 31 - k mod 32 \<longleftrightarrow> j mod 32 = k mod 32"
    using mod_less_divisor [of 32 j] mod_less_divisor [of 32 k] by linarith
  have "j = k \<longleftrightarrow> j mod 32 = k mod 32"
    using True by (metis div_mult_mod_eq)
  with True m assms show ?thesis
    by (auto simp: sns_bit_def sns_insert_def bit_or_iff bit_exp_iff)
next
  case False
  then show ?thesis by (auto simp: sns_bit_def sns_insert_def)
qed

lemma sns_set_insert:
  assumes "sns_wf s"
  shows "sns_set offset s =
    (if offset < sns_num_bits s then Some (True, sns_insert (unat offset) s) else Some (False, s))"
  using sns_index [OF assms, of offset]
  by (auto simp: sns_set_def sns_insert_def wr_def not_less Let_def)

lemma sns_insert_wf:
  assumes "sns_wf s" "k < unat (sns_num_bits s)"
  shows "sns_wf (sns_insert k s)"
proof -
  have "unat (sns_num_bits s) < 2 ^ 32" using unsigned_less [of "sns_num_bits s"] by simp
  with assms(2) have k: "unat (of_nat k :: u32) = k" by (simp add: unat_of_nat)
  moreover from k assms(2) have "of_nat k < sns_num_bits s" by (simp add: word_less_nat_alt)
  ultimately have "k div 32 < length (sns_bitmap s)" using sns_index [OF assms(1), of "of_nat k"] by simp
  with assms show ?thesis by (auto simp: sns_wf_def list_all_iff sns_bit_insert)
qed

lemma sns_eqI:
  assumes "sns_wf s" "sns_wf t" "sns_bitmap_base s = sns_bitmap_base t" "sns_num_bits s = sns_num_bits t"
    and "\<And>k. k < unat (sns_num_bits s) \<Longrightarrow> sns_bit s k = sns_bit t k"
  shows "s = t"
proof -
  have len: "length (sns_bitmap s) = 8" "length (sns_bitmap t) = 8"
    using assms(1,2) by (simp_all add: sns_wf_def maximum_words_def)
  have all: "sns_bit s k = sns_bit t k" if "k < 256" for k
    using that assms sns_wf_bits [of s k] sns_wf_bits [of t k] by (cases "k < unat (sns_num_bits s)") auto
  have "sns_bitmap s ! i = sns_bitmap t ! i" if i: "i < 8" for i
  proof (rule bit_word_eqI)
    fix n assume "n < LENGTH(32)"
    then have n: "n \<le> 31" by simp
    have "31 - n < 32" by simp
    then have "(31 - n + i * 32) div 32 = i" "(31 - n + i * 32) mod 32 = 31 - n" by simp_all
    then have "(i * 32 + (31 - n)) div 32 = i" "(i * 32 + (31 - n)) mod 32 = 31 - n" by (simp_all only: add.commute)
    moreover have "i * 32 + (31 - n) < 256" using i n by linarith
    ultimately show "bit (sns_bitmap s ! i) n = bit (sns_bitmap t ! i) n"
      using all [of "i * 32 + (31 - n)"] n by (simp add: sns_bit_def)
  qed
  then have "sns_bitmap s = sns_bitmap t" using len by (auto intro: nth_equalityI)
  with assms show ?thesis by (cases s; cases t) simp
qed

lemma mod_div_decomp: "k = q * 32 + r \<longleftrightarrow> k div 32 = q \<and> k mod 32 = r" if "r < (32 :: nat)"
  using that by auto

lemma parse_bitmap_word_bits:
  assumes "sns_wf s" "wi < 8"
  shows "\<exists>s'. parse_bitmap_word (sns_num_bits s) wi word s = Some s' \<and> sns_wf s' \<and> sns_same_range s' s \<and>
    (\<forall>k. sns_bit s' k \<longleftrightarrow> sns_bit s k \<or> (k div 32 = wi \<and> k < unat (sns_num_bits s) \<and> bit word (31 - k mod 32)))"
proof -
  let ?n = "sns_num_bits s"
  let ?P = "\<lambda>j t. sns_wf t \<and> sns_same_range t s \<and>
    (\<forall>k. sns_bit t k \<longleftrightarrow> sns_bit s k \<or> (k div 32 = wi \<and> k mod 32 < j \<and> k < unat ?n \<and> bit word (31 - k mod 32)))"
  have "\<exists>t. parse_bitmap_word ?n wi word s = Some t \<and> ?P (0 + 32) t"
    unfolding parse_bitmap_word_def
  proof (rule for_loop_invariant [of ?P])
    show "?P 0 s" using assms by (simp add: sns_same_range_def)
    fix j t assume j: "0 \<le> j" "j < 0 + 32" and P: "?P j t"
    let ?k = "wi * 32 + j"
    have k: "unat (of_nat (wi * 32) + of_nat j :: u32) = ?k"
    proof -
      have "of_nat (wi * 32) + of_nat j = (of_nat ?k :: u32)" by simp
      moreover have "?k < 2 ^ 32" using j assms(2) by simp
      ultimately show ?thesis by (simp only: unat_of_nat) simp
    qed
    have dm: "?k div 32 = wi" "?k mod 32 = j" using j by auto
    have step: "k mod 32 < Suc j \<longleftrightarrow> k mod 32 < j \<or> k = ?k" if "k div 32 = wi" for k
      using that mod_div_decomp [of j k wi] j by (auto simp: less_Suc_eq)
    show "\<exists>t'. (let bit_offset = of_nat (wi * 32) + of_nat j in
        if bit_offset < ?n \<and> word AND push_bit (31 - j) 1 \<noteq> 0 then map_option snd (sns_set bit_offset t) else Some t) = Some t' \<and>
      ?P (Suc j) t'"
    proof (cases "?k < unat ?n \<and> bit word (31 - j)")
      case True
      from P have wf: "sns_wf t" and n: "sns_num_bits t = ?n" by (simp_all add: sns_same_range_def)
      have "sns_set (of_nat (wi * 32) + of_nat j) t = Some (True, sns_insert ?k t)"
        using True sns_set_insert [OF wf] by (simp only: k n word_less_nat_alt if_True)
      moreover have "?P (Suc j) (sns_insert ?k t)"
      proof (intro conjI)
        show "sns_wf (sns_insert ?k t)" using wf True n by (intro sns_insert_wf) simp_all
        show "sns_same_range (sns_insert ?k t) s" using P by (simp add: sns_same_range_def)
        have "?k div 32 < length (sns_bitmap t)"
          using wf assms(2) dm by (simp add: sns_wf_def maximum_words_def)
        with P True dm step show "\<forall>k. sns_bit (sns_insert ?k t) k \<longleftrightarrow> sns_bit s k \<or>
            (k div 32 = wi \<and> k mod 32 < Suc j \<and> k < unat ?n \<and> bit word (31 - k mod 32))"
          by (auto simp: sns_bit_insert)
      qed
      ultimately show ?thesis using True k
        by (intro exI [of _ "sns_insert ?k t"]) (simp add: word_less_nat_alt)
    next
      case False
      then have "?P (Suc j) t" using P step dm by fastforce
      with False k show ?thesis by (intro exI [of _ t]) (auto simp: word_less_nat_alt)
    qed
  qed
  then obtain t where "parse_bitmap_word ?n wi word s = Some t" "?P 32 t" by auto
  then show ?thesis by (intro exI [of _ t]) auto
qed

lemma word_count_le:
  assumes "n \<le> maximum_bits"
  shows "unat ((n + 31) div 32) = (unat n + 31) div 32" "(unat n + 31) div 32 \<le> 8"
proof -
  have "unat n \<le> 256" using assms by (simp add: word_le_nat_alt maximum_bits_def)
  moreover from this have "unat (n + 31) = unat n + 31"
    by (subst unat_word_ariths(1)) simp
  ultimately show "unat ((n + 31) div 32) = (unat n + 31) div 32" "(unat n + 31) div 32 \<le> 8"
    by simp_all
qed

lemma parse_bitmap_bits:
  assumes "sns_wf s" "sns_bitmap s = replicate maximum_words 0" "n = sns_num_bits s"
    and "wc = (unat n + 31) div 32" "20 + 4 * wc \<le> length content"
  shows "\<exists>s'. parse_bitmap order content n wc s = Some s' \<and> sns_wf s' \<and> sns_same_range s' s \<and>
    (\<forall>k. k < 256 \<longrightarrow> sns_bit s' k = (k < unat n \<and> bit (content_word order content (k div 32)) (31 - k mod 32)))"
proof -
  let ?P = "\<lambda>j t. sns_wf t \<and> sns_same_range t s \<and>
    (\<forall>k. k < 256 \<longrightarrow> sns_bit t k = (k div 32 < j \<and> k < unat n \<and> bit (content_word order content (k div 32)) (31 - k mod 32)))"
  have n: "unat n \<le> 256" using assms(1,3) by (auto simp: sns_wf_def intro: sns_num_bits_le)
  then have wc: "wc \<le> 8" using assms(4) by simp
  have "\<exists>t. parse_bitmap order content n wc s = Some t \<and> ?P (0 + wc) t"
    unfolding parse_bitmap_def
  proof (rule for_loop_invariant [of ?P])
    show "?P 0 s" using assms by (auto simp: sns_same_range_def)
    fix j t assume j: "0 \<le> j" "j < 0 + wc" and P: "?P j t"
    have rd: "read_u32 order (20 + 4 * j) content = Some (content_word order content j)"
      using j assms(5) by (simp add: u32_codec.get_block content_word_def)
    have nt: "sns_num_bits t = n" using P assms(3) by (simp add: sns_same_range_def)
    from parse_bitmap_word_bits [of t j "content_word order content j"] P j wc obtain t' where
      t': "parse_bitmap_word n j (content_word order content j) t = Some t'" "sns_wf t'" "sns_same_range t' t"
      "\<And>k. sns_bit t' k \<longleftrightarrow> sns_bit t k \<or> (k div 32 = j \<and> k < unat n \<and> bit (content_word order content j) (31 - k mod 32))"
      unfolding nt by auto
    with P have "?P (Suc j) t'"
      by (auto simp: sns_same_range_def less_Suc_eq)
    with rd t'(1) show "\<exists>t'. Option.bind (read_u32 order (20 + 4 * j) content) (\<lambda>word. parse_bitmap_word n j word t) = Some t' \<and> ?P (Suc j) t'"
      by simp
  qed
  then obtain t where t: "parse_bitmap order content n wc s = Some t" "?P wc t" by auto
  have "k div 32 < wc" if "k < unat n" for k
    using that assms(4) by (simp add: less_eq_div_iff_mult_less_eq div_less_iff_less_mult)
  with t show ?thesis by (intro exI [of _ t]) auto
qed

lemma read_sequence_number_total:
  assumes "off + 8 \<le> length bs"
  shows "\<exists>r. read_sequence_number order z off bs = Some r \<and>
    (\<forall>v. r = Some v \<longrightarrow> v \<le> INT64_MAX \<and> (z \<or> v \<noteq> 0))"
  using assms
  by (auto simp: read_sequence_number_def u32_codec.get_block Let_def)

lemma parse_acknack_content_total: "\<exists>r. parse_acknack_content p = Some r \<and> r \<noteq> Inl rel_none"
  and parse_acknack_content_wf: "parse_acknack_content p = Some (Inr v) \<Longrightarrow> sns_wf (an_reader_state v)"
proof -
  let ?c = "pp_content p" and ?o = "pp_byte_order p"
  have "\<exists>r. parse_acknack_content p = Some r \<and> r \<noteq> Inl rel_none \<and> (\<forall>v. r = Inr v \<longrightarrow> sns_wf (an_reader_state v))"
  proof (cases "length ?c < 24")
    case True
    then show ?thesis by (simp add: parse_acknack_content_def Let_def acknack_fixed_content_size_def)
  next
    case False
    define n where "n = (bytes_word ?o (take 4 (drop 16 ?c)) :: u32)"
    have n: "read_u32 ?o 16 ?c = Some n" using False by (simp add: u32_codec.get_block n_def)
    obtain base where base: "read_sequence_number ?o False 8 ?c = Some base"
      using read_sequence_number_total [of 8 ?c ?o False] False by auto
    show ?thesis
    proof (cases "\<exists>b. base = Some b \<and> n \<le> maximum_bits \<and> length ?c = 24 + unat ((n + 31) div 32) * 4 \<and> sns_range_ok b n")
      case False
      with \<open>\<not> length ?c < 24\<close> base n show ?thesis
        by (cases base) (auto simp: parse_acknack_content_def Let_def acknack_fixed_content_size_def sns_reset_ok rd_block_def not_less)
    next
      case True
      then obtain b where b: "base = Some b" "n \<le> maximum_bits" "length ?c = 24 + unat ((n + 31) div 32) * 4" "sns_range_ok b n"
        by blast
      let ?s = "\<lparr>sns_bitmap_base = b, sns_num_bits = n, sns_bitmap = replicate maximum_words 0\<rparr>"
      from parse_bitmap_bits [of ?s n "(unat n + 31) div 32" ?c ?o] b word_count_le [OF b(2)] obtain s' where
        "parse_bitmap ?o ?c n ((unat n + 31) div 32) ?s = Some s'" "sns_wf s'"
        by (auto simp: sns_reset_wf)
      with b base n word_count_le [OF b(2)] show ?thesis
        by (simp add: parse_acknack_content_def Let_def acknack_fixed_content_size_def sns_reset_ok rd_block_def
            u32_codec.get_block)
    qed
  qed
  then show "\<exists>r. parse_acknack_content p = Some r \<and> r \<noteq> Inl rel_none"
    and "parse_acknack_content p = Some (Inr v) \<Longrightarrow> sns_wf (an_reader_state v)" by auto
qed

section \<open>Builders\<close>

lemma length_seq_bytes [simp]: "length (seq_bytes order v) = 8"
  by (simp add: seq_bytes_def)

lemma write_sequence_number_block [mem_simps]:
  "write_sequence_number order off v b = wr_block b off (seq_bytes order v)"
  by (simp add: write_sequence_number_def seq_bytes_def u32_codec.put_block mem_simps)

lemma read_sequence_number_bytes:
  assumes "drop off bs = seq_bytes order v @ rest" "v \<le> INT64_MAX" "z \<or> v \<noteq> 0"
  shows "read_sequence_number order z off bs = Some (Some v)"
proof -
  have len: "length bs - off = 8 + length rest" using arg_cong [OF assms(1), of length] by simp
  have "drop (off + 4) bs = drop 4 (drop off bs)" by (simp add: add.commute)
  then have "take 4 (drop off bs) = word_bytes order 4 (ucast (drop_bit 32 v) :: u32)"
    "take 4 (drop (off + 4) bs) = word_bytes order 4 (ucast (v AND 0xFFFFFFFF) :: u32)"
    using assms(1) by (simp_all add: seq_bytes_def)
  with len have "read_u32 order off bs = Some (ucast (drop_bit 32 v))"
    "read_u32 order (off + 4) bs = Some (ucast (v AND 0xFFFFFFFF))"
    by (simp_all add: u32_codec.get_block)
  with assms(2,3) sint_high_nonneg [OF assms(2)] show ?thesis
    by (auto simp: read_sequence_number_def not_less Let_def)
qed

lemma or_flag_modify:
  "Option.bind (wr b i v) (\<lambda>b. Option.bind (or_flag i c f b) k) =
   Option.bind (wr b i (if c then v OR f else v)) k"
  unfolding or_flag_def by (rule wr_modify)

lemma supported_version_iff: "supported_version v \<longleftrightarrow> \<not> unsupported_version v"
  by (auto simp: supported_version_def unsupported_version_def)

lemma write_rtps_header_block:
  assumes "wf_reliability_header h"
  shows "write_rtps_header h b = wr_block b 0 (header_bytes h)"
  using assms
  by (simp add: write_rtps_header_def mem_simps header_bytes_def rtps_header_def wf_reliability_header_def
      wf_vendor_id_def)

lemma length_header_bytes: "wf_reliability_header h \<Longrightarrow> length (header_bytes h) = 20"
  by (simp add: header_bytes_def wf_reliability_header_def length_rtps_header rtps_header_size_def)

lemma heartbeat_write_block:
  assumes "wf_heartbeat c" "flags_order (hb_flags c) = rh_byte_order (hb_header c)"
  shows "heartbeat_write c b = wr_block b 20 (encode_submessage (heartbeat_submessage c))"
proof -
  have len: "length (hb_reader_id c) = 4" "length (hb_writer_id c) = 4"
    using assms(1) by (simp_all add: wf_heartbeat_def wf_entity_id_def)
  show ?thesis
    unfolding heartbeat_write_def Let_def or_flag_modify
    using len by (simp add: mem_simps write_u32_fun encode_submessage_def heartbeat_submessage_def assms(2)
        heartbeat_content_size_def hb_flags_def [unfolded Let_def, symmetric] Let_def)
qed

lemma sns_word_count_eq:
  assumes "sns_wf s"
  shows "sns_word_count s = (unat (sns_num_bits s) + 31) div 32" "sns_word_count s \<le> 8"
  using assms word_count_le [of "sns_num_bits s"]
  by (simp_all add: sns_word_count_def sns_wf_def sns_range_ok_def)

lemma acknack_words_block:
  assumes "sns_wf s"
  shows "for_loop 0 (sns_word_count s) (\<lambda>i b. Option.bind (sns_word i s) (\<lambda>w. write_u32 order (44 + 4 * i) w b)) b =
    (if sns_word_count s = 0 then Some b
     else wr_block b 44 (concat (map (\<lambda>i. word_bytes order 4 (sns_bitmap s ! i)) [0..<sns_word_count s])))"
proof -
  have len: "length (sns_bitmap s) = 8" using assms by (simp add: sns_wf_def maximum_words_def)
  have "for_loop 0 (sns_word_count s) (\<lambda>i b. Option.bind (sns_word i s) (\<lambda>w. write_u32 order (44 + 4 * i) w b)) b =
    for_loop 0 (sns_word_count s) (\<lambda>i b. wr_block b (44 + 4 * i) (word_bytes order 4 (sns_bitmap s ! i))) b"
    using sns_word_count_eq(2) [OF assms] len
    by (intro for_loop_cong) (auto simp: sns_word_def write_u32_fun)
  then show ?thesis by (simp add: for_loop_blocks)
qed

lemma length_concat_words [simp]:
  "length (concat (map (\<lambda>i. word_bytes order 4 (f i)) is)) = 4 * length is"
  by (induction "is") simp_all

lemma acknack_write_block:
  assumes "wf_acknack c" "flags_order (an_flags c) = rh_byte_order (an_header c)"
  shows "acknack_write c (24 + sns_word_count (an_reader_state c) * 4) b =
    wr_block b 20 (encode_submessage (acknack_submessage c))"
proof -
  have len: "length (an_reader_id c) = 4" "length (an_writer_id c) = 4" and wf: "sns_wf (an_reader_state c)"
    using assms(1) by (simp_all add: wf_acknack_def wf_entity_id_def)
  have n: "of_nat (24 + sns_word_count (an_reader_state c) * 4) = (of_nat (length (sm_content (acknack_submessage c))) :: u16)"
    using len by (simp add: acknack_submessage_def Let_def mult.commute)
  show ?thesis
    unfolding acknack_write_def Let_def or_flag_modify acknack_words_block [OF wf] n
    using len
    by (cases "sns_word_count (an_reader_state c) = 0")
      (simp_all add: mem_simps write_u32_fun encode_submessage_def assms(2)
        an_flags_def [unfolded Let_def, symmetric], simp_all add: acknack_submessage_def assms(2) Let_def)
qed

lemma hb_flags_masks:
  "supported_byte_order (rh_byte_order (hb_header c)) \<Longrightarrow> flags_order (hb_flags c) = rh_byte_order (hb_header c)"
  "hb_flags c AND 0x08 = 0" "hb_flags c AND NOT (0x01 OR 0x02 OR 0x04) = 0"
  "(hb_flags c AND 0x02 \<noteq> 0) = hb_final_flag c" "(hb_flags c AND 0x04 \<noteq> 0) = hb_liveliness_flag c"
  by (auto simp: hb_flags_def flags_order_def supported_byte_order_def Let_def)

lemma an_flags_masks:
  "supported_byte_order (rh_byte_order (an_header c)) \<Longrightarrow> flags_order (an_flags c) = rh_byte_order (an_header c)"
  "an_flags c AND NOT (0x01 OR 0x02) = 0" "(an_flags c AND 0x02 \<noteq> 0) = an_final_flag c"
  by (auto simp: an_flags_def flags_order_def supported_byte_order_def Let_def)

lemma rb_begin_cases:
  assumes "wf_reliability_header h" "20 \<le> message_size" "rb_error r = rel_none" "rb_size r = 0"
  shows "if header_ok h \<and> message_size \<le> span_size (rb_buffer r) \<and> \<not> null_span (rb_buffer r)
    then rb_begin h message_size r =
      Some (True, r\<lparr>rb_buffer := Span (header_bytes h @ drop 20 (span_bytes (rb_buffer r)))\<rparr>)
    else \<exists>e. e \<noteq> rel_none \<and> rb_begin h message_size r = Some (False, r\<lparr>rb_error := e\<rparr>)"
proof (cases "rb_buffer r")
  case (Null n)
  with assms show ?thesis by (auto simp: rb_begin_def rb_fail_def Let_def)
next
  case (Span b)
  with assms length_header_bytes [OF assms(1)] show ?thesis
    by (auto simp: rb_begin_def rb_fail_def Let_def header_ok_def write_rtps_header_block wr_block_def)
qed

text \<open>What both builders do after their own checks.\<close>

lemma rb_begin_write:
  assumes wf: "wf_reliability_header h" and msize: "msize = 20 + length enc"
    and wrt: "\<And>b. header_ok h \<Longrightarrow> wrt b = wr_block b 20 enc"
    and body: "result = Option.bind (rb_begin h msize (r\<lparr>rb_size := 0, rb_error := rel_none\<rparr>)) (\<lambda>(ok, r).
       if \<not> ok then Some (False, r)
       else Option.bind (deref (rb_buffer r)) (\<lambda>b. Option.bind (wrt b) (\<lambda>b.
         Some (True, r\<lparr>rb_buffer := Span b, rb_size := msize\<rparr>))))"
  shows "builder_done h (header_bytes h @ enc) r result"
proof -
  let ?r = "r\<lparr>rb_size := 0, rb_error := rel_none\<rparr>"
  note b = rb_begin_cases [OF wf, of msize ?r]
  have len: "length (header_bytes h) = 20" using wf by (rule length_header_bytes)
  show ?thesis
  proof (cases "header_ok h \<and> msize \<le> span_size (rb_buffer r) \<and> \<not> null_span (rb_buffer r)")
    case False
    with b msize obtain e where "e \<noteq> rel_none" "rb_begin h msize ?r = Some (False, ?r\<lparr>rb_error := e\<rparr>)" by auto
    with False msize len show ?thesis by (auto simp: builder_done_def body)
  next
    case True
    then obtain bs where bs: "rb_buffer r = Span bs" "20 + length enc \<le> length bs"
      using msize by (cases "rb_buffer r") auto
    with b msize True have "rb_begin h msize ?r = Some (True, ?r\<lparr>rb_buffer := Span (header_bytes h @ drop 20 bs)\<rparr>)"
      by auto
    moreover have "wrt (header_bytes h @ drop 20 bs) = Some (header_bytes h @ enc @ drop (20 + length enc) bs)"
      using True wrt bs len by (simp add: wr_block_def add.commute)
    ultimately show ?thesis
      using True bs msize len by (cases r) (simp add: builder_done_def body)
  qed
qed

lemma build_heartbeat_done:
  assumes "wf_heartbeat c"
  shows "if heartbeat_range_ok c
    then builder_done (hb_header c) (message_bytes (hb_header c) (heartbeat_submessage c)) r (build_heartbeat c r)
    else build_heartbeat c r = Some (False, r\<lparr>rb_size := 0, rb_error := rel_invalid_sequence_number\<rparr>)"
proof (cases "heartbeat_range_ok c")
  case False
  then show ?thesis by (auto simp: build_heartbeat_def heartbeat_range_ok_def rb_fail_def not_le Let_def)
next
  case True
  have len: "length (encode_submessage (heartbeat_submessage c)) = 32"
    using assms by (simp add: heartbeat_submessage_def Let_def wf_heartbeat_def wf_entity_id_def)
  have "builder_done (hb_header c) (header_bytes (hb_header c) @ encode_submessage (heartbeat_submessage c)) r (build_heartbeat c r)"
  proof (rule rb_begin_write [where msize = heartbeat_message_size and wrt = "heartbeat_write c"])
    show "heartbeat_message_size = 20 + length (encode_submessage (heartbeat_submessage c))"
      unfolding len
      by (simp add: heartbeat_message_size_def rtps_header_size_def submessage_header_size_def heartbeat_content_size_def)
  qed (use True assms in \<open>auto simp: wf_heartbeat_def heartbeat_write_block hb_flags_masks header_ok_def
      build_heartbeat_def heartbeat_range_ok_def Let_def\<close>)
  with True show ?thesis by (simp add: message_bytes_def encode_submessages_def)
qed

lemma build_acknack_done:
  assumes "wf_acknack c"
  shows "builder_done (an_header c) (message_bytes (an_header c) (acknack_submessage c)) r (build_acknack c r)"
proof -
  let ?s = "an_reader_state c"
  have s: "valid_sequence_number (sns_bitmap_base ?s)" "\<not> maximum_bits < sns_num_bits ?s"
    using assms by (auto simp: wf_acknack_def sns_wf_def sns_range_ok_def)
  have len: "length (encode_submessage (acknack_submessage c)) = 28 + sns_word_count ?s * 4"
    using assms by (simp add: acknack_submessage_def Let_def wf_acknack_def wf_entity_id_def)
  have "builder_done (an_header c) (header_bytes (an_header c) @ encode_submessage (acknack_submessage c)) r (build_acknack c r)"
  proof (rule rb_begin_write [where msize = "24 + (24 + sns_word_count ?s * 4)"
        and wrt = "acknack_write c (24 + sns_word_count ?s * 4)"])
    show "24 + (24 + sns_word_count ?s * 4) = 20 + length (encode_submessage (acknack_submessage c))"
      unfolding len by simp
  qed (use s assms in \<open>auto simp: wf_acknack_def acknack_write_block an_flags_masks header_ok_def
      build_acknack_def Let_def rtps_header_size_def submessage_header_size_def acknack_fixed_content_size_def\<close>)
  then show ?thesis by (simp add: message_bytes_def encode_submessages_def)
qed

lemma route_message_bytes:
  assumes "wf_reliability_header h" "header_ok h" "closed_ok s" "sm_id s = sid"
    and "flags_order (sm_flags s) = rh_byte_order h"
  shows "parse_prefix (Span (message_bytes h s)) sid =
    Some (Inr \<lparr>pp_header = h, pp_byte_order = rh_byte_order h, pp_flags = sm_flags s, pp_content = sm_content s\<rparr>)"
proof -
  have "find_submessage (Span (message_bytes h s)) sid 0 =
    Some (Inr (routed_view (initial_context (rh_version h) (rh_vendor_id h) (rh_guid_prefix h)) sid (sm_flags s) (sm_content s)
      rtps_header_size))"
    unfolding message_bytes_def header_bytes_def
    using assms by (subst find_submessage_encoded) (simp_all add: wf_reliability_header_def header_ok_def supported_version_iff)
  with assms(5) show ?thesis
    by (cases h) (simp add: parse_prefix_def routed_view_def initial_context_def)
qed

lemma heartbeat_submessage_closed:
  assumes "wf_heartbeat c"
  shows "closed_ok (heartbeat_submessage c)"
  using assms
  by (auto simp: closed_ok_def heartbeat_submessage_def Let_def wf_heartbeat_def wf_entity_id_def
      submessage_id_heartbeat_def submessage_id_info_destination_def submessage_id_info_source_def submessage_id_info_timestamp_def)

lemma acknack_submessage_closed:
  assumes "wf_acknack c"
  shows "closed_ok (acknack_submessage c)"
  using assms sns_word_count_eq(2) [of "an_reader_state c"]
  by (auto simp: closed_ok_def acknack_submessage_def Let_def wf_acknack_def wf_entity_id_def
      submessage_id_acknack_def submessage_id_info_destination_def submessage_id_info_source_def submessage_id_info_timestamp_def)

lemma parse_heartbeat_bytes:
  assumes "wf_heartbeat c" "header_ok (hb_header c)" "heartbeat_range_ok c"
  shows "parse_heartbeat_message (Span (message_bytes (hb_header c) (heartbeat_submessage c))) = Some (Inr c)"
proof -
  let ?o = "rh_byte_order (hb_header c)"
  define ct where "ct = sm_content (heartbeat_submessage c)"
  have ct: "ct = hb_reader_id c @ hb_writer_id c @ seq_bytes ?o (hb_first_sequence_number c) @
      seq_bytes ?o (hb_last_sequence_number c) @ word_bytes ?o 4 (hb_count c)"
    by (simp add: ct_def heartbeat_submessage_def Let_def)
  have len: "length (hb_reader_id c) = 4" "length (hb_writer_id c) = 4"
    using assms(1) by (simp_all add: wf_heartbeat_def wf_entity_id_def)
  have id: "sm_id (heartbeat_submessage c) = submessage_id_heartbeat" "sm_flags (heartbeat_submessage c) = hb_flags c"
    by (simp_all add: heartbeat_submessage_def Let_def)
  have pre: "parse_prefix (Span (message_bytes (hb_header c) (heartbeat_submessage c))) submessage_id_heartbeat =
    Some (Inr \<lparr>pp_header = hb_header c, pp_byte_order = ?o, pp_flags = hb_flags c, pp_content = ct\<rparr>)"
    using route_message_bytes [of "hb_header c" "heartbeat_submessage c" submessage_id_heartbeat] assms id
    by (simp add: wf_heartbeat_def heartbeat_submessage_closed hb_flags_masks header_ok_def ct_def)
  from assms(3) have seq: "hb_first_sequence_number c \<noteq> 0" "hb_first_sequence_number c \<le> INT64_MAX"
    "hb_last_sequence_number c \<le> INT64_MAX" "\<not> hb_last_sequence_number c < hb_first_sequence_number c - 1"
    by (auto simp: heartbeat_range_ok_def valid_sequence_number_def)
  have "read_sequence_number ?o False 8 ct = Some (Some (hb_first_sequence_number c))"
    "read_sequence_number ?o True 16 ct = Some (Some (hb_last_sequence_number c))"
    using len seq by (auto intro: read_sequence_number_bytes simp: ct)
  moreover have "rd_block ct 0 4 = Some (hb_reader_id c)" "rd_block ct 4 4 = Some (hb_writer_id c)"
    "read_u32 ?o 24 ct = Some (hb_count c)" "length ct = heartbeat_content_size"
    using len by (simp_all add: ct rd_block_def u32_codec.get_block heartbeat_content_size_def)
  ultimately show ?thesis
    using pre seq hb_flags_masks(2-5) [of c]
    by (simp add: parse_heartbeat_message_def parse_heartbeat_content_def Let_def)
qed

lemma concat_nth_words:
  assumes "i < n"
  shows "take 4 (drop (4 * i) (concat (map (\<lambda>i. word_bytes order 4 (f i)) [0..<n]) @ rest)) = word_bytes order 4 (f i)"
proof -
  have split: "[0..<n] = [0..<i] @ [i..<n]" using upt_add_eq_append [of 0 i "n - i"] assms by simp
  have hd: "[i..<n] = i # [Suc i..<n]" using assms by (rule upt_conv_Cons)
  show ?thesis unfolding split hd by simp
qed

lemma parse_acknack_bytes:
  assumes "wf_acknack c" "header_ok (an_header c)"
  shows "parse_acknack_message (Span (message_bytes (an_header c) (acknack_submessage c))) = Some (Inr c)"
proof -
  let ?o = "rh_byte_order (an_header c)" and ?s = "an_reader_state c"
  let ?wc = "sns_word_count ?s" and ?n = "sns_num_bits ?s" and ?base = "sns_bitmap_base ?s"
  let ?words = "concat (map (\<lambda>i. word_bytes ?o 4 (sns_bitmap ?s ! i)) [0..<?wc])"
  define ct where "ct = sm_content (acknack_submessage c)"
  have ct: "ct = an_reader_id c @ an_writer_id c @ seq_bytes ?o ?base @ word_bytes ?o 4 ?n @ ?words @ word_bytes ?o 4 (an_count c)"
    by (simp add: ct_def acknack_submessage_def Let_def)
  have len: "length (an_reader_id c) = 4" "length (an_writer_id c) = 4" and wf: "sns_wf ?s"
    using assms(1) by (simp_all add: wf_acknack_def wf_entity_id_def)
  have id: "sm_id (acknack_submessage c) = submessage_id_acknack" "sm_flags (acknack_submessage c) = an_flags c"
    by (simp_all add: acknack_submessage_def Let_def)
  have pre: "parse_prefix (Span (message_bytes (an_header c) (acknack_submessage c))) submessage_id_acknack =
    Some (Inr \<lparr>pp_header = an_header c, pp_byte_order = ?o, pp_flags = an_flags c, pp_content = ct\<rparr>)"
    using route_message_bytes [of "an_header c" "acknack_submessage c" submessage_id_acknack] assms id
    by (simp add: wf_acknack_def acknack_submessage_closed an_flags_masks header_ok_def ct_def)
  from wf have rng: "sns_range_ok ?base ?n" by (simp add: sns_wf_def)
  then have n: "\<not> maximum_bits < ?n" "?base \<noteq> 0" "?base \<le> INT64_MAX"
    by (auto simp: sns_range_ok_def valid_sequence_number_def)
  have wc: "?wc = (unat ?n + 31) div 32" "?wc \<le> 8" using sns_word_count_eq [OF wf] by simp_all
  have wc': "unat (?n + 31) div 32 = ?wc" by (simp add: sns_word_count_def)
  have reads: "read_sequence_number ?o False 8 ct = Some (Some ?base)" "read_u32 ?o 16 ct = Some ?n"
    "rd_block ct 0 4 = Some (an_reader_id c)" "rd_block ct 4 4 = Some (an_writer_id c)"
    "read_u32 ?o (20 + 4 * ?wc) ct = Some (an_count c)" "length ct = 24 + ?wc * 4"
    using len n by (auto intro!: read_sequence_number_bytes simp: ct rd_block_def u32_codec.get_block)
  let ?init = "\<lparr>sns_bitmap_base = ?base, sns_num_bits = ?n, sns_bitmap = replicate maximum_words 0\<rparr>"
  have word: "content_word ?o ct i = sns_bitmap ?s ! i" if "i < ?wc" for i
    using concat_nth_words [OF that, of ?o "\<lambda>i. sns_bitmap ?s ! i" "word_bytes ?o 4 (an_count c)"] len
    by (simp add: content_word_def ct)
  have "\<exists>s'. parse_bitmap ?o ct ?n ?wc ?init = Some s' \<and> sns_wf s' \<and> sns_same_range s' ?init \<and>
    (\<forall>k. k < 256 \<longrightarrow> sns_bit s' k = (k < unat ?n \<and> bit (content_word ?o ct (k div 32)) (31 - k mod 32)))"
    by (rule parse_bitmap_bits) (use rng wc reads in \<open>simp_all add: sns_reset_wf\<close>)
  then obtain s' where s': "parse_bitmap ?o ct ?n ?wc ?init = Some s'" "sns_wf s'" "sns_same_range s' ?init"
    and bits: "\<forall>k. k < 256 \<longrightarrow> sns_bit s' k = (k < unat ?n \<and> bit (content_word ?o ct (k div 32)) (31 - k mod 32))" by blast
  have "s' = ?s"
  proof (rule sns_eqI)
    fix k assume "k < unat (sns_num_bits s')"
    then have k: "k < unat ?n" using s'(3) by (simp add: sns_same_range_def)
    then have "k < 256" "k div 32 < ?wc" using sns_num_bits_le [OF rng] wc(1)
      by (auto simp: less_eq_div_iff_mult_less_eq div_less_iff_less_mult)
    with bits k word show "sns_bit s' k = sns_bit ?s k" by (auto simp: sns_bit_def)
  qed (use s' wf in \<open>simp_all add: sns_same_range_def\<close>)
  with s' show ?thesis
    using pre reads n an_flags_masks(2-3) [of c] rng
    by (simp add: parse_acknack_message_def parse_acknack_content_def acknack_fixed_content_size_def
        sns_reset_ok wc' Let_def)
qed

lemma parse_prefix_total: "\<exists>r. parse_prefix message sid = Some r"
proof -
  obtain r where "find_submessage message sid 0 = Some r" using find_submessage_total by blast
  then show ?thesis by (cases r) (auto simp: parse_prefix_def)
qed

lemma parse_prefix_error: "parse_prefix message sid = Some (Inl e) \<Longrightarrow> e \<noteq> rel_none"
proof -
  have "rel_route_error e \<noteq> rel_none" for e by (cases e) simp_all
  then show "parse_prefix message sid = Some (Inl e) \<Longrightarrow> e \<noteq> rel_none"
    by (auto simp: parse_prefix_def split: if_splits bind_splits sum.splits)
qed

lemma parse_heartbeat_content_total:
  "\<exists>r. parse_heartbeat_content p = Some r \<and> r \<noteq> Inl rel_none \<and> (\<forall>v. r = Inr v \<longrightarrow> heartbeat_range_ok v)"
proof (cases "length (pp_content p) = 28")
  case False
  then show ?thesis by (simp add: parse_heartbeat_content_def Let_def heartbeat_content_size_def)
next
  case True
  let ?c = "pp_content p" and ?o = "pp_byte_order p"
  obtain a b where a: "read_sequence_number ?o False 8 ?c = Some a" "\<forall>v. a = Some v \<longrightarrow> v \<le> INT64_MAX \<and> v \<noteq> 0"
    and b: "read_sequence_number ?o True 16 ?c = Some b" "\<forall>v. b = Some v \<longrightarrow> v \<le> INT64_MAX"
    using read_sequence_number_total [of 8 ?c ?o False] read_sequence_number_total [of 16 ?c ?o True] True by auto
  with True show ?thesis
    by (cases a; cases b)
      (auto simp: parse_heartbeat_content_def Let_def heartbeat_content_size_def rd_block_def u32_codec.get_block
        heartbeat_range_ok_def valid_sequence_number_def not_less)
qed

lemma demo_header_ok: "wf_reliability_header demo_reliability_header" "header_ok demo_reliability_header"
  by (simp_all add: demo_reliability_header_def wf_reliability_header_def wf_vendor_id_def wf_guid_prefix_def
    header_ok_def supported_version_def supported_byte_order_def)

lemma demo_acknack_wf: "wf_acknack demo_acknack"
proof -
  have "sns_wf \<lparr>sns_bitmap_base = 7, sns_num_bits = 40, sns_bitmap = [1, 0x80000000, 0, 0, 0, 0, 0, 0]\<rparr>"
    by code_simp
  then show ?thesis
    by (simp add: wf_acknack_def demo_acknack_def demo_header_ok wf_entity_id_def)
qed

section \<open>Properties\<close>

text \<open>C33: In a sequence-number set, after a reset to a valid range exactly no offset tests true,
  and after setting offsets exactly the offsets below the declared size that were set test true,
  at every size up to 256 bits.\<close>

theorem sns_set_test:
  assumes "sns_reset base n s = (True, s')" "for_loop 0 (length offsets) (\<lambda>i t. map_option snd (sns_set (offsets ! i) t)) s' = r"
  shows "\<exists>t. r = Some t \<and> sns_bitmap_base t = base \<and> sns_num_bits t = n \<and>
    (\<forall>k. sns_test k t = Some (k < n \<and> k \<in> set offsets))"
proof -
  from assms(1) have rng: "sns_range_ok base n"
    and s': "s' = \<lparr>sns_bitmap_base = base, sns_num_bits = n, sns_bitmap = replicate maximum_words 0\<rparr>"
    by (auto simp: sns_reset_ok split: if_splits)
  let ?P = "\<lambda>j t. sns_wf t \<and> sns_bitmap_base t = base \<and> sns_num_bits t = n \<and>
    (\<forall>k. k < n \<longrightarrow> sns_bit t (unat k) = (k \<in> set (take j offsets)))"
  have "\<exists>t. for_loop 0 (length offsets) (\<lambda>i t. map_option snd (sns_set (offsets ! i) t)) s' = Some t \<and>
    ?P (0 + length offsets) t"
  proof (rule for_loop_invariant [of ?P])
    have "unat k < 256" if "k < n" for k
      using that sns_num_bits_le [OF rng] by (simp add: word_less_nat_alt)
    then show "?P 0 s'" using rng by (simp add: s' sns_reset_wf)
    fix j t assume j: "0 \<le> j" "j < 0 + length offsets" and P: "?P j t"
    show "\<exists>t'. map_option snd (sns_set (offsets ! j) t) = Some t' \<and> ?P (Suc j) t'"
    proof (cases "offsets ! j < n")
      case True
      with P have idx: "unat (offsets ! j) div 32 < length (sns_bitmap t)" by (intro sns_index) auto
      from True P have "unat (offsets ! j) < unat (sns_num_bits t)" by (simp add: word_less_nat_alt)
      with P True j idx show ?thesis
        by (auto simp: sns_set_insert sns_insert_wf sns_bit_insert take_Suc_conv_app_nth dest: iffD2 [OF word_unat_eq_iff])
    next
      case False
      with P j show ?thesis by (auto simp: sns_set_insert take_Suc_conv_app_nth)
    qed
  qed
  with assms(2) show ?thesis by (auto simp: sns_test_bit)
qed

theorem sns_set_test_witness:
  "\<exists>s' t. sns_reset 5 40 sns_empty = (True, s') \<and>
     for_loop 0 2 (\<lambda>i t. map_option snd (sns_set ([33, 39] ! i) t)) s' = Some t \<and>
     sns_test 33 t = Some True \<and> sns_test 34 t = Some False"
proof -
  obtain s' where s': "sns_reset 5 40 sns_empty = (True, s')"
    by (simp add: sns_reset_def valid_sequence_number_def maximum_bits_def INT64_MAX_def)
  have "length [33, 39 :: u32] = 2" by simp
  from sns_set_test [OF s' refl, of "[33, 39]", unfolded this] obtain t where
    t: "for_loop 0 2 (\<lambda>i t. map_option snd (sns_set ([33, 39] ! i) t)) s' = Some t"
    "\<forall>k. sns_test k t = Some (k < 40 \<and> k \<in> set [33, 39])" by blast
  then have "sns_test 33 t = Some True" "sns_test 34 t = Some False" by simp_all
  with s' t(1) show ?thesis by blast
qed

text \<open>C32: For complete identifiers, a HEARTBEAT is built exactly when its header is supported,
  its sequence range is valid and the buffer holds 52 bytes, within the buffer; and parsing the
  bytes the builder reports gives back every field.\<close>

theorem heartbeat_roundtrip:
  assumes "wf_heartbeat c"
  shows "if header_ok (hb_header c) \<and> heartbeat_range_ok c \<and> 52 \<le> span_size (rb_buffer r) \<and> \<not> null_span (rb_buffer r)
    then \<exists>r'. build_heartbeat c r = Some (True, r') \<and> rb_size r' = 52 \<and> rb_error r' = rel_none \<and>
      span_size (rb_buffer r') = span_size (rb_buffer r) \<and>
      parse_heartbeat_message (Span (take (rb_size r') (span_bytes (rb_buffer r')))) = Some (Inr c)
    else \<exists>e. e \<noteq> rel_none \<and> build_heartbeat c r = Some (False, r\<lparr>rb_size := 0, rb_error := e\<rparr>)"
proof -
  let ?m = "message_bytes (hb_header c) (heartbeat_submessage c)"
  have "length ?m = 52"
    using assms by (simp add: message_bytes_def encode_submessages_def heartbeat_submessage_def Let_def wf_heartbeat_def
        wf_entity_id_def length_header_bytes)
  with build_heartbeat_done [OF assms, of r] parse_heartbeat_bytes [OF assms] show ?thesis
    by (cases "rb_buffer r") (auto simp: builder_done_def split: if_splits)
qed

theorem heartbeat_roundtrip_witness:
  "\<exists>r'. build_heartbeat demo_heartbeat (reliability_builder_new (Span (replicate 60 0))) = Some (True, r') \<and>
     parse_heartbeat_message (Span (take (rb_size r') (span_bytes (rb_buffer r')))) = Some (Inr demo_heartbeat)"
proof -
  have "wf_heartbeat demo_heartbeat" "header_ok (hb_header demo_heartbeat)" "heartbeat_range_ok demo_heartbeat"
    by (simp_all add: demo_heartbeat_def wf_heartbeat_def demo_header_ok wf_entity_id_def heartbeat_range_ok_def
      valid_sequence_number_def INT64_MAX_def)
  with heartbeat_roundtrip [of demo_heartbeat "reliability_builder_new (Span (replicate 60 0))"] show ?thesis
    by (auto simp: reliability_builder_new_def)
qed

text \<open>C6: For complete identifiers and a well-formed sequence-number set, an ACKNACK is built
  exactly when its header is supported and the buffer holds the message, within the buffer; and
  parsing the bytes the builder reports gives back every field, the bitmap included.\<close>

theorem acknack_roundtrip:
  assumes "wf_acknack c"
  defines "n \<equiv> 48 + 4 * sns_word_count (an_reader_state c)"
  shows "if header_ok (an_header c) \<and> n \<le> span_size (rb_buffer r) \<and> \<not> null_span (rb_buffer r)
    then \<exists>r'. build_acknack c r = Some (True, r') \<and> rb_size r' = n \<and> rb_error r' = rel_none \<and>
      span_size (rb_buffer r') = span_size (rb_buffer r) \<and>
      parse_acknack_message (Span (take (rb_size r') (span_bytes (rb_buffer r')))) = Some (Inr c)
    else \<exists>e. e \<noteq> rel_none \<and> build_acknack c r = Some (False, r\<lparr>rb_size := 0, rb_error := e\<rparr>)"
proof -
  let ?m = "message_bytes (an_header c) (acknack_submessage c)"
  have "length ?m = n"
    using assms by (simp add: message_bytes_def encode_submessages_def acknack_submessage_def Let_def wf_acknack_def
        wf_entity_id_def length_header_bytes n_def)
  with build_acknack_done [OF assms(1), of r] parse_acknack_bytes [OF assms(1)] show ?thesis
    by (cases "rb_buffer r") (auto simp: builder_done_def split: if_splits)
qed

theorem acknack_roundtrip_witness:
  "\<exists>r'. build_acknack demo_acknack (reliability_builder_new (Span (replicate 60 0))) = Some (True, r') \<and>
     parse_acknack_message (Span (take (rb_size r') (span_bytes (rb_buffer r')))) = Some (Inr demo_acknack)"
proof -
  have "header_ok (an_header demo_acknack)" "sns_word_count (an_reader_state demo_acknack) = 2"
    by (simp_all add: demo_acknack_def demo_header_ok sns_word_count_def)
  with acknack_roundtrip [OF demo_acknack_wf, of "reliability_builder_new (Span (replicate 60 0))"] show ?thesis
    by (auto simp: reliability_builder_new_def)
qed

text \<open>C34: Parsing any bytes as a HEARTBEAT or as an ACKNACK terminates and stays inside the
  message; an accepted HEARTBEAT has a valid sequence range and an accepted ACKNACK a
  well-formed set of at most 256 sequence numbers that are all representable.\<close>

theorem parse_reliability_safe:
  "(case parse_heartbeat_message message of
      None \<Rightarrow> False
    | Some (Inl e) \<Rightarrow> e \<noteq> rel_none
    | Some (Inr v) \<Rightarrow> heartbeat_range_ok v) \<and>
   (case parse_acknack_message message of
      None \<Rightarrow> False
    | Some (Inl e) \<Rightarrow> e \<noteq> rel_none
    | Some (Inr v) \<Rightarrow> sns_wf (an_reader_state v))"
proof -
  obtain p q where p: "parse_prefix message submessage_id_heartbeat = Some p"
    and q: "parse_prefix message submessage_id_acknack = Some q"
    using parse_prefix_total by blast
  have "case parse_heartbeat_message message of None \<Rightarrow> False | Some (Inl e) \<Rightarrow> e \<noteq> rel_none
    | Some (Inr v) \<Rightarrow> heartbeat_range_ok v"
  proof (cases p)
    case (Inr x)
    with p parse_heartbeat_content_total [of x] show ?thesis
      by (auto simp: parse_heartbeat_message_def split: sum.splits)
  qed (use p parse_prefix_error in \<open>auto simp: parse_heartbeat_message_def\<close>)
  moreover have "case parse_acknack_message message of None \<Rightarrow> False | Some (Inl e) \<Rightarrow> e \<noteq> rel_none
    | Some (Inr v) \<Rightarrow> sns_wf (an_reader_state v)"
  proof (cases q)
    case (Inr x)
    with q parse_acknack_content_total [of x] parse_acknack_content_wf [of x] show ?thesis
      by (auto simp: parse_acknack_message_def split: sum.splits)
  qed (use q parse_prefix_error in \<open>auto simp: parse_acknack_message_def\<close>)
  ultimately show ?thesis by blast
qed

end
