(* ===== verification/Storage.thy ===== *)
theory Storage
  imports Prelude
begin

text \<open>
  Bounded storage without dynamic allocation: \<open>src/include/openrtdds/core/runtime_limits.hpp\<close>,
  \<open>keep_last_history.hpp\<close> and \<open>static_pool.hpp\<close>. The template arguments (depth, payload
  capacity, pool capacity) are arguments of the definitions. Both containers are proved to
  refine a simple specification through the \<open>refinement\<close> interface of \<open>Prelude\<close>: the history a
  bounded list that forgets its oldest samples, the pool a partial map from slots to objects.
\<close>

section \<open>Runtime limits\<close>

datatype limit_error =
  limit_none | zero_participants | zero_topics | zero_endpoints | zero_samples | zero_payload
  | invalid_history_depth

record runtime_limits =
  max_participants :: nat
  max_topics :: nat
  max_writers :: nat
  max_readers :: nat
  max_samples :: nat
  max_payload_bytes :: nat
  history_depth :: nat

definition validate_limits :: "runtime_limits \<Rightarrow> limit_error" where
  "validate_limits l =
     (if max_participants l = 0 then zero_participants
      else if max_topics l = 0 then zero_topics
      else if max_writers l = 0 \<or> max_readers l = 0 then zero_endpoints
      else if max_samples l = 0 then zero_samples
      else if max_payload_bytes l = 0 then zero_payload
      else if history_depth l = 0 \<or> history_depth l > max_samples l then invalid_history_depth
      else limit_none)"

section \<open>Keep-last history\<close>

datatype history_error = history_none | history_invalid_argument | history_payload_too_large

record sample_metadata =
  md_sequence_number :: u64
  md_source_timestamp_ns :: u64

record bounded_sample =
  bs_payload :: "byte list"
  bs_size :: nat
  bs_metadata :: sample_metadata

definition sample_assign ::
  "nat \<Rightarrow> bounded_sample \<Rightarrow> span \<Rightarrow> sample_metadata \<Rightarrow> (history_error \<times> bounded_sample) option" where
  "sample_assign max_payload s p md =
     (if null_span p \<and> span_size p \<noteq> 0 then Some (history_invalid_argument, s)
      else if span_size p > max_payload then Some (history_payload_too_large, s)
      else do {
        payload \<leftarrow>
          (if span_size p \<noteq> 0 then do {
             src \<leftarrow> deref p;
             src \<leftarrow> rd_block src 0 (span_size p);
             wr_block (bs_payload s) 0 src }
           else Some (bs_payload s));
        Some (history_none, s\<lparr>bs_payload := payload, bs_size := span_size p, bs_metadata := md\<rparr>) })"

record keep_last_history =
  samples :: "bounded_sample list"
  hist_size :: nat
  oldest_index :: nat
  write_index :: nat

definition history_increment :: "nat \<Rightarrow> nat \<Rightarrow> nat" where
  "history_increment depth index = (index + 1) mod depth"

definition history_push ::
  "nat \<Rightarrow> nat \<Rightarrow> keep_last_history \<Rightarrow> span \<Rightarrow> sample_metadata
   \<Rightarrow> (history_error \<times> keep_last_history) option" where
  "history_push depth max_payload h p md =
     (if null_span p \<and> span_size p \<noteq> 0 then Some (history_invalid_argument, h)
      else if span_size p > max_payload then Some (history_payload_too_large, h)
      else do {
        slot \<leftarrow> rd (samples h) (write_index h);
        (result, slot) \<leftarrow> sample_assign max_payload slot p md;
        stored \<leftarrow> wr (samples h) (write_index h) slot;
        let h = h\<lparr>samples := stored\<rparr>;
        if result \<noteq> history_none then Some (result, h)
        else
          let h = (if hist_size h = depth
                   then h\<lparr>oldest_index := history_increment depth (oldest_index h)\<rparr>
                   else h\<lparr>hist_size := hist_size h + 1\<rparr>)
          in Some (history_none, h\<lparr>write_index := history_increment depth (write_index h)\<rparr>) })"

definition history_empty :: "keep_last_history \<Rightarrow> bool" where
  "history_empty h = (hist_size h = 0)"

definition history_oldest :: "keep_last_history \<Rightarrow> bounded_sample option option" where
  "history_oldest h =
     (if history_empty h then Some None
      else do { s \<leftarrow> rd (samples h) (oldest_index h); Some (Some s) })"

definition history_newest :: "nat \<Rightarrow> keep_last_history \<Rightarrow> bounded_sample option option" where
  "history_newest depth h =
     (if history_empty h then Some None
      else
        let newest_index = (if write_index h = 0 then depth - 1 else write_index h - 1)
        in do { s \<leftarrow> rd (samples h) newest_index; Some (Some s) })"

definition history_pop_oldest :: "nat \<Rightarrow> keep_last_history \<Rightarrow> bool \<times> keep_last_history" where
  "history_pop_oldest depth h =
     (if history_empty h then (False, h)
      else (True, h\<lparr>oldest_index := history_increment depth (oldest_index h),
                    hist_size := hist_size h - 1\<rparr>))"

definition history_clear :: "keep_last_history \<Rightarrow> keep_last_history" where
  "history_clear h = h\<lparr>hist_size := 0, oldest_index := 0, write_index := 0\<rparr>"

definition empty_sample :: "nat \<Rightarrow> bounded_sample" where
  "empty_sample max_payload =
     \<lparr>bs_payload = replicate max_payload 0, bs_size = 0,
      bs_metadata = \<lparr>md_sequence_number = 0, md_source_timestamp_ns = 0\<rparr>\<rparr>"

definition history_init :: "nat \<Rightarrow> nat \<Rightarrow> keep_last_history" where
  "history_init depth max_payload =
     \<lparr>samples = replicate depth (empty_sample max_payload), hist_size = 0,
      oldest_index = 0, write_index = 0\<rparr>"

type_synonym sample_value = "byte list \<times> sample_metadata"

definition sample_view :: "bounded_sample \<Rightarrow> sample_value" where
  "sample_view s = (take (bs_size s) (bs_payload s), bs_metadata s)"

definition history_inv :: "nat \<Rightarrow> nat \<Rightarrow> keep_last_history \<Rightarrow> bool" where
  "history_inv depth max_payload h \<longleftrightarrow>
     0 < depth \<and> length (samples h) = depth \<and>
     (\<forall>s \<in> set (samples h). length (bs_payload s) = max_payload \<and> bs_size s \<le> max_payload) \<and>
     hist_size h \<le> depth \<and> oldest_index h < depth \<and> write_index h < depth \<and>
     write_index h = (oldest_index h + hist_size h) mod depth"

definition history_contents :: "nat \<Rightarrow> keep_last_history \<Rightarrow> sample_value list" where
  "history_contents depth h =
     map (\<lambda>i. sample_view (samples h ! ((oldest_index h + i) mod depth))) [0..<hist_size h]"

definition keep_last :: "nat \<Rightarrow> 'a list \<Rightarrow> 'a list" where
  "keep_last depth xs = drop (length xs - depth) xs"

lemma mod_shift_inj:
  fixes i j k d :: nat
  assumes "i < d" "j < d" "(k + i) mod d = (k + j) mod d"
  shows "i = j"
proof -
  have "\<And>a b. a \<le> b \<Longrightarrow> b < d \<Longrightarrow> (k + a) mod d = (k + b) mod d \<Longrightarrow> a = b"
  proof -
    fix a b assume "a \<le> b" "b < d" "(k + a) mod d = (k + b) mod d"
    then have "d dvd b - a"
      by (metis add_diff_cancel_left mod_eq_dvd_iff_nat nat_add_left_cancel_le)
    then show "a = b"
      using \<open>a \<le> b\<close> \<open>b < d\<close> by (metis diff_is_0_eq' le_antisym less_imp_diff_less nat_dvd_not_less not_gr_zero diff_is_0_eq)
  qed
  then show ?thesis
    using assms by (metis nle_le)
qed

lemma sample_assign_ok:
  assumes "length (bs_payload s) = max_payload" and "valid_span p"
    and "span_size p \<le> max_payload"
  shows "sample_assign max_payload s p md =
    Some (history_none, s\<lparr>bs_payload := span_bytes p @ drop (length (span_bytes p)) (bs_payload s),
                          bs_size := span_size p, bs_metadata := md\<rparr>)"
  using assms
  by (cases p) (auto simp: sample_assign_def rd_block_def wr_block_def valid_span_def)

lemma length_history_contents [simp]: "length (history_contents depth h) = hist_size h"
  by (simp add: history_contents_def)

lemma nth_history_contents:
  "i < hist_size h \<Longrightarrow>
   history_contents depth h ! i = sample_view (samples h ! ((oldest_index h + i) mod depth))"
  by (simp add: history_contents_def)

text \<open>The state a successful push reaches, in closed form.\<close>

definition pushed_sample :: "span \<Rightarrow> sample_metadata \<Rightarrow> bounded_sample \<Rightarrow> bounded_sample" where
  "pushed_sample p md s =
     s\<lparr>bs_payload := span_bytes p @ drop (length (span_bytes p)) (bs_payload s),
       bs_size := span_size p, bs_metadata := md\<rparr>"

definition history_pushed ::
  "nat \<Rightarrow> keep_last_history \<Rightarrow> span \<Rightarrow> sample_metadata \<Rightarrow> keep_last_history" where
  "history_pushed depth h p md =
     \<lparr>samples = (samples h)[write_index h := pushed_sample p md (samples h ! write_index h)],
      hist_size = (if hist_size h = depth then depth else hist_size h + 1),
      oldest_index = (if hist_size h = depth then history_increment depth (oldest_index h)
                      else oldest_index h),
      write_index = history_increment depth (write_index h)\<rparr>"

lemma history_push_eq:
  assumes "history_inv depth mx h" "valid_span p" "span_size p \<le> mx"
  shows "history_push depth mx h p md = Some (history_none, history_pushed depth h p md)"
  using assms
  by (cases h) (auto simp: history_push_def sample_assign_ok wr_def valid_span_def Let_def
    history_inv_def history_pushed_def pushed_sample_def)

lemma history_pushed_inv:
  assumes inv: "history_inv depth mx h" and p: "valid_span p" "span_size p \<le> mx"
  shows "history_inv depth mx (history_pushed depth h p md)"
proof -
  let ?w = "write_index h" and ?new = "pushed_sample p md (samples h ! write_index h)"
  from inv have w: "?w < depth" "length (samples h) = depth" and d: "0 < depth"
    and o: "oldest_index h < depth"
    and w_eq: "?w = (oldest_index h + hist_size h) mod depth"
    by (auto simp: history_inv_def)
  have "samples h ! ?w \<in> set (samples h)" using w by simp
  with inv p have "length (bs_payload ?new) = mx \<and> bs_size ?new \<le> mx"
    by (auto simp: history_inv_def pushed_sample_def length_span_bytes)
  with inv have sam: "\<forall>s \<in> set ((samples h)[?w := ?new]). length (bs_payload s) = mx \<and> bs_size s \<le> mx"
    by (auto simp: history_inv_def dest!: set_update_subset_insert [THEN subsetD])
  have "Suc (oldest_index h + depth) mod depth = Suc (oldest_index h) mod depth"
    using mod_add_self2 [of "Suc (oldest_index h)" depth] by simp
  then have "history_increment depth ?w =
      (oldest_index (history_pushed depth h p md) + hist_size (history_pushed depth h p md)) mod depth"
    using d o by (auto simp: history_increment_def history_pushed_def w_eq mod_simps)
  with sam inv show ?thesis
    by (auto simp: history_inv_def history_pushed_def history_increment_def)
qed

lemma history_pushed_nth:
  assumes inv: "history_inv depth mx h" and p: "valid_span p"
    and i: "i < hist_size (history_pushed depth h p md)"
  shows "history_contents depth (history_pushed depth h p md) ! i =
    keep_last depth (history_contents depth h @ [(span_bytes p, md)]) ! i"
proof -
  let ?w = "write_index h" and ?o = "oldest_index h" and ?n = "hist_size h"
  from inv have d: "0 < depth" and len: "length (samples h) = depth" and w: "?w < depth"
    and w_eq: "?w = (?o + ?n) mod depth" and n: "?n \<le> depth" and o: "?o < depth"
    by (auto simp: history_inv_def)
  have new: "sample_view (pushed_sample p md s) = (span_bytes p, md)" for s
    using p by (simp add: sample_view_def pushed_sample_def length_span_bytes)
  show ?thesis
  proof (cases "?n = depth")
    case True
    then have wo: "?w = ?o" and id: "i < depth"
      using w_eq o i by (simp_all add: history_pushed_def)
    have idx: "(?o + 1 + i) mod depth = (?o + (i + 1) mod depth) mod depth"
      by (simp add: mod_simps ac_simps)
    have "(?o + (i + 1) mod depth) mod depth = ?w \<longleftrightarrow> i + 1 = depth"
      using mod_shift_inj [of "(i + 1) mod depth" depth 0 ?o] d id wo o
      by (auto simp: Suc_lessI mod_Suc intro: gr0I)
    with True id d len w new idx show ?thesis
      by (cases "i + 1 = depth")
        (auto simp: keep_last_def nth_history_contents nth_append history_pushed_def
          history_increment_def mod_simps ac_simps)
  next
    case False
    then have "?n < depth" and "i < Suc ?n" using n i by (simp_all add: history_pushed_def)
    moreover from this have "(?o + i) mod depth = ?w \<longleftrightarrow> i = ?n"
      using mod_shift_inj [of i depth ?n ?o] w_eq by auto
    ultimately show ?thesis
      using False d len w new
      by (auto simp: keep_last_def nth_history_contents nth_append history_pushed_def less_Suc_eq)
  qed
qed

lemma history_pushed_contents:
  assumes "history_inv depth mx h" "valid_span p"
  shows "history_contents depth (history_pushed depth h p md) =
    keep_last depth (history_contents depth h @ [(span_bytes p, md)])"
proof (rule nth_equalityI)
  show "length (history_contents depth (history_pushed depth h p md)) =
      length (keep_last depth (history_contents depth h @ [(span_bytes p, md)]))"
    using assms by (auto simp: keep_last_def history_pushed_def history_inv_def)
qed (use assms history_pushed_nth in simp)

lemma history_oldest_contents:
  assumes "history_inv depth mx h"
  shows "history_oldest h = Some (if hist_size h = 0 then None else Some (samples h ! oldest_index h))"
    and "0 < hist_size h \<Longrightarrow> sample_view (samples h ! oldest_index h) = hd (history_contents depth h)"
  using assms
  by (auto simp: history_oldest_def history_empty_def history_inv_def hd_conv_nth
    nth_history_contents simp flip: length_greater_0_conv)

lemma history_newest_contents:
  assumes inv: "history_inv depth mx h" and n: "0 < hist_size h"
  obtains s where "history_newest depth h = Some (Some s)"
    and "sample_view s = last (history_contents depth h)"
proof -
  from inv have d: "0 < depth" and o: "oldest_index h < depth" and le: "hist_size h \<le> depth"
    and len: "length (samples h) = depth"
    and w: "write_index h = (oldest_index h + hist_size h) mod depth"
    by (auto simp: history_inv_def)
  let ?i = "if write_index h = 0 then depth - 1 else write_index h - 1"
  have "?i = (oldest_index h + (hist_size h - 1)) mod depth"
    using n d o le unfolding w
    by (cases "oldest_index h + hist_size h < depth"; cases "oldest_index h + hist_size h = depth")
      (auto simp: mod_if)
  moreover have "?i < length (samples h)"
    using d len inv by (auto simp: history_inv_def)
  ultimately show thesis
    using that [of "samples h ! ?i"] n
    by (auto simp: history_newest_def history_empty_def Let_def last_conv_nth nth_history_contents
      simp flip: length_greater_0_conv)
qed

lemma history_pop_contents:
  assumes inv: "history_inv depth mx h" and n: "0 < hist_size h"
  obtains h' where "history_pop_oldest depth h = (True, h')" "history_inv depth mx h'"
    and "history_contents depth h' = tl (history_contents depth h)"
proof
  let ?h' = "h\<lparr>oldest_index := history_increment depth (oldest_index h), hist_size := hist_size h - 1\<rparr>"
  show "history_pop_oldest depth h = (True, ?h')"
    using n by (simp add: history_pop_oldest_def history_empty_def)
  show "history_inv depth mx ?h'"
    using inv n by (cases "hist_size h") (auto simp: history_inv_def history_increment_def mod_simps)
  show "history_contents depth ?h' = tl (history_contents depth h)"
    by (rule nth_equalityI)
      (auto simp: nth_history_contents nth_tl history_increment_def mod_simps)
qed


datatype history_op = Push span sample_metadata | Oldest | Newest | PopOldest | Clear

datatype history_result =
  HistoryCode history_error | HistorySample "sample_value option" | HistoryBool bool | HistoryUnit

fun history_step ::
  "nat \<Rightarrow> nat \<Rightarrow> history_op \<Rightarrow> keep_last_history \<Rightarrow> (history_result \<times> keep_last_history) option" where
  "history_step depth mx (Push p md) h = do {
     (e, h) \<leftarrow> history_push depth mx h p md; Some (HistoryCode e, h) }"
| "history_step depth mx Oldest h = do {
     s \<leftarrow> history_oldest h; Some (HistorySample (map_option sample_view s), h) }"
| "history_step depth mx Newest h = do {
     s \<leftarrow> history_newest depth h; Some (HistorySample (map_option sample_view s), h) }"
| "history_step depth mx PopOldest h =
     (let (b, h) = history_pop_oldest depth h in Some (HistoryBool b, h))"
| "history_step depth mx Clear h = Some (HistoryUnit, history_clear h)"

fun keep_last_spec ::
  "nat \<Rightarrow> nat \<Rightarrow> history_op \<Rightarrow> sample_value list \<Rightarrow> history_result \<times> sample_value list" where
  "keep_last_spec depth mx (Push p md) xs =
     (if \<not> valid_span p then (HistoryCode history_invalid_argument, xs)
      else if span_size p > mx then (HistoryCode history_payload_too_large, xs)
      else (HistoryCode history_none, keep_last depth (xs @ [(span_bytes p, md)])))"
| "keep_last_spec depth mx Oldest xs = (HistorySample (if xs = [] then None else Some (hd xs)), xs)"
| "keep_last_spec depth mx Newest xs = (HistorySample (if xs = [] then None else Some (last xs)), xs)"
| "keep_last_spec depth mx PopOldest xs = (HistoryBool (xs \<noteq> []), tl xs)"
| "keep_last_spec depth mx Clear xs = (HistoryUnit, [])"

lemma history_contents_Nil [simp]: "history_contents depth h = [] \<longleftrightarrow> hist_size h = 0"
  by (simp add: history_contents_def)

lemma history_step_refines:
  assumes inv: "history_inv depth mx h"
  shows "\<exists>r h'. history_step depth mx x h = Some (r, h') \<and> history_inv depth mx h' \<and>
    keep_last_spec depth mx x (history_contents depth h) = (r, history_contents depth h')"
proof (cases x)
  case (Push p md)
  show ?thesis
  proof (cases "valid_span p \<and> span_size p \<le> mx")
    case True
    with inv Push show ?thesis
      by (simp add: history_push_eq history_pushed_inv history_pushed_contents)
  next
    case False
    with inv Push show ?thesis by (auto simp: history_push_def valid_span_def)
  qed
next
  case Oldest
  with inv history_oldest_contents [OF inv] show ?thesis by auto
next
  case Newest
  show ?thesis
  proof (cases "hist_size h = 0")
    case True
    with inv Newest show ?thesis by (simp add: history_newest_def history_empty_def)
  next
    case False
    then obtain s where "history_newest depth h = Some (Some s)"
      "sample_view s = last (history_contents depth h)"
      using history_newest_contents [OF inv] by auto
    with inv Newest False show ?thesis by simp
  qed
next
  case PopOldest
  show ?thesis
  proof (cases "hist_size h = 0")
    case True
    with inv PopOldest show ?thesis
      by (simp add: history_pop_oldest_def history_empty_def history_contents_def)
  next
    case False
    then have "0 < hist_size h" by simp
    from history_pop_contents [OF inv this] obtain h' where
      "history_pop_oldest depth h = (True, h')" "history_inv depth mx h'"
      "history_contents depth h' = tl (history_contents depth h)" .
    with PopOldest False show ?thesis by simp
  qed
next
  case Clear
  with inv show ?thesis by (auto simp: history_clear_def history_inv_def history_contents_def)
qed

interpretation keep_last_ring: refinement
  "history_inv depth mx" "history_contents depth" "history_step depth mx" "keep_last_spec depth mx"
  for depth mx
  by unfold_locales (rule history_step_refines)

lemma history_init_inv: "0 < depth \<Longrightarrow> history_inv depth mx (history_init depth mx)"
  by (auto simp: history_inv_def history_init_def empty_sample_def)

lemma history_init_contents [simp]: "history_contents depth (history_init depth mx) = []"
  by (simp add: history_init_def history_contents_def)

section \<open>Static pool\<close>

text \<open>A pointer to a pool object is the index of its slot.\<close>

record 'a static_pool =
  pool_storage :: "'a list"
  pool_used :: "bool list"
  pool_size :: nat

definition pool_acquire :: "'a static_pool \<Rightarrow> 'a \<Rightarrow> nat option \<times> 'a static_pool" where
  "pool_acquire p x =
     (case find_index Not (pool_used p) of
        None \<Rightarrow> (None, p)
      | Some i \<Rightarrow> (Some i, p\<lparr>pool_storage := (pool_storage p)[i := x],
                            pool_used := (pool_used p)[i := True],
                            pool_size := pool_size p + 1\<rparr>))"

definition pool_release :: "'a static_pool \<Rightarrow> nat option \<Rightarrow> bool \<times> 'a static_pool" where
  "pool_release p obj =
     (case obj of
        None \<Rightarrow> (False, p)
      | Some a \<Rightarrow>
          (case find_index (\<lambda>i. pool_used p ! i \<and> i = a) [0..<length (pool_used p)] of
             None \<Rightarrow> (False, p)
           | Some i \<Rightarrow> (True, p\<lparr>pool_used := (pool_used p)[i := False],
                                pool_size := pool_size p - 1\<rparr>)))"

definition pool_clear :: "'a static_pool \<Rightarrow> 'a static_pool" where
  "pool_clear p = p\<lparr>pool_used := map (\<lambda>u. False) (pool_used p), pool_size := 0\<rparr>"

definition pool_init :: "'a list \<Rightarrow> 'a static_pool" where
  "pool_init raw = \<lparr>pool_storage = raw, pool_used = replicate (length raw) False, pool_size = 0\<rparr>"

definition pool_inv :: "nat \<Rightarrow> 'a static_pool \<Rightarrow> bool" where
  "pool_inv capacity p \<longleftrightarrow>
     length (pool_storage p) = capacity \<and> length (pool_used p) = capacity \<and>
     pool_size p = length (filter id (pool_used p))"

definition pool_objects :: "'a static_pool \<Rightarrow> nat \<rightharpoonup> 'a" where
  "pool_objects p = (\<lambda>i. if i < length (pool_used p) \<and> pool_used p ! i then Some (pool_storage p ! i) else None)"

datatype 'a pool_op = Acquire 'a | Release "nat option" | ClearPool | Size

datatype pool_result = PoolPointer "nat option" | PoolBool bool | PoolUnit | PoolSize nat

fun pool_step :: "'a pool_op \<Rightarrow> 'a static_pool \<Rightarrow> (pool_result \<times> 'a static_pool) option" where
  "pool_step (Acquire x) p = (let (r, p) = pool_acquire p x in Some (PoolPointer r, p))"
| "pool_step (Release a) p = (let (b, p) = pool_release p a in Some (PoolBool b, p))"
| "pool_step ClearPool p = Some (PoolUnit, pool_clear p)"
| "pool_step Size p = Some (PoolSize (pool_size p), p)"

fun pool_spec :: "nat \<Rightarrow> 'a pool_op \<Rightarrow> (nat \<rightharpoonup> 'a) \<Rightarrow> pool_result \<times> (nat \<rightharpoonup> 'a)" where
  "pool_spec capacity (Acquire x) m =
     (case find_index (\<lambda>i. m i = None) [0..<capacity] of
        None \<Rightarrow> (PoolPointer None, m)
      | Some i \<Rightarrow> (PoolPointer (Some i), m(i \<mapsto> x)))"
| "pool_spec capacity (Release a) m =
     (case a of
        None \<Rightarrow> (PoolBool False, m)
      | Some i \<Rightarrow> if m i = None then (PoolBool False, m) else (PoolBool True, m(i := None)))"
| "pool_spec capacity ClearPool m = (PoolUnit, Map.empty)"
| "pool_spec capacity Size m = (PoolSize (card (dom m)), m)"

lemma card_true: "card {i. i < length us \<and> us ! i} = length (filter id us)"
  by (simp add: length_filter_conv_card)

lemma pool_acquire_refines:
  assumes inv: "pool_inv n p"
  shows "\<exists>r p'. pool_acquire p x = (r, p') \<and> pool_inv n p' \<and>
    pool_spec n (Acquire x) (pool_objects p) = (PoolPointer r, pool_objects p')"
proof -
  from inv have len: "length (pool_used p) = n" "length (pool_storage p) = n"
    by (auto simp: pool_inv_def)
  have "find_index (\<lambda>i. pool_objects p i = None) [0..<n] = find_index (\<lambda>i. \<not> pool_used p ! i) [0..<n]"
    using len by (intro find_index_cong) (auto simp: pool_objects_def)
  with find_index_nth [of Not "pool_used p"] len
  have free: "find_index (\<lambda>i. pool_objects p i = None) [0..<n] = find_index Not (pool_used p)"
    by simp
  show ?thesis
  proof (cases "find_index Not (pool_used p)")
    case None
    then show ?thesis using inv free by (auto simp: pool_acquire_def)
  next
    case (Some i)
    then have i: "i < n" "\<not> pool_used p ! i" using len by (auto simp: find_index_Some)
    let ?p' = "p\<lparr>pool_storage := (pool_storage p)[i := x], pool_used := (pool_used p)[i := True],
                 pool_size := pool_size p + 1\<rparr>"
    have "pool_inv n ?p'"
      using inv i len by (auto simp: pool_inv_def count_update_add)
    moreover have "pool_objects ?p' = (pool_objects p)(i \<mapsto> x)"
      using i len by (auto simp: pool_objects_def fun_eq_iff nth_list_update)
    ultimately show ?thesis using Some free by (simp add: pool_acquire_def)
  qed
qed

lemma pool_release_refines:
  assumes inv: "pool_inv n p"
  shows "\<exists>r p'. pool_release p a = (r, p') \<and> pool_inv n p' \<and>
    pool_spec n (Release a) (pool_objects p) = (PoolBool r, pool_objects p')"
proof (cases a)
  case None
  with inv show ?thesis by (auto simp: pool_release_def)
next
  case (Some i)
  from inv have len: "length (pool_used p) = n" by (auto simp: pool_inv_def)
  show ?thesis
  proof (cases "i < n \<and> pool_used p ! i")
    case True
    then have "find_index (\<lambda>j. pool_used p ! j \<and> j = i) [0..<length (pool_used p)] = Some i"
      using len by (auto simp: find_index_Some)
    moreover have "pool_inv n (p\<lparr>pool_used := (pool_used p)[i := False], pool_size := pool_size p - 1\<rparr>)"
      using inv True len count_update_del [of i "pool_used p" id False] by (auto simp: pool_inv_def)
    moreover have "pool_objects (p\<lparr>pool_used := (pool_used p)[i := False], pool_size := pool_size p - 1\<rparr>) =
        (pool_objects p)(i := None)"
      using True len by (auto simp: pool_objects_def fun_eq_iff nth_list_update)
    moreover have "pool_objects p i \<noteq> None"
      using True len by (simp add: pool_objects_def)
    ultimately show ?thesis
      using Some by (intro exI [of _ True]) (simp add: pool_release_def)
  next
    case False
    then have "find_index (\<lambda>j. pool_used p ! j \<and> j = i) [0..<length (pool_used p)] = None"
      using len by (auto simp: find_index_None)
    moreover have "pool_objects p i = None"
      using False len by (auto simp: pool_objects_def)
    ultimately show ?thesis
      using Some inv by (intro exI [of _ False]) (simp add: pool_release_def)
  qed
qed

lemma pool_step_refines:
  assumes "pool_inv n p"
  shows "\<exists>r p'. pool_step x p = Some (r, p') \<and> pool_inv n p' \<and>
    pool_spec n x (pool_objects p) = (r, pool_objects p')"
proof (cases x)
  case (Acquire y)
  obtain r p' where "pool_acquire p y = (r, p')" "pool_inv n p'"
    "pool_spec n (Acquire y) (pool_objects p) = (PoolPointer r, pool_objects p')"
    using pool_acquire_refines [OF assms, of y] by blast
  with Acquire show ?thesis by simp
next
  case (Release a)
  obtain r p' where "pool_release p a = (r, p')" "pool_inv n p'"
    "pool_spec n (Release a) (pool_objects p) = (PoolBool r, pool_objects p')"
    using pool_release_refines [OF assms, of a] by blast
  with Release show ?thesis by simp
next
  case ClearPool
  with assms show ?thesis
    by (auto simp: pool_clear_def pool_inv_def pool_objects_def comp_def)
next
  case Size
  have "dom (pool_objects p) = {i. i < length (pool_used p) \<and> pool_used p ! i}"
    by (auto simp: pool_objects_def dom_def)
  with Size assms card_true [of "pool_used p"] show ?thesis by (simp add: pool_inv_def)
qed

interpretation pool: refinement "pool_inv n" pool_objects pool_step "pool_spec n" for n
  by unfold_locales (rule pool_step_refines)

lemma pool_init_inv: "pool_inv (length raw) (pool_init raw)"
  by (simp add: pool_inv_def pool_init_def)

lemma pool_init_objects: "pool_objects (pool_init raw) = Map.empty"
  by (auto simp: pool_objects_def pool_init_def fun_eq_iff)

section \<open>Properties\<close>

text \<open>C36: From construction on, every sequence of calls on a keep-last history of depth at least
  one stays inside its arrays, keeps its index invariant and answers exactly as a list that
  holds the most recent \<open>depth\<close> accepted samples, errors and rejected payloads included.\<close>

theorem history_refines_keep_last:
  assumes "0 < depth"
  shows "\<exists>rs h. run_ops (history_step depth mx) ops (history_init depth mx) = Some (rs, h) \<and>
    history_inv depth mx h \<and> run_spec (keep_last_spec depth mx) ops [] = (rs, history_contents depth h)"
  using keep_last_ring.run_refines [OF history_init_inv [OF assms], of mx ops] by simp

theorem history_refines_keep_last_witness:
  "let md = (\<lambda>n. \<lparr>md_sequence_number = n, md_source_timestamp_ns = 0\<rparr>) in
   \<exists>h. run_ops (history_step 2 4) [Push (Span [1]) (md 1), Push (Span [2]) (md 2), Push (Span [3]) (md 3), Oldest]
      (history_init 2 4) =
     Some ([HistoryCode history_none, HistoryCode history_none, HistoryCode history_none,
            HistorySample (Some ([2], md 2))], h)"
  using history_refines_keep_last [of 2 4 "[Push (Span [1]) \<lparr>md_sequence_number = 1, md_source_timestamp_ns = 0\<rparr>,
    Push (Span [2]) \<lparr>md_sequence_number = 2, md_source_timestamp_ns = 0\<rparr>,
    Push (Span [3]) \<lparr>md_sequence_number = 3, md_source_timestamp_ns = 0\<rparr>, Oldest]"]
  by (auto simp: keep_last_def valid_span_def Let_def)

text \<open>C37: From construction on, every sequence of calls on a static pool answers exactly as a
  partial map from slots to live objects: acquire takes the first free slot and fails only when
  every slot is live, release succeeds only on a live slot, and the size is the number of live
  objects.\<close>

theorem pool_refines_map:
  "\<exists>rs p. run_ops pool_step ops (pool_init raw) = Some (rs, p) \<and> pool_inv (length raw) p \<and>
    run_spec (pool_spec (length raw)) ops Map.empty = (rs, pool_objects p)"
  using pool.run_refines [OF pool_init_inv, of ops raw] by (simp add: pool_init_objects)

end
