(* ===== verification/Reliable_Writer.thy ===== *)
theory Reliable_Writer
  imports Reliability_Messages Storage
begin

text \<open>
  The reliable writer, class \<open>ReliableWriter\<close> of
  \<open>src/include/openrtdds/rtps/reliability_state.hpp\<close>, with the action buffer and the control
  counters of \<open>src/src/rtps/reliability_state.cpp\<close> that it shares with the reader. The template
  arguments are arguments: \<open>depth\<close> records, \<open>mx\<close> payload bytes, \<open>cap\<close> actions. An action buffer
  is the list of its first \<open>size_\<close> actions; an action's data pointer is the index of the record
  whose sample it points into, which is what aliasing with the compaction of records depends on.
\<close>

unbundle bit_operations_syntax

section \<open>Model\<close>

datatype reliability_error =
  rs_none | rs_invalid_configuration | rs_invalid_argument | rs_unexpected_peer
  | rs_invalid_sequence_number | rs_non_monotonic_sequence | rs_payload_too_large | rs_history_full
  | rs_action_capacity_exceeded | rs_stale_control | rs_duplicate_data | rs_stale_data
  | rs_receive_window_exceeded | rs_time_regression | rs_gap_not_repairable

datatype reliability_action_kind =
  ak_none | send_data | retransmit_data | send_acknack | sample_received | sample_delivered | sample_failed

datatype repair_failure = rf_none | repair_limit_exceeded | repair_window_expired

record reliability_action =
  ra_kind :: reliability_action_kind
  ra_sequence_number :: u64
  ra_reader_id :: entity_id
  ra_writer_id :: entity_id
  ra_data :: "nat option"
  ra_data_size :: nat
  ra_reader_state :: sequence_number_set
  ra_control_count :: u32
  ra_failure :: repair_failure
  ra_final_flag :: bool

definition default_action :: reliability_action where
  "default_action =
     \<lparr>ra_kind = ak_none, ra_sequence_number = 0, ra_reader_id = replicate 4 0, ra_writer_id = replicate 4 0,
      ra_data = None, ra_data_size = 0, ra_reader_state = sns_empty, ra_control_count = 0,
      ra_failure = rf_none, ra_final_flag = False\<rparr>"

type_synonym action_buffer = "reliability_action list"

definition actions_push :: "nat \<Rightarrow> reliability_action \<Rightarrow> action_buffer \<Rightarrow> bool \<times> action_buffer" where
  "actions_push cap a b = (if length b = cap then (False, b) else (True, b @ [a]))"

definition actions_remaining :: "nat \<Rightarrow> action_buffer \<Rightarrow> nat" where
  "actions_remaining cap b = cap - length b"

definition control_count_is_newer :: "u32 \<Rightarrow> u32 \<Rightarrow> bool" where
  "control_count_is_newer candidate reference =
     (let difference = candidate - reference in difference \<noteq> 0 \<and> difference < 0x80000000)"

definition next_control_count :: "u32 \<Rightarrow> u32" where
  "next_control_count count = count + 1"

definition valid_state_sequence :: "u64 \<Rightarrow> bool" where
  "valid_state_sequence n \<longleftrightarrow> n \<noteq> 0 \<and> n < INT64_MAX"

record reliable_writer_config =
  wc_reader_id :: entity_id
  wc_writer_id :: entity_id
  wc_max_repair_attempts :: byte
  wc_repair_window_ns :: u64

record writer_record =
  wr_sample :: bounded_sample
  wr_first_send_ns :: u64
  wr_repair_attempts :: byte

record reliable_writer =
  rw_config :: reliable_writer_config
  rw_records :: "writer_record list"
  rw_size :: nat
  rw_last_sequence_number :: u64
  rw_heartbeat_count :: u32
  rw_last_acknack_count :: u32
  rw_valid :: bool
  rw_acknack_count_initialized :: bool

definition reliable_writer_new :: "nat \<Rightarrow> nat \<Rightarrow> reliable_writer_config \<Rightarrow> reliable_writer" where
  "reliable_writer_new depth mx config =
     \<lparr>rw_config = config,
      rw_records = replicate depth \<lparr>wr_sample = empty_sample mx, wr_first_send_ns = 0, wr_repair_attempts = 0\<rparr>,
      rw_size = 0, rw_last_sequence_number = 0, rw_heartbeat_count = 0, rw_last_acknack_count = 0,
      rw_valid = (wc_repair_window_ns config \<noteq> 0), rw_acknack_count_initialized = False\<rparr>"

type_synonym writer_result = "(reliability_error \<times> reliable_writer \<times> action_buffer) option"

definition writer_write ::
  "nat \<Rightarrow> nat \<Rightarrow> nat \<Rightarrow> span \<Rightarrow> u64 \<Rightarrow> u64 \<Rightarrow> reliable_writer \<Rightarrow> action_buffer \<Rightarrow> writer_result" where
  "writer_write depth mx cap payload sequence_number now_ns w actions =
     (if \<not> rw_valid w then Some (rs_invalid_configuration, w, actions)
      else if null_span payload \<and> span_size payload \<noteq> 0 then Some (rs_invalid_argument, w, actions)
      else if span_size payload > mx then Some (rs_payload_too_large, w, actions)
      else if \<not> valid_state_sequence sequence_number then Some (rs_invalid_sequence_number, w, actions)
      else if rw_last_sequence_number w \<noteq> 0 \<and> sequence_number \<le> rw_last_sequence_number w
      then Some (rs_non_monotonic_sequence, w, actions)
      else if rw_size w = depth then Some (rs_history_full, w, actions)
      else if actions_remaining cap actions = 0 then Some (rs_action_capacity_exceeded, w, actions)
      else do {
        record \<leftarrow> rd (rw_records w) (rw_size w);
        (history_error, sample) \<leftarrow> sample_assign mx (wr_sample record) payload
          \<lparr>md_sequence_number = sequence_number, md_source_timestamp_ns = now_ns\<rparr>;
        let record = record\<lparr>wr_sample := sample\<rparr>;
        if history_error = history_invalid_argument then Some (rs_invalid_argument, w, actions)
        else if history_error = history_payload_too_large then Some (rs_payload_too_large, w, actions)
        else do {
          let record = record\<lparr>wr_first_send_ns := now_ns, wr_repair_attempts := 0\<rparr>;
          records \<leftarrow> wr (rw_records w) (rw_size w) record;
          let action = default_action\<lparr>ra_kind := send_data, ra_sequence_number := sequence_number,
                ra_data := Some (rw_size w), ra_data_size := bs_size (wr_sample record)\<rparr>;
          Some (rs_none,
            w\<lparr>rw_records := records, rw_size := rw_size w + 1, rw_last_sequence_number := sequence_number\<rparr>,
            snd (actions_push cap action actions)) } })"

datatype decision = Keep | Deliver | Repair | FailWindow | FailAttempts

definition record_sequence :: "writer_record \<Rightarrow> u64" where
  "record_sequence r = md_sequence_number (bs_metadata (wr_sample r))"

definition writer_decision ::
  "reliable_writer_config \<Rightarrow> sequence_number_set \<Rightarrow> u64 \<Rightarrow> writer_record \<Rightarrow> (reliability_error + decision) option" where
  "writer_decision config state now_ns r =
     (let sequence_number = record_sequence r
      in if sequence_number < sns_bitmap_base state then Some (Inr Deliver)
         else
           let offset = sequence_number - sns_bitmap_base state
           in if offset < ucast (sns_num_bits state) then do {
                requested \<leftarrow> sns_test (ucast offset) state;
                if \<not> requested then Some (Inr Deliver)
                else if now_ns < wr_first_send_ns r then Some (Inl rs_time_regression)
                else
                  let elapsed = now_ns - wr_first_send_ns r
                  in if elapsed \<ge> wc_repair_window_ns config then Some (Inr FailWindow)
                     else if wr_repair_attempts r \<ge> wc_max_repair_attempts config
                     then Some (Inr FailAttempts)
                     else Some (Inr Repair) }
              else Some (Inr Keep))"

text \<open>The first loop of \<open>on_acknack\<close>, from \<open>index\<close> for \<open>count\<close> records, with its early return.\<close>

fun writer_decisions ::
  "reliable_writer \<Rightarrow> sequence_number_set \<Rightarrow> u64 \<Rightarrow> nat \<Rightarrow> nat \<Rightarrow> (reliability_error + decision list) option" where
  "writer_decisions w state now_ns index 0 = Some (Inr [])"
| "writer_decisions w state now_ns index (Suc count) = do {
     r \<leftarrow> rd (rw_records w) index;
     d \<leftarrow> writer_decision (rw_config w) state now_ns r;
     case d of
       Inl e \<Rightarrow> Some (Inl e)
     | Inr d \<Rightarrow> do {
         ds \<leftarrow> writer_decisions w state now_ns (index + 1) count;
         Some (map_sum (\<lambda>e. e) ((#) d) ds) } }"

text \<open>One iteration of the second loop: records, destination and actions.\<close>

type_synonym compaction = "writer_record list \<times> nat \<times> action_buffer"

definition acknack_step :: "nat \<Rightarrow> decision list \<Rightarrow> nat \<Rightarrow> compaction \<Rightarrow> compaction option" where
  "acknack_step cap decisions index = (\<lambda>(records, destination, actions). do {
     d \<leftarrow> rd decisions index;
     r \<leftarrow> rd records index;
     let sequence_number = record_sequence r;
     if d = Keep \<or> d = Repair then do {
       records \<leftarrow> (if destination \<noteq> index then wr records destination r else Some records);
       retained \<leftarrow> rd records destination;
       (records, actions) \<leftarrow>
         (if d = Repair then do {
            records \<leftarrow> wr records destination (retained\<lparr>wr_repair_attempts := wr_repair_attempts retained + 1\<rparr>);
            Some (records, snd (actions_push cap (default_action\<lparr>ra_kind := retransmit_data,
              ra_sequence_number := sequence_number, ra_data := Some destination,
              ra_data_size := bs_size (wr_sample retained)\<rparr>) actions)) }
          else Some (records, actions));
       Some (records, destination + 1, actions) }
     else
       let action = default_action\<lparr>ra_sequence_number := sequence_number,
             ra_kind := (if d = Deliver then sample_delivered else sample_failed),
             ra_failure := (if d = Deliver then rf_none
                            else if d = FailWindow then repair_window_expired else repair_limit_exceeded)\<rparr>
       in Some (records, destination, snd (actions_push cap action actions)) })"

definition writer_on_acknack ::
  "nat \<Rightarrow> acknack \<Rightarrow> u64 \<Rightarrow> reliable_writer \<Rightarrow> action_buffer \<Rightarrow> writer_result" where
  "writer_on_acknack cap an now_ns w actions =
     (if \<not> rw_valid w then Some (rs_invalid_configuration, w, actions)
      else if an_reader_id an \<noteq> wc_reader_id (rw_config w) \<or> an_writer_id an \<noteq> wc_writer_id (rw_config w)
      then Some (rs_unexpected_peer, w, actions)
      else if rw_acknack_count_initialized w \<and> \<not> control_count_is_newer (an_count an) (rw_last_acknack_count w)
      then Some (rs_stale_control, w, actions)
      else do {
        decisions \<leftarrow> writer_decisions w (an_reader_state an) now_ns 0 (rw_size w);
        case decisions of
          Inl e \<Rightarrow> Some (e, w, actions)
        | Inr decisions \<Rightarrow>
            let required_actions = length (filter (\<lambda>d. d \<noteq> Keep) decisions)
            in if required_actions > actions_remaining cap actions
               then Some (rs_action_capacity_exceeded, w, actions)
               else do {
                 (records, destination, actions) \<leftarrow>
                   for_loop 0 (rw_size w) (acknack_step cap decisions) (rw_records w, 0, actions);
                 Some (rs_none,
                   w\<lparr>rw_records := records, rw_size := destination, rw_last_acknack_count := an_count an,
                     rw_acknack_count_initialized := True\<rparr>, actions) } })"

definition record_expired :: "reliable_writer_config \<Rightarrow> u64 \<Rightarrow> writer_record \<Rightarrow> bool" where
  "record_expired config now_ns r \<longleftrightarrow> now_ns - wr_first_send_ns r \<ge> wc_repair_window_ns config"

text \<open>The first loop of \<open>on_timer\<close>, counting the expired records unless time regressed.\<close>

fun timer_expired ::
  "reliable_writer \<Rightarrow> u64 \<Rightarrow> nat \<Rightarrow> nat \<Rightarrow> (reliability_error + nat) option" where
  "timer_expired w now_ns index 0 = Some (Inr 0)"
| "timer_expired w now_ns index (Suc count) = do {
     r \<leftarrow> rd (rw_records w) index;
     if now_ns < wr_first_send_ns r then Some (Inl rs_time_regression)
     else do {
       n \<leftarrow> timer_expired w now_ns (index + 1) count;
       Some (map_sum (\<lambda>e. e) (\<lambda>n. if record_expired (rw_config w) now_ns r then n + 1 else n) n) } }"

definition timer_step :: "nat \<Rightarrow> reliable_writer_config \<Rightarrow> u64 \<Rightarrow> nat \<Rightarrow> compaction \<Rightarrow> compaction option" where
  "timer_step cap config now_ns index = (\<lambda>(records, destination, actions). do {
     r \<leftarrow> rd records index;
     if record_expired config now_ns r then
       Some (records, destination, snd (actions_push cap (default_action\<lparr>ra_kind := sample_failed,
         ra_sequence_number := record_sequence r, ra_failure := repair_window_expired\<rparr>) actions))
     else do {
       records \<leftarrow> (if destination \<noteq> index then wr records destination r else Some records);
       Some (records, destination + 1, actions) } })"

definition writer_on_timer :: "nat \<Rightarrow> u64 \<Rightarrow> reliable_writer \<Rightarrow> action_buffer \<Rightarrow> writer_result" where
  "writer_on_timer cap now_ns w actions =
     (if \<not> rw_valid w then Some (rs_invalid_configuration, w, actions)
      else do {
        expired \<leftarrow> timer_expired w now_ns 0 (rw_size w);
        case expired of
          Inl e \<Rightarrow> Some (e, w, actions)
        | Inr expired \<Rightarrow>
            if expired > actions_remaining cap actions then Some (rs_action_capacity_exceeded, w, actions)
            else do {
              (records, destination, actions) \<leftarrow>
                for_loop 0 (rw_size w) (timer_step cap (rw_config w) now_ns) (rw_records w, 0, actions);
              Some (rs_none, w\<lparr>rw_records := records, rw_size := destination\<rparr>, actions) } })"

definition writer_fill_heartbeat ::
  "heartbeat \<Rightarrow> reliable_writer \<Rightarrow> (reliability_error \<times> heartbeat \<times> reliable_writer) option" where
  "writer_fill_heartbeat hb w =
     (if \<not> rw_valid w then Some (rs_invalid_configuration, hb, w)
      else do {
        first \<leftarrow> (if rw_size w = 0 then Some (rw_last_sequence_number w + 1)
                  else map_option record_sequence (rd (rw_records w) 0));
        let count = next_control_count (rw_heartbeat_count w);
        Some (rs_none,
          hb\<lparr>hb_first_sequence_number := first, hb_last_sequence_number := rw_last_sequence_number w,
             hb_reader_id := wc_reader_id (rw_config w), hb_writer_id := wc_writer_id (rw_config w),
             hb_count := count\<rparr>,
          w\<lparr>rw_heartbeat_count := count\<rparr>) })"

definition writer_repair_attempts :: "nat \<Rightarrow> reliable_writer \<Rightarrow> byte option" where
  "writer_repair_attempts index w =
     (if index < rw_size w then map_option wr_repair_attempts (rd (rw_records w) index) else Some 0)"

type_synonym fate = "nat \<Rightarrow> writer_record \<Rightarrow> writer_record option \<times> reliability_action list"

fun compact :: "fate \<Rightarrow> nat \<Rightarrow> writer_record list \<Rightarrow> writer_record list \<times> reliability_action list" where
  "compact fate destination [] = ([], [])"
| "compact fate destination (r # rs) =
     (case fate destination r of
        (None, as) \<Rightarrow> (case compact fate destination rs of (kept, bs) \<Rightarrow> (kept, as @ bs))
      | (Some r', as) \<Rightarrow> (case compact fate (destination + 1) rs of (kept, bs) \<Rightarrow> (r' # kept, as @ bs)))"

definition sns_requests :: "sequence_number_set \<Rightarrow> u64 \<Rightarrow> bool" where
  "sns_requests state n \<longleftrightarrow> sns_bitmap_base state \<le> n \<and>
     n - sns_bitmap_base state < ucast (sns_num_bits state) \<and> sns_bit state (unat (n - sns_bitmap_base state))"

definition sns_acknowledges :: "sequence_number_set \<Rightarrow> u64 \<Rightarrow> bool" where
  "sns_acknowledges state n \<longleftrightarrow> n < sns_bitmap_base state \<or>
     n - sns_bitmap_base state < ucast (sns_num_bits state) \<and> \<not> sns_bit state (unat (n - sns_bitmap_base state))"

definition record_decision ::
  "reliable_writer_config \<Rightarrow> sequence_number_set \<Rightarrow> u64 \<Rightarrow> writer_record \<Rightarrow> decision" where
  "record_decision config state now_ns r =
     (if sns_acknowledges state (record_sequence r) then Deliver
      else if \<not> sns_requests state (record_sequence r) then Keep
      else if record_expired config now_ns r then FailWindow
      else if wc_max_repair_attempts config \<le> wr_repair_attempts r then FailAttempts
      else Repair)"

definition record_regresses :: "sequence_number_set \<Rightarrow> u64 \<Rightarrow> writer_record \<Rightarrow> bool" where
  "record_regresses state now_ns r \<longleftrightarrow> sns_requests state (record_sequence r) \<and> now_ns < wr_first_send_ns r"

definition outcome_action :: "reliability_action_kind \<Rightarrow> repair_failure \<Rightarrow> writer_record \<Rightarrow> reliability_action" where
  "outcome_action kind failure r =
     default_action\<lparr>ra_kind := kind, ra_sequence_number := record_sequence r, ra_failure := failure\<rparr>"

definition data_action :: "reliability_action_kind \<Rightarrow> nat \<Rightarrow> writer_record \<Rightarrow> reliability_action" where
  "data_action kind slot r =
     default_action\<lparr>ra_kind := kind, ra_sequence_number := record_sequence r, ra_data := Some slot,
       ra_data_size := bs_size (wr_sample r)\<rparr>"

fun decision_fate :: "decision \<Rightarrow> fate" where
  "decision_fate Keep destination r = (Some r, [])"
| "decision_fate Repair destination r =
     (Some (r\<lparr>wr_repair_attempts := wr_repair_attempts r + 1\<rparr>), [data_action retransmit_data destination r])"
| "decision_fate Deliver destination r = (None, [outcome_action sample_delivered rf_none r])"
| "decision_fate FailWindow destination r = (None, [outcome_action sample_failed repair_window_expired r])"
| "decision_fate FailAttempts destination r = (None, [outcome_action sample_failed repair_limit_exceeded r])"

definition fates :: "(writer_record \<Rightarrow> decision) \<Rightarrow> fate" where
  "fates f destination r = decision_fate (f r) destination r"

definition timer_decision :: "reliable_writer_config \<Rightarrow> u64 \<Rightarrow> writer_record \<Rightarrow> decision" where
  "timer_decision config now_ns r = (if record_expired config now_ns r then FailWindow else Keep)"

definition timer_regresses :: "u64 \<Rightarrow> writer_record \<Rightarrow> bool" where
  "timer_regresses now_ns r \<longleftrightarrow> now_ns < wr_first_send_ns r"

definition writer_live :: "reliable_writer \<Rightarrow> writer_record list" where
  "writer_live w = take (rw_size w) (rw_records w)"

definition writer_inv :: "nat \<Rightarrow> nat \<Rightarrow> reliable_writer \<Rightarrow> bool" where
  "writer_inv depth mx w \<longleftrightarrow>
     length (rw_records w) = depth \<and> rw_size w \<le> depth \<and>
     (\<forall>r \<in> set (rw_records w). length (bs_payload (wr_sample r)) = mx \<and> bs_size (wr_sample r) \<le> mx) \<and>
     sorted_wrt (<) (map record_sequence (writer_live w)) \<and>
     (\<forall>r \<in> set (writer_live w). valid_state_sequence (record_sequence r) \<and>
        record_sequence r \<le> rw_last_sequence_number w \<and>
        wr_repair_attempts r \<le> wc_max_repair_attempts (rw_config w)) \<and>
     rw_last_sequence_number w < INT64_MAX"

definition action_count :: "reliability_action_kind list \<Rightarrow> u64 \<Rightarrow> reliability_action list \<Rightarrow> nat" where
  "action_count kinds n as = length (filter (\<lambda>a. ra_kind a \<in> set kinds \<and> ra_sequence_number a = n) as)"

abbreviation "sends \<equiv> action_count [send_data]"

abbreviation "retransmissions \<equiv> action_count [retransmit_data]"

abbreviation "outcomes \<equiv> action_count [sample_delivered, sample_failed]"

definition record_count :: "u64 \<Rightarrow> writer_record list \<Rightarrow> nat" where
  "record_count n rs = length (filter (\<lambda>r. record_sequence r = n) rs)"

definition writer_kept :: "(writer_record \<Rightarrow> decision) \<Rightarrow> reliable_writer \<Rightarrow> reliable_writer" where
  "writer_kept f w =
     (let kept = fst (compact (fates f) 0 (writer_live w))
      in w\<lparr>rw_records := kept @ drop (length kept) (rw_records w), rw_size := length kept\<rparr>)"

definition writer_actions :: "(writer_record \<Rightarrow> decision) \<Rightarrow> reliable_writer \<Rightarrow> reliability_action list" where
  "writer_actions f w = snd (compact (fates f) 0 (writer_live w))"

abbreviation acknack_decision :: "acknack \<Rightarrow> u64 \<Rightarrow> reliable_writer \<Rightarrow> writer_record \<Rightarrow> decision" where
  "acknack_decision an now_ns w \<equiv> record_decision (rw_config w) (an_reader_state an) now_ns"

definition written_record :: "span \<Rightarrow> u64 \<Rightarrow> u64 \<Rightarrow> writer_record \<Rightarrow> writer_record" where
  "written_record payload n now_ns r =
     r\<lparr>wr_sample := (wr_sample r)
        \<lparr>bs_payload := span_bytes payload @ drop (length (span_bytes payload)) (bs_payload (wr_sample r)),
         bs_size := span_size payload,
         bs_metadata := \<lparr>md_sequence_number = n, md_source_timestamp_ns = now_ns\<rparr>\<rparr>,
      wr_first_send_ns := now_ns, wr_repair_attempts := 0\<rparr>"

definition writer_written :: "span \<Rightarrow> u64 \<Rightarrow> u64 \<Rightarrow> reliable_writer \<Rightarrow> reliable_writer" where
  "writer_written payload n now_ns w =
     w\<lparr>rw_records := (rw_records w)[rw_size w := written_record payload n now_ns (rw_records w ! rw_size w)],
       rw_size := rw_size w + 1, rw_last_sequence_number := n\<rparr>"

datatype writer_op =
  WriteSample span u64 u64 | OnAckNack acknack u64 | OnTimer u64 | FillHeartbeat heartbeat

type_synonym writer_output = "reliability_error \<times> action_buffer \<times> heartbeat option"

fun writer_step ::
  "nat \<Rightarrow> nat \<Rightarrow> nat \<Rightarrow> writer_op \<Rightarrow> reliable_writer \<Rightarrow> (writer_output \<times> reliable_writer) option" where
  "writer_step depth mx cap (WriteSample payload n now_ns) w =
     map_option (\<lambda>(e, w, as). ((e, as, None), w)) (writer_write depth mx cap payload n now_ns w [])"
| "writer_step depth mx cap (OnAckNack an now_ns) w =
     map_option (\<lambda>(e, w, as). ((e, as, None), w)) (writer_on_acknack cap an now_ns w [])"
| "writer_step depth mx cap (OnTimer now_ns) w =
     map_option (\<lambda>(e, w, as). ((e, as, None), w)) (writer_on_timer cap now_ns w [])"
| "writer_step depth mx cap (FillHeartbeat hb) w =
     map_option (\<lambda>(e, hb, w). ((e, [], Some hb), w)) (writer_fill_heartbeat hb w)"

fun writer_op_ok :: "writer_op \<Rightarrow> bool" where
  "writer_op_ok (OnAckNack an now_ns) = sns_wf (an_reader_state an)"
| "writer_op_ok op = True"

definition sample_accounted :: "reliable_writer \<Rightarrow> reliability_action list \<Rightarrow> u64 \<Rightarrow> bool" where
  "sample_accounted w tr n \<longleftrightarrow>
     sends n tr = record_count n (writer_live w) + outcomes n tr \<and> sends n tr \<le> 1 \<and>
     (rw_last_sequence_number w < n \<longrightarrow> sends n tr = 0) \<and>
     (sends n tr = 0 \<longrightarrow> retransmissions n tr = 0) \<and>
     retransmissions n tr \<le> unat (wc_max_repair_attempts (rw_config w))"

definition trace_inv :: "reliable_writer \<Rightarrow> reliability_action list \<Rightarrow> bool" where
  "trace_inv w tr \<longleftrightarrow> (\<forall>n. sample_accounted w tr n) \<and>
     (\<forall>r \<in> set (writer_live w). retransmissions (record_sequence r) tr = unat (wr_repair_attempts r))"

definition writer_trace :: "writer_output list \<Rightarrow> reliability_action list" where
  "writer_trace rs = concat (map (\<lambda>(e, as, hb). as) rs)"

definition demo_writer_config :: reliable_writer_config where
  "demo_writer_config = \<lparr>wc_reader_id = [0, 0, 1, 4], wc_writer_id = [0, 0, 1, 3],
     wc_max_repair_attempts = 1, wc_repair_window_ns = 100\<rparr>"

fun decision_outcome :: "decision \<Rightarrow> reliability_action_kind \<times> repair_failure" where
  "decision_outcome Keep = (ak_none, rf_none)"
| "decision_outcome Deliver = (sample_delivered, rf_none)"
| "decision_outcome Repair = (retransmit_data, rf_none)"
| "decision_outcome FailWindow = (sample_failed, repair_window_expired)"
| "decision_outcome FailAttempts = (sample_failed, repair_limit_exceeded)"

definition action_summary :: "reliability_action \<Rightarrow> u64 \<times> reliability_action_kind \<times> repair_failure" where
  "action_summary a = (ra_sequence_number a, ra_kind a, ra_failure a)"

definition retained_record :: "decision \<Rightarrow> writer_record \<Rightarrow> writer_record" where
  "retained_record d r = (if d = Repair then r\<lparr>wr_repair_attempts := wr_repair_attempts r + 1\<rparr> else r)"

definition retains :: "decision \<Rightarrow> bool" where
  "retains d \<longleftrightarrow> d = Keep \<or> d = Repair"

definition demo_writer :: reliable_writer where
  "demo_writer = snd (the (run_ops (writer_step 4 8 8)
     [WriteSample (Span [1]) 6 0, WriteSample (Span [2]) 38 5] (reliable_writer_new 4 8 demo_writer_config)))"

section \<open>Compaction\<close>

text \<open>
  Both \<open>on_acknack\<close> and \<open>on_timer\<close> compact the records in place. A compaction is determined by
  the fate of each record: what is kept of it, if anything, when it is moved to slot \<open>destination\<close>,
  and the actions that its turn pushes.
\<close>

locale compaction =
  fixes step :: "nat \<Rightarrow> compaction \<Rightarrow> compaction option"
    and fate :: fate
    and live :: "writer_record list"
    and cap :: nat
  assumes step_fate:
    "index < length live \<Longrightarrow> index < length records \<Longrightarrow> records ! index = live ! index \<Longrightarrow>
     destination \<le> index \<Longrightarrow> length actions + length (snd (fate destination (live ! index))) \<le> cap \<Longrightarrow>
     step index (records, destination, actions) =
       Some (case fate destination (live ! index) of
               (None, as) \<Rightarrow> (records, destination, actions @ as)
             | (Some r, as) \<Rightarrow> (records[destination := r], destination + 1, actions @ as))"
begin

lemma loop_compacts_from:
  assumes "index + count = length live" "destination \<le> index" "length live \<le> length records"
    and "drop index live = take count (drop index records)"
    and "length actions + length (snd (compact fate destination (drop index live))) \<le> cap"
  shows "for_loop index count step (records, destination, actions) =
    (case compact fate destination (drop index live) of
       (kept, as) \<Rightarrow> Some (take destination records @ kept @ drop (destination + length kept) records,
                          destination + length kept, actions @ as))"
  using assms
proof (induction count arbitrary: index destination records actions)
  case 0
  then show ?case by simp
next
  case (Suc count)
  have less: "index < length live" "index < length records" using Suc.prems by auto
  have here: "records ! index = live ! index"
    using arg_cong [OF Suc.prems(4), of "\<lambda>xs. xs ! 0"] less by simp
  have rest: "drop (Suc index) live = take count (drop (Suc index) records)"
    using arg_cong [OF Suc.prems(4), of tl] less by (simp add: drop_Suc tl_take tl_drop)
  have live: "drop index live = live ! index # drop (Suc index) live"
    using less by (simp add: Cons_nth_drop_Suc)
  obtain kept_here as where f: "fate destination (live ! index) = (kept_here, as)" by fastforce
  have room: "length actions + length (snd (compact fate destination (live ! index # drop (Suc index) live))) \<le> cap"
    using Suc.prems(5) by (simp only: live)
  then have "length actions + length as \<le> cap"
    using f by (auto split: option.splits prod.splits)
  then have step: "step index (records, destination, actions) =
      Some (case (kept_here, as) of
               (None, as) \<Rightarrow> (records, destination, actions @ as)
             | (Some r, as) \<Rightarrow> (records[destination := r], destination + 1, actions @ as))"
    using step_fate [OF less here Suc.prems(2)] f by simp
  show ?case
  proof (cases kept_here)
    case None
    have "for_loop (Suc index) count step (records, destination, actions @ as) =
      (case compact fate destination (drop (Suc index) live) of
       (kept, bs) \<Rightarrow> Some (take destination records @ kept @ drop (destination + length kept) records,
                          destination + length kept, (actions @ as) @ bs))"
      by (rule Suc.IH) (use Suc.prems(1-3) rest room f None in \<open>auto split: prod.splits\<close>)
    then show ?thesis using None f by (simp add: step live split: prod.splits)
  next
    case (Some r)
    have "for_loop (Suc index) count step (records[destination := r], destination + 1, actions @ as) =
      (case compact fate (destination + 1) (drop (Suc index) live) of
       (kept, bs) \<Rightarrow> Some (take (destination + 1) (records[destination := r]) @ kept @
                            drop (destination + 1 + length kept) (records[destination := r]),
                          destination + 1 + length kept, (actions @ as) @ bs))"
      by (rule Suc.IH) (use Suc.prems(1-3) rest room f Some in \<open>auto split: prod.splits\<close>)
    moreover have "take (destination + 1) (records[destination := r]) = take destination records @ [r]"
      using less Suc.prems(2) by (simp add: take_Suc_conv_app_nth)
    ultimately show ?thesis using Some f by (simp add: step live split: prod.splits)
  qed
qed

lemma loop_compacts:
  assumes "take (length live) records = live" "length live \<le> length records"
    and "compact fate 0 live = (kept, as)" "length actions + length as \<le> cap"
  shows "for_loop 0 (length live) step (records, 0, actions) =
    Some (kept @ drop (length kept) records, length kept, actions @ as)"
  using loop_compacts_from [of 0 "length live" 0 records actions] assms by simp

end

section \<open>What an ACKNACK asks of each record\<close>

lemma actions_push_room [simp]: "length b < cap \<Longrightarrow> actions_push cap a b = (True, b @ [a])"
  by (simp add: actions_push_def)

interpretation acknack: compaction "acknack_step cap (map f live)" "fates f" live cap
  for cap f live
proof
  fix index destination :: nat and records and actions :: action_buffer
  assume *: "index < length live" "index < length records" "records ! index = live ! index" "destination \<le> index"
    "length actions + length (snd (fates f destination (live ! index))) \<le> cap"
  then have d: "destination < length records" and same: "records[index := live ! index] = records"
    by (simp_all flip: *(3))
  show "acknack_step cap (map f live) index (records, destination, actions) =
       Some (case fates f destination (live ! index) of
               (None, as) \<Rightarrow> (records, destination, actions @ as)
             | (Some r, as) \<Rightarrow> (records[destination := r], destination + 1, actions @ as))"
    using * d
    by (cases "f (live ! index)"; cases "destination = index")
       (auto simp: acknack_step_def fates_def wr_def outcome_action_def data_action_def record_sequence_def
         same)
qed

interpretation timer: compaction "timer_step cap config now_ns" "fates (timer_decision config now_ns)" live cap
  for cap config now_ns live
proof
  fix index destination :: nat and records and actions :: action_buffer
  assume *: "index < length live" "index < length records" "records ! index = live ! index" "destination \<le> index"
    "length actions + length (snd (fates (timer_decision config now_ns) destination (live ! index))) \<le> cap"
  then have d: "destination < length records" and same: "records[index := live ! index] = records"
    by (simp_all flip: *(3))
  show "timer_step cap config now_ns index (records, destination, actions) =
       Some (case fates (timer_decision config now_ns) destination (live ! index) of
               (None, as) \<Rightarrow> (records, destination, actions @ as)
             | (Some r, as) \<Rightarrow> (records[destination := r], destination + 1, actions @ as))"
    using * d
    by (cases "record_expired config now_ns (live ! index)"; cases "destination = index")
       (auto simp: timer_step_def fates_def timer_decision_def wr_def outcome_action_def same)
qed

lemma unat_ucast_offset:
  assumes "(offset :: u64) < ucast (n :: u32)"
  shows "unat (ucast offset :: u32) = unat offset" "(ucast offset :: u32) < n"
proof -
  have "unat offset < unat n"
    using assms by (simp add: word_less_nat_alt unat_ucast_up)
  moreover have "unat n < 2 ^ 32" using unsigned_less [of n] by simp
  ultimately show "unat (ucast offset :: u32) = unat offset"
    by (simp add: unsigned_ucast_eq take_bit_nat_eq_self)
  with \<open>unat offset < unat n\<close> show "(ucast offset :: u32) < n"
    by (simp add: word_less_nat_alt)
qed

lemma writer_decision_eq:
  assumes "sns_wf state"
  shows "writer_decision config state now_ns r =
    Some (if record_regresses state now_ns r then Inl rs_time_regression
          else Inr (record_decision config state now_ns r))"
  using assms unat_ucast_offset [of "record_sequence r - sns_bitmap_base state" "sns_num_bits state"]
  by (auto simp: writer_decision_def record_regresses_def record_decision_def sns_requests_def
      sns_acknowledges_def sns_test_bit record_expired_def Let_def not_less)

lemma writer_decisions_eq:
  assumes "sns_wf state" "index + count \<le> length (rw_records w)"
  shows "writer_decisions w state now_ns index count =
    (let rs = take count (drop index (rw_records w))
     in Some (if \<exists>r \<in> set rs. record_regresses state now_ns r then Inl rs_time_regression
              else Inr (map (record_decision (rw_config w) state now_ns) rs)))"
  using assms(2)
proof (induction count arbitrary: index)
  case 0
  then show ?case by simp
next
  case (Suc count)
  then have "drop index (rw_records w) = rw_records w ! index # drop (Suc index) (rw_records w)"
    by (simp add: Cons_nth_drop_Suc)
  with Suc show ?case by (auto simp: writer_decision_eq [OF assms(1)] Let_def)
qed

lemma timer_expired_eq:
  assumes "index + count \<le> length (rw_records w)"
  shows "timer_expired w now_ns index count =
    (let rs = take count (drop index (rw_records w))
     in Some (if \<exists>r \<in> set rs. timer_regresses now_ns r then Inl rs_time_regression
              else Inr (length (filter (record_expired (rw_config w) now_ns) rs))))"
  using assms
proof (induction count arbitrary: index)
  case 0
  then show ?case by simp
next
  case (Suc count)
  then have "drop index (rw_records w) = rw_records w ! index # drop (Suc index) (rw_records w)"
    by (simp add: Cons_nth_drop_Suc)
  with Suc show ?case by (auto simp: timer_regresses_def Let_def)
qed

section \<open>Invariant and traces\<close>

lemma action_count_simps [simp]:
  "action_count kinds n [] = 0"
  "action_count kinds n (a # as) =
     (if ra_kind a \<in> set kinds \<and> ra_sequence_number a = n then 1 else 0) + action_count kinds n as"
  "action_count kinds n (as @ bs) = action_count kinds n as + action_count kinds n bs"
  by (simp_all add: action_count_def)

lemma record_count_simps [simp]:
  "record_count n [] = 0"
  "record_count n (r # rs) = (if record_sequence r = n then 1 else 0) + record_count n rs"
  "record_count n (rs @ ss) = record_count n rs + record_count n ss"
  by (simp_all add: record_count_def)

lemma action_fields [simp]:
  "ra_kind (outcome_action k f r) = k" "ra_sequence_number (outcome_action k f r) = record_sequence r"
  "ra_kind (data_action k d r) = k" "ra_sequence_number (data_action k d r) = record_sequence r"
  "ra_data (data_action k d r) = Some d" "ra_data_size (data_action k d r) = bs_size (wr_sample r)"
  by (simp_all add: outcome_action_def data_action_def)

lemma record_sequence_attempts [simp]: "record_sequence (r\<lparr>wr_repair_attempts := n\<rparr>) = record_sequence r"
  by (simp add: record_sequence_def)

lemma compact_fates:
  "compact (fates f) d (r # rs) =
     (case decision_fate (f r) d r of
        (None, as) \<Rightarrow> (case compact (fates f) d rs of (kept, bs) \<Rightarrow> (kept, as @ bs))
      | (Some r', as) \<Rightarrow> (case compact (fates f) (d + 1) rs of (kept, bs) \<Rightarrow> (r' # kept, as @ bs)))"
  by (simp only: compact.simps fates_def)

declare compact.simps(2) [simp del] compact_fates [simp]

lemma compact_length:
  "compact (fates f) d rs = (kept, as) \<Longrightarrow>
   length as = length (filter (\<lambda>r. f r \<noteq> Keep) rs) \<and> length kept \<le> length rs"
proof (induction rs arbitrary: d kept as)
  case (Cons r rs)
  then show ?case by (cases "f r") (fastforce split: prod.splits)+
qed simp

lemma compact_records:
  "compact (fates f) d rs = (kept, as) \<Longrightarrow> r' \<in> set kept \<Longrightarrow>
   \<exists>r \<in> set rs. wr_sample r' = wr_sample r \<and> record_sequence r' = record_sequence r \<and>
     (r' = r \<or> f r = Repair \<and> r' = r\<lparr>wr_repair_attempts := wr_repair_attempts r + 1\<rparr>)"
proof (induction rs arbitrary: d kept as)
  case (Cons r rs)
  then show ?case by (cases "f r") (fastforce split: prod.splits)+
qed simp

lemma compact_sequences:
  "compact (fates f) d rs = (kept, as) \<Longrightarrow> record_sequence ` set kept \<subseteq> record_sequence ` set rs"
  using compact_records by fastforce

lemma compact_sorted:
  "compact (fates f) d rs = (kept, as) \<Longrightarrow> sorted_wrt (<) (map record_sequence rs) \<Longrightarrow>
   sorted_wrt (<) (map record_sequence kept)"
proof (induction rs arbitrary: d kept as)
  case (Cons r rs)
  obtain k bs k' bs' where c: "compact (fates f) d rs = (k, bs)" "compact (fates f) (d + 1) rs = (k', bs')"
    by fastforce
  note sub = compact_sequences [OF c(1)] compact_sequences [OF c(2)]
  have "\<forall>x \<in> set k'. record_sequence r < record_sequence x"
    using sub(2) Cons.prems(2) by fastforce
  with Cons c show ?case by (cases "f r") auto
qed simp

lemma compact_counts:
  "compact (fates f) d rs = (kept, as) \<Longrightarrow>
   outcomes n as + record_count n kept = record_count n rs \<and> sends n as = 0 \<and> 
   (n \<notin> record_sequence ` set rs \<longrightarrow> retransmissions n as = 0)"
proof (induction rs arbitrary: d kept as)
  case (Cons r rs)
  obtain k bs k' bs' where c: "compact (fates f) d rs = (k, bs)" "compact (fates f) (d + 1) rs = (k', bs')"
    by fastforce
  from Cons.prems Cons.IH [OF c(1)] Cons.IH [OF c(2)] c show ?case
    by (cases "f r") auto
qed simp

lemma compact_retransmissions:
  assumes "compact (fates f) d rs = (kept, as)" "distinct (map record_sequence rs)"
    and "\<forall>r \<in> set rs. f r = Repair \<longrightarrow> wr_repair_attempts r < limit"
  shows "(\<forall>r' \<in> set kept. \<exists>r \<in> set rs. record_sequence r' = record_sequence r \<and>
      unat (wr_repair_attempts r') = unat (wr_repair_attempts r) + retransmissions (record_sequence r) as \<and>
      wr_repair_attempts r' \<le> max limit (wr_repair_attempts r)) \<and>
    (\<forall>n. retransmissions n as > 0 \<longrightarrow> n \<in> record_sequence ` set kept)"
  using assms
proof (induction rs arbitrary: d kept as)
  case (Cons r rs)
  obtain k bs k' bs' where c: "compact (fates f) d rs = (k, bs)" "compact (fates f) (d + 1) rs = (k', bs')"
    by fastforce
  have dist: "record_sequence r \<notin> record_sequence ` set rs" "distinct (map record_sequence rs)"
    using Cons.prems(2) by auto
  have less: "\<forall>r \<in> set rs. f r = Repair \<longrightarrow> wr_repair_attempts r < limit" using Cons.prems(3) by simp
  note IH = Cons.IH [OF c(1) dist(2) less] Cons.IH [OF c(2) dist(2) less]
  have none: "retransmissions (record_sequence r) bs = 0" "retransmissions (record_sequence r) bs' = 0"
    using compact_counts [OF c(1)] compact_counts [OF c(2)] dist(1) by auto
  have bump: "unat (wr_repair_attempts r + 1) = unat (wr_repair_attempts r) + 1"
    "wr_repair_attempts r + 1 \<le> limit" if "f r = Repair"
    using Cons.prems(3) that word_increment [of "wr_repair_attempts r" limit] by simp_all
  show ?case
  proof (cases "f r = Repair")
    case Repair: True
    let ?r = "r\<lparr>wr_repair_attempts := wr_repair_attempts r + 1\<rparr>"
    have shape: "kept = ?r # k'" "as = data_action retransmit_data d r # bs'"
      using Cons.prems(1) c Repair by auto
    have "\<exists>x \<in> set (r # rs). record_sequence r' = record_sequence x \<and>
        unat (wr_repair_attempts r') = unat (wr_repair_attempts x) + retransmissions (record_sequence x) as \<and>
        wr_repair_attempts r' \<le> max limit (wr_repair_attempts x)" if r': "r' \<in> set kept" for r'
    proof (cases "r' = ?r")
      case True
      then show ?thesis using bump [OF Repair] none(2) shape by (intro bexI [of _ r]) (auto simp: max_def)
    next
      case False
      then have "r' \<in> set k'" using r' shape(1) by simp
      then obtain x where x: "x \<in> set rs" "record_sequence r' = record_sequence x"
        "unat (wr_repair_attempts r') = unat (wr_repair_attempts x) + retransmissions (record_sequence x) bs'"
        "wr_repair_attempts r' \<le> max limit (wr_repair_attempts x)"
        using IH(2) by blast
      have "record_sequence r \<noteq> record_sequence x" using dist(1) x(1) by (metis imageI)
      then have "retransmissions (record_sequence x) as = retransmissions (record_sequence x) bs'"
        using shape(2) by simp
      with x show ?thesis by (intro bexI [of _ x]) simp_all
    qed
    moreover have "n \<in> record_sequence ` set kept" if pos: "retransmissions n as > 0" for n
    proof (cases "n = record_sequence r")
      case True
      then show ?thesis by (simp add: shape(1))
    next
      case False
      with pos have "retransmissions n bs' > 0" by (simp add: shape(2))
      with IH(2) have "n \<in> record_sequence ` set k'" by blast
      then show ?thesis unfolding shape(1) by auto
    qed
    ultimately show ?thesis by blast
  next
    case False
    then have "f r = Keep \<and> kept = r # k' \<and> as = bs' \<or> kept = k \<and> (\<forall>n. retransmissions n as = retransmissions n bs)"
      using Cons.prems(1) c by (cases "f r") auto
    then show ?thesis
    proof (elim disjE conjE)
      assume kept: "kept = r # k'" "as = bs'"
      have here: "\<exists>x \<in> set (r # rs). record_sequence r = record_sequence x \<and>
          unat (wr_repair_attempts r) = unat (wr_repair_attempts x) + retransmissions (record_sequence x) bs' \<and>
          wr_repair_attempts r \<le> max limit (wr_repair_attempts x)"
        using none(2) by (intro bexI [of _ r]) simp_all
      show ?thesis unfolding kept using IH(2) here by (simp only: set_simps ball_simps bex_simps image_insert insert_iff) blast
    next
      assume kept: "kept = k" and same: "\<forall>n. retransmissions n as = retransmissions n bs"
      show ?thesis unfolding kept using IH(1) by (simp only: same set_simps bex_simps) blast
    qed
  qed
qed simp

lemma compact_slots:
  "compact (fates f) d rs = (kept, as) \<Longrightarrow> a \<in> set as \<Longrightarrow> ra_kind a = retransmit_data \<Longrightarrow>
   \<exists>j < length kept. ra_data a = Some (d + j) \<and> record_sequence (kept ! j) = ra_sequence_number a \<and>
     bs_size (wr_sample (kept ! j)) = ra_data_size a"
proof (induction rs arbitrary: d kept as)
  case (Cons r rs)
  obtain k bs k' bs' where c: "compact (fates f) d rs = (k, bs)" "compact (fates f) (d + 1) rs = (k', bs')"
    by fastforce
  note IH = Cons.IH [OF c(1)] Cons.IH [OF c(2)]
  show ?case
  proof (cases "f r = Keep \<or> f r = Repair")
    case True
    then obtain r' where kept: "kept = r' # k'" "wr_sample r' = wr_sample r" "record_sequence r' = record_sequence r"
      "a \<in> set bs' \<or> a = data_action retransmit_data d r"
      using Cons.prems c by auto
    then show ?thesis
    proof (elim disjE)
      assume "a \<in> set bs'"
      from IH(2) [OF this Cons.prems(3)] obtain j where "j < length k'" "ra_data a = Some (d + Suc j)"
        "record_sequence (k' ! j) = ra_sequence_number a" "bs_size (wr_sample (k' ! j)) = ra_data_size a"
        by auto
      with kept(1) show ?thesis by (intro exI [of _ "Suc j"]) simp
    next
      assume "a = data_action retransmit_data d r"
      with kept show ?thesis by (intro exI [of _ 0]) simp
    qed
  next
    case False
    then show ?thesis using Cons.prems IH(1) c by (cases "f r") auto
  qed
qed simp

section \<open>The operations\<close>

lemma length_writer_live: "writer_inv depth mx w \<Longrightarrow> length (writer_live w) = rw_size w"
  by (simp add: writer_inv_def writer_live_def)

lemma length_writer_actions:
  "length (writer_actions f w) = length (filter (\<lambda>r. f r \<noteq> Keep) (writer_live w))"
  using compact_length [of f 0 "writer_live w"] by (cases "compact (fates f) 0 (writer_live w)") (simp add: writer_actions_def)

lemma writer_on_acknack_eq:
  assumes inv: "writer_inv depth mx w" and wf: "sns_wf (an_reader_state an)" and cap: "length actions \<le> cap"
  shows "writer_on_acknack cap an now_ns w actions = Some
    (if \<not> rw_valid w then (rs_invalid_configuration, w, actions)
     else if an_reader_id an \<noteq> wc_reader_id (rw_config w) \<or> an_writer_id an \<noteq> wc_writer_id (rw_config w)
     then (rs_unexpected_peer, w, actions)
     else if rw_acknack_count_initialized w \<and> \<not> control_count_is_newer (an_count an) (rw_last_acknack_count w)
     then (rs_stale_control, w, actions)
     else if \<exists>r \<in> set (writer_live w). record_regresses (an_reader_state an) now_ns r
     then (rs_time_regression, w, actions)
     else if length actions + length (writer_actions (acknack_decision an now_ns w) w) > cap
     then (rs_action_capacity_exceeded, w, actions)
     else (rs_none,
       (writer_kept (acknack_decision an now_ns w) w)
         \<lparr>rw_last_acknack_count := an_count an, rw_acknack_count_initialized := True\<rparr>,
       actions @ writer_actions (acknack_decision an now_ns w) w))"
proof -
  let ?f = "acknack_decision an now_ns w"
  have size: "rw_size w \<le> length (rw_records w)" and live: "length (writer_live w) = rw_size w"
    using inv length_writer_live [OF inv] by (simp_all add: writer_inv_def)
  have dec: "writer_decisions w (an_reader_state an) now_ns 0 (rw_size w) =
    Some (if \<exists>r \<in> set (writer_live w). record_regresses (an_reader_state an) now_ns r then Inl rs_time_regression
          else Inr (map ?f (writer_live w)))"
    using writer_decisions_eq [OF wf, of 0 "rw_size w" w now_ns] size by (simp add: writer_live_def Let_def)
  obtain kept as where c: "compact (fates ?f) 0 (writer_live w) = (kept, as)" by fastforce
  have as: "writer_actions ?f w = as" "length (filter ((\<lambda>d. d \<noteq> Keep) \<circ> ?f) (writer_live w)) = length as"
    using compact_length [OF c] c by (simp_all add: writer_actions_def o_def)
  have loop: "for_loop 0 (rw_size w) (acknack_step cap (map ?f (writer_live w))) (rw_records w, 0, actions) =
      Some (kept @ drop (length kept) (rw_records w), length kept, actions @ as)" if "length actions + length as \<le> cap"
    using acknack.loop_compacts [OF _ _ c, of "rw_records w" actions cap] that size live
    by (simp add: writer_live_def)
  show ?thesis
    using loop cap
    by (auto simp: writer_on_acknack_def dec as filter_map writer_kept_def c Let_def actions_remaining_def)
qed

lemma writer_on_timer_eq:
  assumes inv: "writer_inv depth mx w" and cap: "length actions \<le> cap"
  shows "writer_on_timer cap now_ns w actions = Some
    (if \<not> rw_valid w then (rs_invalid_configuration, w, actions)
     else if \<exists>r \<in> set (writer_live w). timer_regresses now_ns r then (rs_time_regression, w, actions)
     else if length actions + length (writer_actions (timer_decision (rw_config w) now_ns) w) > cap
     then (rs_action_capacity_exceeded, w, actions)
     else (rs_none, writer_kept (timer_decision (rw_config w) now_ns) w,
       actions @ writer_actions (timer_decision (rw_config w) now_ns) w))"
proof -
  let ?f = "timer_decision (rw_config w) now_ns"
  have size: "rw_size w \<le> length (rw_records w)" and live: "length (writer_live w) = rw_size w"
    using inv length_writer_live [OF inv] by (simp_all add: writer_inv_def)
  obtain kept as where c: "compact (fates ?f) 0 (writer_live w) = (kept, as)" by fastforce
  have keep: "(\<lambda>r. ?f r \<noteq> Keep) = record_expired (rw_config w) now_ns"
    by (auto simp: timer_decision_def)
  have as: "writer_actions ?f w = as" "length as = length (filter (record_expired (rw_config w) now_ns) (writer_live w))"
    using compact_length [OF c] c by (simp_all add: writer_actions_def keep)
  have dec: "timer_expired w now_ns 0 (rw_size w) =
    Some (if \<exists>r \<in> set (writer_live w). timer_regresses now_ns r then Inl rs_time_regression else Inr (length as))"
    using timer_expired_eq [of 0 "rw_size w" w now_ns] size by (simp add: writer_live_def Let_def as(2))
  have loop: "for_loop 0 (rw_size w) (timer_step cap (rw_config w) now_ns) (rw_records w, 0, actions) =
      Some (kept @ drop (length kept) (rw_records w), length kept, actions @ as)" if "length actions + length as \<le> cap"
    using timer.loop_compacts [OF _ _ c, of "rw_records w" actions cap] that size live
    by (simp add: writer_live_def)
  show ?thesis
    using loop cap
    by (auto simp: writer_on_timer_def dec as(1) writer_kept_def c Let_def actions_remaining_def)
qed

lemma writer_write_eq:
  assumes inv: "writer_inv depth mx w" and cap: "length actions \<le> cap"
  shows "writer_write depth mx cap payload n now_ns w actions = Some
    (if \<not> rw_valid w then (rs_invalid_configuration, w, actions)
     else if \<not> valid_span payload then (rs_invalid_argument, w, actions)
     else if mx < span_size payload then (rs_payload_too_large, w, actions)
     else if \<not> valid_state_sequence n then (rs_invalid_sequence_number, w, actions)
     else if rw_last_sequence_number w \<noteq> 0 \<and> n \<le> rw_last_sequence_number w
     then (rs_non_monotonic_sequence, w, actions)
     else if rw_size w = depth then (rs_history_full, w, actions)
     else if length actions = cap then (rs_action_capacity_exceeded, w, actions)
     else (rs_none, writer_written payload n now_ns w,
       actions @ [data_action send_data (rw_size w) (written_record payload n now_ns (rw_records w ! rw_size w))]))"
proof -
  have slot: "rw_size w < length (rw_records w)" if "rw_size w \<noteq> depth"
    using inv that by (simp add: writer_inv_def)
  have "length (bs_payload (wr_sample (rw_records w ! rw_size w))) = mx" if "rw_size w \<noteq> depth"
    using inv slot [OF that] by (simp add: writer_inv_def)
  then show ?thesis
    using slot cap
    by (auto simp: writer_write_def valid_span_def actions_remaining_def sample_assign_ok wr_def
        writer_written_def written_record_def data_action_def record_sequence_def)
qed

section \<open>Invariant preservation\<close>

lemma writer_kept_live:
  assumes "writer_inv depth mx w"
  shows "writer_live (writer_kept f w) = fst (compact (fates f) 0 (writer_live w))"
proof (cases "compact (fates f) 0 (writer_live w)")
  case (Pair kept as)
  have "length kept \<le> length (rw_records w)"
    using compact_length [OF Pair] length_writer_live [OF assms] assms by (auto simp: writer_inv_def)
  then show ?thesis using Pair by (simp add: writer_kept_def writer_live_def Let_def)
qed

lemma writer_kept_inv:
  assumes inv: "writer_inv depth mx w"
    and less: "\<forall>r \<in> set (writer_live w). f r = Repair \<longrightarrow> wr_repair_attempts r < wc_max_repair_attempts (rw_config w)"
  shows "writer_inv depth mx (writer_kept f w)"
proof -
  obtain kept as where c: "compact (fates f) 0 (writer_live w) = (kept, as)" by fastforce
  have len: "length kept \<le> depth"
    using compact_length [OF c] length_writer_live [OF inv] inv by (simp add: writer_inv_def)
  have sub: "set (writer_live w) \<subseteq> set (rw_records w)"
    by (simp add: writer_live_def set_take_subset)
  have sorted: "sorted_wrt (<) (map record_sequence kept)"
    using compact_sorted [OF c] inv by (simp add: writer_inv_def)
  have dist: "distinct (map record_sequence (writer_live w))"
    using inv by (simp add: writer_inv_def strict_sorted_iff)
  have kept: "length (bs_payload (wr_sample r)) = mx \<and> bs_size (wr_sample r) \<le> mx \<and>
      valid_state_sequence (record_sequence r) \<and> record_sequence r \<le> rw_last_sequence_number w" if "r \<in> set kept" for r
    using compact_records [OF c that] inv sub unfolding writer_inv_def by auto
  have attempts: "wr_repair_attempts r \<le> wc_max_repair_attempts (rw_config w)" if r: "r \<in> set kept" for r
  proof -
    obtain x where "x \<in> set (writer_live w)"
      "wr_repair_attempts r \<le> max (wc_max_repair_attempts (rw_config w)) (wr_repair_attempts x)"
      using bspec [OF conjunct1 [OF compact_retransmissions [OF c dist less]] r] by (elim bexE conjE)
    moreover from this(1) have "wr_repair_attempts x \<le> wc_max_repair_attempts (rw_config w)"
      using inv by (simp add: writer_inv_def)
    ultimately show ?thesis by (simp add: max_def split: if_splits)
  qed
  have records: "r \<in> set kept \<or> r \<in> set (rw_records w)"
    if "r \<in> set (kept @ drop (length kept) (rw_records w))" for r
    using that in_set_dropD by fastforce
  show ?thesis
    using inv len sorted kept attempts records writer_kept_live [OF inv, of f]
    unfolding writer_inv_def by (auto simp: c writer_kept_def Let_def)
qed

lemma writer_kept_fields [simp]:
  "rw_config (writer_kept f w) = rw_config w"
  "rw_last_sequence_number (writer_kept f w) = rw_last_sequence_number w"
  by (simp_all add: writer_kept_def Let_def)

lemma writer_inv_counts [simp]:
  "writer_inv depth mx (w\<lparr>rw_last_acknack_count := c, rw_acknack_count_initialized := b\<rparr>) = writer_inv depth mx w"
  "writer_inv depth mx (w\<lparr>rw_heartbeat_count := c\<rparr>) = writer_inv depth mx w"
  "writer_live (w\<lparr>rw_last_acknack_count := c, rw_acknack_count_initialized := b\<rparr>) = writer_live w"
  "writer_live (w\<lparr>rw_heartbeat_count := c\<rparr>) = writer_live w"
  by (simp_all add: writer_inv_def writer_live_def)

lemma record_decision_repair:
  "record_decision config state now_ns r = Repair \<Longrightarrow> wr_repair_attempts r < wc_max_repair_attempts config"
  by (simp add: record_decision_def split: if_splits)

lemma timer_decision_repair: "timer_decision config now_ns r \<noteq> Repair"
  by (simp add: timer_decision_def)

lemma record_sequence_written [simp]: "record_sequence (written_record payload n now_ns r) = n"
  by (simp add: record_sequence_def written_record_def)

lemma writer_written_live:
  assumes "writer_inv depth mx w" "rw_size w \<noteq> depth"
  shows "writer_live (writer_written payload n now_ns w) =
    writer_live w @ [written_record payload n now_ns (rw_records w ! rw_size w)]"
  using assms by (simp add: writer_inv_def writer_live_def writer_written_def take_Suc_conv_app_nth)

lemma writer_write_sequence:
  assumes "valid_state_sequence n" "\<not> (rw_last_sequence_number w \<noteq> 0 \<and> n \<le> rw_last_sequence_number w)"
  shows "rw_last_sequence_number w < n"
  using assms by (auto simp: valid_state_sequence_def word_neq_0_conv not_le)

lemma writer_written_inv:
  assumes inv: "writer_inv depth mx w" and "valid_span payload" "span_size payload \<le> mx"
    and n: "valid_state_sequence n" "rw_last_sequence_number w < n" and room: "rw_size w \<noteq> depth"
  shows "writer_inv depth mx (writer_written payload n now_ns w)"
proof -
  let ?r = "rw_records w ! rw_size w"
  have slot: "?r \<in> set (rw_records w)" "rw_size w < length (rw_records w)"
    using inv room by (simp_all add: writer_inv_def)
  have new: "length (bs_payload (wr_sample (written_record payload n now_ns ?r))) = mx"
    "bs_size (wr_sample (written_record payload n now_ns ?r)) \<le> mx"
    using inv slot assms(2,3) length_span_bytes [OF assms(2)]
    by (simp_all add: writer_inv_def written_record_def)
  have live: "record_sequence r < n" if "r \<in> set (writer_live w)" for r
    using inv that n(2) unfolding writer_inv_def by (meson le_less_trans)
  have samples: "length (bs_payload (wr_sample r)) = mx \<and> bs_size (wr_sample r) \<le> mx"
    if "r \<in> set ((rw_records w)[rw_size w := written_record payload n now_ns ?r])" for r
    using that set_update_subset_insert new inv unfolding writer_inv_def by fastforce
  have attempts: "wr_repair_attempts (written_record payload n now_ns ?r) = 0" by (simp add: written_record_def)
  show ?thesis
    unfolding writer_inv_def writer_written_live [OF inv room]
    using inv slot(2) samples live n less_imp_le [OF n(2)] attempts
    by (auto simp: writer_written_def writer_inv_def sorted_wrt_append valid_state_sequence_def intro: order_trans)
qed

lemma reliable_writer_new_inv: "writer_inv depth mx (reliable_writer_new depth mx config)"
  by (simp add: writer_inv_def writer_live_def reliable_writer_new_def empty_sample_def INT64_MAX_def)

section \<open>Accounting of samples over runs\<close>

text \<open>One call with an empty action buffer.\<close>

lemma record_count_pos: "r \<in> set rs \<Longrightarrow> 0 < record_count (record_sequence r) rs"
  by (auto simp: record_count_def filter_empty_conv)

lemma record_count_zero: "record_count n rs = 0 \<longleftrightarrow> n \<notin> record_sequence ` set rs"
  by (auto simp: record_count_def filter_empty_conv)

lemma trace_inv_kept:
  assumes inv: "writer_inv depth mx w" and tr: "trace_inv w tr"
    and less: "\<forall>r \<in> set (writer_live w). f r = Repair \<longrightarrow> wr_repair_attempts r < wc_max_repair_attempts (rw_config w)"
  shows "trace_inv (writer_kept f w) (tr @ writer_actions f w)"
proof -
  obtain kept as where c: "compact (fates f) 0 (writer_live w) = (kept, as)" by fastforce
  have dist: "distinct (map record_sequence (writer_live w))"
    using inv by (simp add: writer_inv_def strict_sorted_iff)
  have acc: "sample_accounted w tr n" for n using tr by (simp add: trace_inv_def)
  note re = compact_retransmissions [OF c dist less]
  note cnt = compact_counts [OF c]
  have live: "retransmissions (record_sequence r) (tr @ as) = unat (wr_repair_attempts r)" if r: "r \<in> set kept" for r
  proof -
    obtain x where "x \<in> set (writer_live w)" "record_sequence r = record_sequence x"
      "unat (wr_repair_attempts r) = unat (wr_repair_attempts x) + retransmissions (record_sequence x) as"
      using bspec [OF conjunct1 [OF re] r] by (elim bexE conjE)
    then show ?thesis using tr by (simp add: trace_inv_def)
  qed
  have inv': "writer_inv depth mx (writer_kept f w)" by (rule writer_kept_inv [OF inv less])
  have limit: "retransmissions n (tr @ as) \<le> unat (wc_max_repair_attempts (rw_config w))" for n
  proof (cases "retransmissions n as = 0")
    case True
    then show ?thesis using acc [of n] by (simp add: sample_accounted_def)
  next
    case False
    with conjunct2 [OF re] obtain r where r: "r \<in> set kept" "n = record_sequence r" by blast
    then have "wr_repair_attempts r \<le> wc_max_repair_attempts (rw_config w)"
      using inv' writer_kept_live [OF inv, of f] c by (simp add: writer_inv_def)
    then show ?thesis using live [OF r(1)] r(2) by (simp add: word_le_nat_alt)
  qed
  have none: "retransmissions n as = 0" if "sends n tr = 0" for n
    using that acc [of n] cnt [of n] by (simp add: sample_accounted_def flip: record_count_zero)
  have "sample_accounted (writer_kept f w) (tr @ as) n" for n
    using acc [of n] cnt [of n] limit [of n] none [of n] writer_kept_live [OF inv, of f]
    by (auto simp: sample_accounted_def c)
  then show ?thesis
    unfolding trace_inv_def using writer_kept_live [OF inv, of f] live by (auto simp: c writer_actions_def)
qed

lemma trace_inv_written:
  assumes inv: "writer_inv depth mx w" and tr: "trace_inv w tr"
    and n: "rw_last_sequence_number w < n" and room: "rw_size w \<noteq> depth"
  shows "trace_inv (writer_written payload n now_ns w)
    (tr @ [data_action send_data slot (written_record payload n now_ns (rw_records w ! rw_size w))])"
proof -
  let ?r = "written_record payload n now_ns (rw_records w ! rw_size w)"
  let ?w = "writer_written payload n now_ns w"
  have acc: "sample_accounted w tr m" for m using tr by (simp add: trace_inv_def)
  have fresh: "sends n tr = 0" "outcomes n tr = 0" "retransmissions n tr = 0" "record_count n (writer_live w) = 0"
    using acc [of n] n by (auto simp: sample_accounted_def)
  have other: "record_sequence r \<noteq> n" if "r \<in> set (writer_live w)" for r
    using fresh(4) that by (auto simp: record_count_zero)
  have fields: "wr_repair_attempts ?r = 0" "rw_config ?w = rw_config w" "rw_last_sequence_number ?w = n"
    "writer_live ?w = writer_live w @ [?r]"
    using writer_written_live [OF inv room] by (simp_all add: writer_written_def written_record_def)
  have "sample_accounted ?w (tr @ [data_action send_data slot ?r]) m" for m
    using acc [of m] fresh n by (cases "m = n") (auto simp: sample_accounted_def fields)
  moreover have "retransmissions (record_sequence r) (tr @ [data_action send_data slot ?r]) = unat (wr_repair_attempts r)"
    if "r \<in> set (writer_live w) \<or> r = ?r" for r
    using that tr fresh(3) fields(1) by (auto simp: trace_inv_def)
  ultimately show ?thesis using fresh(3) by (auto simp: trace_inv_def fields)
qed

lemma trace_inv_same:
  assumes "trace_inv w tr" "writer_live w' = writer_live w" "rw_config w' = rw_config w"
    "rw_last_sequence_number w' = rw_last_sequence_number w"
  shows "trace_inv w' tr"
  using assms(1) unfolding trace_inv_def sample_accounted_def assms(2-4) .

lemma writer_fill_heartbeat_eq:
  assumes "writer_inv depth mx w"
  shows "writer_fill_heartbeat hb w = Some
    (if \<not> rw_valid w then (rs_invalid_configuration, hb, w)
     else (rs_none,
       hb\<lparr>hb_first_sequence_number :=
            (if writer_live w = [] then rw_last_sequence_number w + 1 else record_sequence (hd (writer_live w))),
          hb_last_sequence_number := rw_last_sequence_number w, hb_reader_id := wc_reader_id (rw_config w),
          hb_writer_id := wc_writer_id (rw_config w), hb_count := rw_heartbeat_count w + 1\<rparr>,
       w\<lparr>rw_heartbeat_count := rw_heartbeat_count w + 1\<rparr>))"
  using assms
  by (auto simp: writer_fill_heartbeat_def next_control_count_def writer_inv_def writer_live_def hd_conv_nth Let_def)

lemma writer_step_accounted:
  assumes inv: "writer_inv depth mx w" and tr: "trace_inv w tr" and ok: "writer_op_ok op"
  shows "\<exists>e as hb w'. writer_step depth mx cap op w = Some ((e, as, hb), w') \<and> writer_inv depth mx w' \<and>
    trace_inv w' (tr @ as) \<and> rw_config w' = rw_config w"
proof (cases op)
  case (WriteSample payload n now_ns)
  have config: "rw_config (writer_written payload n now_ns w) = rw_config w" by (simp add: writer_written_def)
  show ?thesis
    using inv tr writer_write_sequence [of n w] config
      writer_written_inv [OF inv, of payload n now_ns] trace_inv_written [OF inv tr, of n payload now_ns]
    by (auto simp: WriteSample writer_write_eq [OF inv] not_less)
next
  case (OnAckNack an now_ns)
  let ?f = "acknack_decision an now_ns w"
  have less: "\<forall>r \<in> set (writer_live w). ?f r = Repair \<longrightarrow> wr_repair_attempts r < wc_max_repair_attempts (rw_config w)"
    by (simp add: record_decision_repair)
  have wf: "sns_wf (an_reader_state an)" using ok OnAckNack by simp
  show ?thesis
    using inv tr writer_kept_inv [OF inv less] trace_inv_same [OF trace_inv_kept [OF inv tr less]]
    by (simp add: OnAckNack writer_on_acknack_eq [OF inv wf])
next
  case (OnTimer now_ns)
  let ?f = "timer_decision (rw_config w) now_ns"
  have less: "\<forall>r \<in> set (writer_live w). ?f r = Repair \<longrightarrow> wr_repair_attempts r < wc_max_repair_attempts (rw_config w)"
    by (simp add: timer_decision_repair)
  show ?thesis
    using inv tr writer_kept_inv [OF inv less] trace_inv_kept [OF inv tr less]
    by (simp add: OnTimer writer_on_timer_eq [OF inv])
next
  case (FillHeartbeat hb)
  then show ?thesis
    using inv tr trace_inv_same [OF tr] by (simp add: writer_fill_heartbeat_eq [OF inv])
qed

lemma writer_run_accounted:
  assumes "writer_inv depth mx w" "trace_inv w tr" "list_all writer_op_ok ops"
  shows "\<exists>rs w'. run_ops (writer_step depth mx cap) ops w = Some (rs, w') \<and> writer_inv depth mx w' \<and>
    trace_inv w' (tr @ writer_trace rs) \<and> rw_config w' = rw_config w"
  using assms
proof (induction ops arbitrary: w tr)
  case Nil
  then show ?case by (simp add: writer_trace_def)
next
  case (Cons op ops)
  then obtain e as hb w1 where step: "writer_step depth mx cap op w = Some ((e, as, hb), w1)"
    "writer_inv depth mx w1" "trace_inv w1 (tr @ as)" "rw_config w1 = rw_config w"
    using writer_step_accounted [of depth mx w tr op cap] by auto
  with Cons.IH [of w1 "tr @ as"] Cons.prems(3) obtain rs w' where
    "run_ops (writer_step depth mx cap) ops w1 = Some (rs, w')" "writer_inv depth mx w'"
    "trace_inv w' ((tr @ as) @ writer_trace rs)" "rw_config w' = rw_config w1"
    by auto
  with step show ?case by (simp add: writer_trace_def)
qed

lemma trace_inv_new: "trace_inv (reliable_writer_new depth mx config) []"
  by (simp add: trace_inv_def sample_accounted_def reliable_writer_new_def writer_live_def)

lemma compact_exact:
  "compact (fates f) d rs = (kept, as) \<Longrightarrow>
   kept = map (\<lambda>r. retained_record (f r) r) (filter (\<lambda>r. retains (f r)) rs) \<and>
   map action_summary as = map (\<lambda>r. (record_sequence r, decision_outcome (f r))) (filter (\<lambda>r. f r \<noteq> Keep) rs)"
proof (induction rs arbitrary: d kept as)
  case (Cons r rs)
  obtain k bs k' bs' where c: "compact (fates f) d rs = (k, bs)" "compact (fates f) (d + 1) rs = (k', bs')"
    by fastforce
  have sum: "action_summary (outcome_action kind failure r) = (record_sequence r, kind, failure)"
    "action_summary (data_action kind slot r) = (record_sequence r, kind, rf_none)" for kind failure slot
    by (simp_all add: action_summary_def outcome_action_def data_action_def default_action_def)
  from Cons.IH [OF c(1)] Cons.IH [OF c(2)] Cons.prems c show ?case
    by (cases "f r") (auto simp: retains_def retained_record_def sum)
qed simp

section \<open>Properties\<close>

text \<open>C8: over every sequence of calls to a reliable writer whose ACKNACKs carry well-formed sets,
  no call reads or writes outside the record array; every sequence number is sent at most once;
  a sent sample is either still in the history or has been reported exactly once as delivered
  or failed, so no sample is lost silently; and it is retransmitted at most
  \<open>max_repair_attempts\<close> times.\<close>

theorem writer_accounts_for_samples:
  assumes "list_all writer_op_ok ops"
  shows "\<exists>rs w. run_ops (writer_step depth mx cap) ops (reliable_writer_new depth mx config) = Some (rs, w) \<and>
    writer_inv depth mx w \<and>
    (\<forall>n. sends n (writer_trace rs) \<le> 1 \<and>
      sends n (writer_trace rs) = record_count n (writer_live w) + outcomes n (writer_trace rs) \<and>
      retransmissions n (writer_trace rs) \<le> unat (wc_max_repair_attempts config))"
proof -
  from writer_run_accounted [OF reliable_writer_new_inv [of depth mx config] trace_inv_new assms, of cap]
  obtain rs w where r: "run_ops (writer_step depth mx cap) ops (reliable_writer_new depth mx config) = Some (rs, w)"
    "writer_inv depth mx w" "trace_inv w (writer_trace rs)"
    "rw_config w = rw_config (reliable_writer_new depth mx config)" by auto
  have config: "rw_config w = config" using r(4) by (simp add: reliable_writer_new_def)
  have "\<forall>n. sample_accounted w (writer_trace rs) n" using r(3) by (simp add: trace_inv_def)
  with r(1,2) show ?thesis unfolding sample_accounted_def config by blast
qed

theorem writer_accounts_for_samples_witness:
  "\<exists>rs w. run_ops (writer_step 4 8 8)
       [WriteSample (Span [1]) 6 0, WriteSample (Span [2]) 38 5, OnAckNack demo_acknack 10, OnTimer 200]
       (reliable_writer_new 4 8 demo_writer_config) = Some (rs, w) \<and> writer_inv 4 8 w \<and>
     retransmissions 38 (writer_trace rs) \<le> 1 \<and>
     sends 6 (writer_trace rs) = record_count 6 (writer_live w) + outcomes 6 (writer_trace rs)"
proof -
  have "list_all writer_op_ok
      [WriteSample (Span [1]) 6 0, WriteSample (Span [2]) 38 5, OnAckNack demo_acknack 10, OnTimer 200]"
    using demo_acknack_wf by (simp add: wf_acknack_def)
  from writer_accounts_for_samples [OF this, of 4 8 8 demo_writer_config] show ?thesis
    by (auto simp: demo_writer_config_def)
qed

text \<open>C10: an accepted ACKNACK is applied exactly. Records below its base or in its bitmap but not
  requested are reported delivered; requested ones are retransmitted, or reported failed when the
  repair window has passed or the attempts are used up; the others stay. What stays keeps its
  order, and every retransmission points at the slot that, after the compaction, holds
  the sample with its sequence number and size.\<close>

theorem on_acknack_correct:
  assumes "writer_inv depth mx w" "sns_wf (an_reader_state an)" "length actions \<le> cap"
    and "writer_on_acknack cap an now_ns w actions = Some (rs_none, w', actions')"
  shows "\<exists>as. actions' = actions @ as \<and>
    writer_live w' = map (\<lambda>r. retained_record (acknack_decision an now_ns w r) r)
      (filter (\<lambda>r. retains (acknack_decision an now_ns w r)) (writer_live w)) \<and>
    map action_summary as = map (\<lambda>r. (record_sequence r, decision_outcome (acknack_decision an now_ns w r)))
      (filter (\<lambda>r. acknack_decision an now_ns w r \<noteq> Keep) (writer_live w)) \<and>
    (\<forall>a \<in> set as. ra_kind a = retransmit_data \<longrightarrow>
      (\<exists>j < rw_size w'. ra_data a = Some j \<and> record_sequence (rw_records w' ! j) = ra_sequence_number a \<and>
         bs_size (wr_sample (rw_records w' ! j)) = ra_data_size a))"
proof -
  let ?f = "acknack_decision an now_ns w"
  obtain kept as where c: "compact (fates ?f) 0 (writer_live w) = (kept, as)" by fastforce
  have r: "actions' = actions @ as" "writer_live w' = writer_live (writer_kept ?f w)"
    "rw_size w' = length kept" "rw_records w' = kept @ drop (length kept) (rw_records w)"
    using assms(4) c unfolding writer_on_acknack_eq [OF assms(1-3)]
    by (auto simp: writer_actions_def writer_kept_def Let_def split: if_splits)
  have "writer_live w' = kept" using r(2) writer_kept_live [OF assms(1)] c by simp
  moreover have "\<exists>j < rw_size w'. ra_data a = Some j \<and> record_sequence (rw_records w' ! j) = ra_sequence_number a \<and>
      bs_size (wr_sample (rw_records w' ! j)) = ra_data_size a" if "a \<in> set as" "ra_kind a = retransmit_data" for a
    using compact_slots [OF c that] r(3,4) by (auto simp: nth_append)
  ultimately show ?thesis using compact_exact [OF c] r(1) by blast
qed

theorem on_acknack_correct_witness:
  "\<exists>w' as. writer_on_acknack 8 demo_acknack 10 demo_writer [] = Some (rs_none, w', as) \<and>
     map action_summary as = [(6, sample_delivered, rf_none), (38, retransmit_data, rf_none)] \<and>
     map record_sequence (writer_live w') = [38]"
proof -
  have inv: "writer_inv 4 8 demo_writer" by code_simp
  have wf: "sns_wf (an_reader_state demo_acknack)" using demo_acknack_wf by (simp add: wf_acknack_def)
  have "map_option fst (writer_on_acknack 8 demo_acknack 10 demo_writer []) = Some rs_none" by code_simp
  then obtain w' as where ok: "writer_on_acknack 8 demo_acknack 10 demo_writer [] = Some (rs_none, w', as)"
    by auto
  have "map (acknack_decision demo_acknack 10 demo_writer) (writer_live demo_writer) = [Deliver, Repair]"
    "map record_sequence (writer_live demo_writer) = [6, 38]" by code_simp+
  then obtain r s where "writer_live demo_writer = [r, s]" "record_sequence r = 6" "record_sequence s = 38"
    "acknack_decision demo_acknack 10 demo_writer r = Deliver" "acknack_decision demo_acknack 10 demo_writer s = Repair"
    by (auto simp: map_eq_Cons_conv)
  with ok on_acknack_correct [OF inv wf _ ok] show ?thesis
    by (auto simp: retains_def retained_record_def)
qed

text \<open>C27: a filled HEARTBEAT announces a range that the message builder and a reader accept, and
  that starts at the oldest sample still held, which is the first record of the history, and ends at
  the last one written; so every held sample lies in it, and an empty history announces the empty
  range after the last sample. It names the configured endpoints and carries the next count, which
  is all of the writer that changes.\<close>

theorem fill_heartbeat_range:
  assumes "writer_inv depth mx w" "writer_fill_heartbeat hb w = Some (rs_none, hb', w')"
  shows "heartbeat_range_ok hb' \<and> hb_last_sequence_number hb' = rw_last_sequence_number w \<and>
    (\<forall>r \<in> set (writer_live w). hb_first_sequence_number hb' \<le> record_sequence r \<and>
       record_sequence r \<le> hb_last_sequence_number hb') \<and>
    (if writer_live w = [] then hb_first_sequence_number hb' = hb_last_sequence_number hb' + 1
     else hb_first_sequence_number hb' = record_sequence (hd (writer_live w))) \<and>
    hb_reader_id hb' = wc_reader_id (rw_config w) \<and> hb_writer_id hb' = wc_writer_id (rw_config w) \<and>
    hb_count hb' = next_control_count (rw_heartbeat_count w) \<and> w' = w\<lparr>rw_heartbeat_count := hb_count hb'\<rparr>"
proof -
  have hb': "hb_last_sequence_number hb' = rw_last_sequence_number w" "hb_first_sequence_number hb' =
      (if writer_live w = [] then rw_last_sequence_number w + 1 else record_sequence (hd (writer_live w)))"
    "hb_reader_id hb' = wc_reader_id (rw_config w)" "hb_writer_id hb' = wc_writer_id (rw_config w)"
    "hb_count hb' = next_control_count (rw_heartbeat_count w)" "w' = w\<lparr>rw_heartbeat_count := hb_count hb'\<rparr>"
    using assms(2) unfolding writer_fill_heartbeat_eq [OF assms(1)] next_control_count_def by (auto split: if_splits)
  have last: "rw_last_sequence_number w < INT64_MAX" using assms(1) by (simp add: writer_inv_def)
  show ?thesis
  proof (cases "writer_live w")
    case Nil
    have "rw_last_sequence_number w + 1 \<noteq> 0" using word_increment(1) [OF last] by (metis add_is_0 one_neq_zero unat_0)
    then show ?thesis using Nil hb' last word_increment(2) [OF last]
      by (simp add: heartbeat_range_ok_def valid_sequence_number_def)
  next
    case (Cons r rs)
    have r: "valid_state_sequence (record_sequence r)" "record_sequence r \<le> rw_last_sequence_number w"
      "\<forall>x \<in> set rs. record_sequence r < record_sequence x" "\<forall>x \<in> set rs. record_sequence x \<le> rw_last_sequence_number w"
      using assms(1) Cons by (auto simp: writer_inv_def)
    have "record_sequence r - 1 \<le> record_sequence r"
      using r(1) by (simp add: valid_state_sequence_def word_le_nat_alt unat_minus_one)
    then show ?thesis using Cons hb' r last
      by (auto simp: heartbeat_range_ok_def valid_sequence_number_def valid_state_sequence_def)
  qed
qed

theorem fill_heartbeat_range_witness:
  "\<exists>hb w. writer_fill_heartbeat demo_heartbeat demo_writer = Some (rs_none, hb, w) \<and> heartbeat_range_ok hb \<and>
     hb_first_sequence_number hb = 6 \<and> hb_last_sequence_number hb = 38"
proof -
  have inv: "writer_inv 4 8 demo_writer" by code_simp
  have "map_option fst (writer_fill_heartbeat demo_heartbeat demo_writer) = Some rs_none" by code_simp
  then obtain hb w where hb: "writer_fill_heartbeat demo_heartbeat demo_writer = Some (rs_none, hb, w)" by auto
  have "record_sequence (hd (writer_live demo_writer)) = 6" "writer_live demo_writer \<noteq> []"
    "rw_last_sequence_number demo_writer = 38" by code_simp+
  with hb fill_heartbeat_range [OF inv hb] show ?thesis by auto
qed

text \<open>C35: control counts are compared in serial-number arithmetic. After \<open>k\<close> increments the count
  is newer than where it started exactly when \<open>k\<close>, reduced to 32 bits, is between 1 and
  \<open>2^31 - 1\<close>, also across the wrap-around.\<close>

theorem control_count_newer_iff:
  "control_count_is_newer ((next_control_count ^^ k) count) count \<longleftrightarrow> 0 < k mod 2 ^ 32 \<and> k mod 2 ^ 32 < 2 ^ 31"
proof -
  have "(next_control_count ^^ k) count = count + of_nat k"
    by (induction k) (simp_all add: next_control_count_def)
  moreover have "unat (of_nat k :: u32) = k mod 2 ^ 32"
    by (simp add: unat_of_nat)
  ultimately show ?thesis
    by (simp add: control_count_is_newer_def Let_def word_less_nat_alt unat_eq_zero [symmetric] unsigned_eq_0_iff [symmetric])
qed

end
