(* ===== verification/Reliable_Reader.thy ===== *)
theory Reliable_Reader
  imports Reliable_Writer
begin

text \<open>
  The reliable reader, class \<open>ReliableReader\<close> of
  \<open>src/include/openrtdds/rtps/reliability_state.hpp\<close>: a circular window of received flags whose
  base is the next expected sequence number. \<open>window\<close> is the template argument \<open>WindowBits\<close>.
  The reader is proved to refine the set of sequence numbers it has accepted.
\<close>

section \<open>Model\<close>

record reliable_reader_config =
  rc_reader_id :: entity_id
  rc_writer_id :: entity_id
  rc_initial_sequence_number :: u64

record reliable_reader =
  rr_config :: reliable_reader_config
  rr_received :: "bool list"
  rr_base :: u64
  rr_base_index :: nat
  rr_acknack_count :: u32
  rr_last_heartbeat_count :: u32
  rr_valid :: bool
  rr_heartbeat_count_initialized :: bool

definition reliable_reader_new :: "nat \<Rightarrow> reliable_reader_config \<Rightarrow> reliable_reader" where
  "reliable_reader_new window config =
     \<lparr>rr_config = config, rr_received = replicate window False,
      rr_base = rc_initial_sequence_number config, rr_base_index = 0, rr_acknack_count = 0,
      rr_last_heartbeat_count = 0, rr_valid = valid_state_sequence (rc_initial_sequence_number config),
      rr_heartbeat_count_initialized = False\<rparr>"

text \<open>
  The loop that advances the base over received samples. Each iteration clears a flag, so the
  number of set flags bounds the iterations.
\<close>

function advance_base ::
  "nat \<Rightarrow> bool list \<Rightarrow> nat \<Rightarrow> u64 \<Rightarrow> (bool list \<times> nat \<times> u64) option" where
  "advance_base window received base_index base =
     (if base_index < length received then
        if received ! base_index
        then advance_base window (received[base_index := False]) ((base_index + 1) mod window) (base + 1)
        else Some (received, base_index, base)
      else None)"
  by pat_completeness auto
termination
proof (relation "measure (\<lambda>(window, received, base_index, base). length (filter id received))")
  fix window received base_index and base :: u64
  assume "base_index < length received" "received ! base_index"
  then show "((window, received[base_index := False], (base_index + 1) mod window, base + 1),
      (window, received, base_index, base)) \<in> measure (\<lambda>(window, received, base_index, base). length (filter id received))"
    using count_update_del [of base_index received id False] by simp
qed simp

declare advance_base.simps [simp del]

type_synonym reader_result = "(reliability_error \<times> reliable_reader \<times> action_buffer) option"

definition reader_on_data ::
  "nat \<Rightarrow> nat \<Rightarrow> u64 \<Rightarrow> reliable_reader \<Rightarrow> action_buffer \<Rightarrow> reader_result" where
  "reader_on_data window cap sequence_number r actions =
     (if \<not> rr_valid r then Some (rs_invalid_configuration, r, actions)
      else if \<not> valid_state_sequence sequence_number then Some (rs_invalid_sequence_number, r, actions)
      else if sequence_number < rr_base r then Some (rs_stale_data, r, actions)
      else
        let offset = sequence_number - rr_base r
        in if offset \<ge> of_nat window then Some (rs_receive_window_exceeded, r, actions)
           else do {
             let slot = (rr_base_index r + unat offset) mod window;
             received \<leftarrow> rd (rr_received r) slot;
             if received then Some (rs_duplicate_data, r, actions)
             else if actions_remaining cap actions = 0 then Some (rs_action_capacity_exceeded, r, actions)
             else do {
               flags \<leftarrow> wr (rr_received r) slot True;
               let actions = snd (actions_push cap
                 (default_action\<lparr>ra_kind := sample_received, ra_sequence_number := sequence_number\<rparr>) actions);
               (flags, base_index, base) \<leftarrow> advance_base window flags (rr_base_index r) (rr_base r);
               Some (rs_none, r\<lparr>rr_received := flags, rr_base_index := base_index, rr_base := base\<rparr>, actions) } })"

definition valid_heartbeat_range :: "heartbeat \<Rightarrow> bool" where
  "valid_heartbeat_range hb \<longleftrightarrow> hb_first_sequence_number hb \<noteq> 0 \<and>
     hb_first_sequence_number hb \<le> INT64_MAX \<and> hb_last_sequence_number hb \<le> INT64_MAX \<and>
     hb_last_sequence_number hb \<ge> hb_first_sequence_number hb - 1"

text \<open>The loop of \<open>on_heartbeat\<close> that sets the bit of every missing sample.\<close>

definition missing_samples :: "nat \<Rightarrow> reliable_reader \<Rightarrow> u32 \<Rightarrow> sequence_number_set \<Rightarrow> sequence_number_set option" where
  "missing_samples window r num_bits state =
     for_loop 0 (unat num_bits) (\<lambda>offset state. do {
       received \<leftarrow> rd (rr_received r) ((rr_base_index r + offset) mod window);
       if \<not> received then map_option snd (sns_set (of_nat offset) state) else Some state }) state"

text \<open>The ACKNACK action that \<open>on_heartbeat\<close> fills in when a response is required.\<close>

definition heartbeat_acknack :: "nat \<Rightarrow> heartbeat \<Rightarrow> reliable_reader \<Rightarrow> reliability_action option" where
  "heartbeat_acknack window hb r = do {
     let action = default_action\<lparr>ra_kind := send_acknack, ra_reader_id := rc_reader_id (rr_config r),
       ra_writer_id := rc_writer_id (rr_config r), ra_control_count := next_control_count (rr_acknack_count r)\<rparr>;
     if hb_last_sequence_number hb \<ge> rr_base r then do {
       let available = hb_last_sequence_number hb - rr_base r + 1;
       let num_bits = (if available < of_nat window then ucast available else of_nat window);
       let state = snd (sns_reset (rr_base r) num_bits (ra_reader_state action));
       state \<leftarrow> missing_samples window r num_bits state;
       Some (action\<lparr>ra_reader_state := state, ra_final_flag := False\<rparr>) }
     else Some (action\<lparr>ra_reader_state := snd (sns_reset (rr_base r) 0 (ra_reader_state action)),
                       ra_final_flag := True\<rparr>) }"

definition reader_on_heartbeat ::
  "nat \<Rightarrow> nat \<Rightarrow> heartbeat \<Rightarrow> reliable_reader \<Rightarrow> action_buffer \<Rightarrow> reader_result" where
  "reader_on_heartbeat window cap hb r actions =
     (if \<not> rr_valid r then Some (rs_invalid_configuration, r, actions)
      else if \<not> valid_heartbeat_range hb then Some (rs_invalid_sequence_number, r, actions)
      else if hb_reader_id hb \<noteq> rc_reader_id (rr_config r) \<or> hb_writer_id hb \<noteq> rc_writer_id (rr_config r)
      then Some (rs_unexpected_peer, r, actions)
      else if rr_heartbeat_count_initialized r \<and> \<not> control_count_is_newer (hb_count hb) (rr_last_heartbeat_count r)
      then Some (rs_stale_control, r, actions)
      else if hb_last_sequence_number hb \<ge> rr_base r \<and> hb_first_sequence_number hb > rr_base r
      then Some (rs_gap_not_repairable, r, actions)
      else
        let writer_covers_base = hb_last_sequence_number hb \<ge> rr_base r;
            response_required = writer_covers_base \<or> \<not> hb_final_flag hb
        in if response_required \<and> actions_remaining cap actions = 0
           then Some (rs_action_capacity_exceeded, r, actions)
           else do {
             (r, actions) \<leftarrow>
               (if response_required then do {
                  action \<leftarrow> heartbeat_acknack window hb r;
                  Some (r\<lparr>rr_acknack_count := ra_control_count action\<rparr>, snd (actions_push cap action actions)) }
                else Some (r, actions));
             Some (rs_none, r\<lparr>rr_last_heartbeat_count := hb_count hb, rr_heartbeat_count_initialized := True\<rparr>, actions) })"

definition window_flag :: "nat \<Rightarrow> bool list \<Rightarrow> nat \<Rightarrow> nat \<Rightarrow> bool" where
  "window_flag window received base_index k = received ! ((base_index + k) mod window)"

definition reader_inv :: "nat \<Rightarrow> u64 \<Rightarrow> reliable_reader \<Rightarrow> bool" where
  "reader_inv window init r \<longleftrightarrow>
     0 < window \<and> window \<le> 256 \<and> length (rr_received r) = window \<and> rr_base_index r < window \<and> rr_valid r \<and>
     init \<noteq> 0 \<and> init \<le> rr_base r \<and> rr_base r \<le> INT64_MAX \<and>
     \<not> window_flag window (rr_received r) (rr_base_index r) 0 \<and>
     (\<forall>k < window. window_flag window (rr_received r) (rr_base_index r) k \<longrightarrow>
        unat (rr_base r) + k < unat INT64_MAX)"

definition reader_set :: "nat \<Rightarrow> u64 \<Rightarrow> reliable_reader \<Rightarrow> nat set" where
  "reader_set window init r =
     {unat init ..< unat (rr_base r)} \<union>
     {unat (rr_base r) + k | k. k < window \<and> window_flag window (rr_received r) (rr_base_index r) k}"

definition first_missing :: "u64 \<Rightarrow> nat set \<Rightarrow> nat" where
  "first_missing init R = (LEAST n. unat init \<le> n \<and> n \<notin> R)"

fun data_spec :: "nat \<Rightarrow> u64 \<Rightarrow> bool \<Rightarrow> u64 \<Rightarrow> nat set \<Rightarrow> reliability_error \<times> nat set" where
  "data_spec window init room n R =
     (if \<not> valid_state_sequence n then (rs_invalid_sequence_number, R)
      else if unat n < first_missing init R then (rs_stale_data, R)
      else if first_missing init R + window \<le> unat n then (rs_receive_window_exceeded, R)
      else if unat n \<in> R then (rs_duplicate_data, R)
      else if \<not> room then (rs_action_capacity_exceeded, R)
      else (rs_none, insert (unat n) R))"

definition received_action :: "u64 \<Rightarrow> reliability_action" where
  "received_action n = default_action\<lparr>ra_kind := sample_received, ra_sequence_number := n\<rparr>"

definition acknack_answers :: "nat \<Rightarrow> u64 \<Rightarrow> nat set \<Rightarrow> heartbeat \<Rightarrow> sequence_number_set \<Rightarrow> bool" where
  "acknack_answers window init R hb state \<longleftrightarrow>
     sns_wf state \<and> unat (sns_bitmap_base state) = first_missing init R \<and>
     (\<forall>n. sns_requests state n \<longleftrightarrow> first_missing init R \<le> unat n \<and> unat n < first_missing init R + window \<and>
        unat n \<le> unat (hb_last_sequence_number hb) \<and> unat n \<notin> R) \<and>
     (\<forall>n. sns_acknowledges state n \<longrightarrow> unat n < unat init \<or> unat n \<in> R)"

definition heartbeat_error :: "nat \<Rightarrow> heartbeat \<Rightarrow> reliable_reader \<Rightarrow> action_buffer \<Rightarrow> reliability_error" where
  "heartbeat_error cap hb r actions =
     (if \<not> valid_heartbeat_range hb then rs_invalid_sequence_number
      else if hb_reader_id hb \<noteq> rc_reader_id (rr_config r) \<or> hb_writer_id hb \<noteq> rc_writer_id (rr_config r)
      then rs_unexpected_peer
      else if rr_heartbeat_count_initialized r \<and> \<not> control_count_is_newer (hb_count hb) (rr_last_heartbeat_count r)
      then rs_stale_control
      else if rr_base r \<le> hb_last_sequence_number hb \<and> rr_base r < hb_first_sequence_number hb
      then rs_gap_not_repairable
      else if (rr_base r \<le> hb_last_sequence_number hb \<or> \<not> hb_final_flag hb) \<and> length actions = cap
      then rs_action_capacity_exceeded else rs_none)"

definition acknack_action :: "reliable_reader \<Rightarrow> heartbeat \<Rightarrow> sequence_number_set \<Rightarrow> reliability_action" where
  "acknack_action r hb state =
     default_action\<lparr>ra_kind := send_acknack, ra_reader_id := rc_reader_id (rr_config r),
       ra_writer_id := rc_writer_id (rr_config r), ra_control_count := next_control_count (rr_acknack_count r),
       ra_reader_state := state, ra_final_flag := (hb_last_sequence_number hb < rr_base r)\<rparr>"

definition response_required :: "heartbeat \<Rightarrow> reliable_reader \<Rightarrow> bool" where
  "response_required hb r \<longleftrightarrow> rr_base r \<le> hb_last_sequence_number hb \<or> \<not> hb_final_flag hb"

datatype reader_op = ReaderData u64 | ReaderHeartbeat heartbeat

fun reader_step ::
  "nat \<Rightarrow> nat \<Rightarrow> reader_op \<Rightarrow> reliable_reader \<Rightarrow> (reliability_error option \<times> reliable_reader) option" where
  "reader_step window cap (ReaderData n) r =
     map_option (\<lambda>(e, r, as). (Some e, r)) (reader_on_data window cap n r [])"
| "reader_step window cap (ReaderHeartbeat hb) r =
     map_option (\<lambda>(e, r, as). (None, r)) (reader_on_heartbeat window cap hb r [])"

fun reader_spec :: "nat \<Rightarrow> u64 \<Rightarrow> reader_op \<Rightarrow> nat set \<Rightarrow> reliability_error option \<times> nat set" where
  "reader_spec window init (ReaderData n) R = map_prod Some (\<lambda>R. R) (data_spec window init True n R)"
| "reader_spec window init (ReaderHeartbeat hb) R = (None, R)"

definition accepted_samples :: "reader_op list \<Rightarrow> reliability_error option list \<Rightarrow> nat list" where
  "accepted_samples ops rs =
     concat (map2 (\<lambda>op e. case op of ReaderData n \<Rightarrow> if e = Some rs_none then [unat n] else [] | _ \<Rightarrow> []) ops rs)"

definition demo_reader_config :: reliable_reader_config where
  "demo_reader_config = \<lparr>rc_reader_id = [0, 0, 1, 4], rc_writer_id = [0, 0, 1, 3], rc_initial_sequence_number = 1\<rparr>"

definition demo_reader :: reliable_reader where
  "demo_reader = snd (the (run_ops (reader_step 4 (Suc 0)) [ReaderData 3, ReaderData 1]
     (reliable_reader_new 4 demo_reader_config)))"

section \<open>The window as a set of sequence numbers\<close>

lemma window_flag_clear:
  assumes "length received = window" "base_index < window" "k < window"
  shows "window_flag window (received[base_index := False]) ((base_index + 1) mod window) k \<longleftrightarrow>
    k + 1 < window \<and> window_flag window received base_index (k + 1)"
proof -
  let ?i = "(base_index + (k + 1)) mod window"
  have i: "(Suc base_index mod window + k) mod window = ?i"
    by (simp add: mod_add_left_eq)
  have lt: "?i < length received" using assms by simp
  show ?thesis
  proof (cases "k + 1 < window")
    case True
    have "?i \<noteq> base_index"
      using mod_shift_inj [of "k + 1" window 0 base_index] True assms(2) by auto
    then show ?thesis using True by (simp add: window_flag_def i)
  next
    case False
    then have "k + 1 = window" using assms(3) by simp
    then have "?i = base_index" using assms(2) by simp
    then show ?thesis using False lt by (simp add: window_flag_def i)
  qed
qed

lemma advance_base_correct:
  assumes "length received = window" "base_index < window"
  shows "\<exists>m received'. m \<le> window \<and> (\<forall>k < m. window_flag window received base_index k) \<and>
    (m < window \<longrightarrow> \<not> window_flag window received base_index m) \<and>
    advance_base window received base_index base = Some (received', (base_index + m) mod window, base + of_nat m) \<and>
    length received' = window \<and>
    (\<forall>k < window. window_flag window received' ((base_index + m) mod window) k \<longleftrightarrow>
       k + m < window \<and> window_flag window received base_index (k + m))"
  using assms
proof (induction window received base_index base rule: advance_base.induct)
  case (1 window received base_index base)
  have here: "window_flag window received base_index 0 = received ! base_index"
    using 1(3) by (simp add: window_flag_def)
  show ?case
  proof (cases "received ! base_index")
    case False
    then show ?thesis using 1(2,3) here by (intro exI [of _ 0]) (simp add: advance_base.simps)
  next
    case True
    let ?received = "received[base_index := False]" and ?i = "(base_index + 1) mod window"
    have lt: "base_index < length received" using 1(2,3) by simp
    have "?i < window" using 1(3) by simp
    from 1(1) [OF lt True _ this] 1(2) obtain m received' where
      m: "m \<le> window" "\<forall>k < m. window_flag window ?received ?i k"
        "m < window \<longrightarrow> \<not> window_flag window ?received ?i m"
      and adv: "advance_base window ?received ?i (base + 1) = Some (received', (?i + m) mod window, base + 1 + of_nat m)"
      and r': "length received' = window" "\<forall>k < window. window_flag window received' ((?i + m) mod window) k \<longleftrightarrow>
       k + m < window \<and> window_flag window ?received ?i (k + m)"
      by auto
    note clear = window_flag_clear [OF 1(2,3)]
    have mw: "m < window"
    proof (rule ccontr)
      assume "\<not> m < window"
      then have "window_flag window ?received ?i (window - 1)" using m(1,2) 1(3) by simp
      then show False using clear [of "window - 1"] 1(3) by simp
    qed
    have idx: "(?i + m) mod window = (base_index + Suc m) mod window" by (simp add: mod_add_left_eq)
    have pre: "window_flag window received base_index k" if "k < Suc m" for k
      using that m(2) mw clear [of "k - 1"] here True by (cases k) auto
    have stop: "\<not> window_flag window received base_index (Suc m)" if "Suc m < window"
      using that m(3) mw clear [of m] by simp
    have flags: "window_flag window received' ((base_index + Suc m) mod window) k \<longleftrightarrow>
        k + Suc m < window \<and> window_flag window received base_index (k + Suc m)" if "k < window" for k
      using r'(2) that idx clear [of "k + m"] by auto
    have "advance_base window received base_index base =
        Some (received', (base_index + Suc m) mod window, base + of_nat (Suc m))"
      using adv lt True unfolding idx by (subst advance_base.simps) (simp add: ac_simps)
    with mw pre stop flags r'(1) show ?thesis
      by (intro exI [of _ "Suc m"] exI [of _ received']) simp
  qed
qed

lemma window_flag_set:
  assumes "length received = window" "base_index < window" "j < window" "k < window"
  shows "window_flag window (received[(base_index + j) mod window := True]) base_index k \<longleftrightarrow>
    k = j \<or> window_flag window received base_index k"
proof (cases "k = j")
  case True
  then show ?thesis using assms by (simp add: window_flag_def)
next
  case False
  then have "(base_index + j) mod window \<noteq> (base_index + k) mod window"
    using mod_shift_inj [of j window k base_index] assms(3,4) by auto
  then show ?thesis using False by (simp add: window_flag_def)
qed

lemma first_missing_base:
  assumes "reader_inv window init r"
  shows "first_missing init (reader_set window init r) = unat (rr_base r)"
  unfolding first_missing_def
proof (rule Least_equality)
  have "unat init \<le> unat (rr_base r)" using assms by (simp add: reader_inv_def word_le_nat_alt)
  moreover have "k \<noteq> 0" if "window_flag window (rr_received r) (rr_base_index r) k" for k
    using that assms by (cases k) (simp_all add: reader_inv_def)
  ultimately show "unat init \<le> unat (rr_base r) \<and> unat (rr_base r) \<notin> reader_set window init r"
    by (auto simp: reader_set_def)
next
  fix n assume "unat init \<le> n \<and> n \<notin> reader_set window init r"
  then show "unat (rr_base r) \<le> n" by (auto simp: reader_set_def)
qed

lemma reader_set_flag:
  assumes "reader_inv window init r" "unat (rr_base r) \<le> n" "n < unat (rr_base r) + window"
  shows "n \<in> reader_set window init r \<longleftrightarrow>
    window_flag window (rr_received r) (rr_base_index r) (n - unat (rr_base r))"
proof -
  obtain k where "n = unat (rr_base r) + k" using assms(2) le_Suc_ex by blast
  then show ?thesis using assms(3) by (auto simp: reader_set_def)
qed

section \<open>Receiving data\<close>

declare data_spec.simps [simp del]

lemma unat_INT64_MAX: "unat INT64_MAX = 2 ^ 63 - 1"
  by (simp add: INT64_MAX_def)

lemma reader_accepts:
  assumes inv: "reader_inv window init r" and n: "valid_state_sequence n" "rr_base r \<le> n"
    and j: "j = unat n - unat (rr_base r)" "j < window"
  shows "\<exists>received base_index base. advance_base window
      ((rr_received r)[(rr_base_index r + j) mod window := True]) (rr_base_index r) (rr_base r) =
        Some (received, base_index, base) \<and>
      reader_inv window init (r\<lparr>rr_received := received, rr_base_index := base_index, rr_base := base\<rparr>) \<and>
      reader_set window init (r\<lparr>rr_received := received, rr_base_index := base_index, rr_base := base\<rparr>) =
        insert (unat n) (reader_set window init r)"
proof -
  let ?f = "window_flag window (rr_received r) (rr_base_index r)"
  let ?received = "(rr_received r)[(rr_base_index r + j) mod window := True]"
  let ?g = "window_flag window ?received (rr_base_index r)"
  have w: "length ?received = window" "rr_base_index r < window" using inv by (simp_all add: reader_inv_def)
  obtain m received' where m: "m \<le> window" "\<forall>k < m. ?g k" "m < window \<longrightarrow> \<not> ?g m"
    and adv: "advance_base window ?received (rr_base_index r) (rr_base r) =
      Some (received', (rr_base_index r + m) mod window, rr_base r + of_nat m)"
    and r': "length received' = window"
      "\<forall>k < window. window_flag window received' ((rr_base_index r + m) mod window) k \<longleftrightarrow> k + m < window \<and> ?g (k + m)"
    using advance_base_correct [OF w] by blast
  have nj: "unat n = unat (rr_base r) + j" using n(2) j(1) by (simp add: word_le_nat_alt)
  have set: "?g k \<longleftrightarrow> k = j \<or> ?f k" if "k < window" for k
    by (rule window_flag_set) (use inv j that in \<open>simp_all add: reader_inv_def\<close>)
  have below: "unat (rr_base r) + k < unat INT64_MAX" if "?g k" "k < window" for k
    using set [OF that(2)] that inv n(1) nj by (auto simp: reader_inv_def valid_state_sequence_def word_less_nat_alt)
  have sum: "unat (rr_base r) + m \<le> unat INT64_MAX"
  proof (cases m)
    case 0
    then show ?thesis using inv by (simp add: reader_inv_def word_le_nat_alt)
  next
    case (Suc k)
    then show ?thesis using below [of k] m(1,2) by simp
  qed
  have base: "unat (rr_base r + of_nat m) = unat (rr_base r) + m"
    using sum unat_INT64_MAX by (simp add: unat_word_ariths unat_of_nat)
  let ?r = "r\<lparr>rr_received := received', rr_base_index := (rr_base_index r + m) mod window, rr_base := rr_base r + of_nat m\<rparr>"
  let ?h = "window_flag window received' ((rr_base_index r + m) mod window)"
  have w0: "0 < window" using w(2) by simp
  have range: "init \<le> rr_base r + of_nat m" "rr_base r + of_nat m \<le> INT64_MAX"
    using inv sum base by (simp_all add: reader_inv_def word_le_nat_alt)
  have "\<not> ?h 0" using r'(2) w0 m(3) by simp
  moreover have "unat (rr_base r + of_nat m) + k < unat INT64_MAX" if "k < window" "?h k" for k
    using below [of "k + m"] r'(2) that by (auto simp: base)
  ultimately have "reader_inv window init ?r"
    using inv r'(1) w0 range by (simp add: reader_inv_def)
  moreover have "reader_set window init ?r = insert (unat n) (reader_set window init r)" (is "?A = ?B")
  proof (rule set_eqI)
    fix x
    have init: "unat init \<le> unat (rr_base r)" using inv by (simp add: reader_inv_def word_le_nat_alt)
    have A: "x \<in> ?A \<longleftrightarrow> unat init \<le> x \<and> x < unat (rr_base r) + m \<or>
        (\<exists>k. x = unat (rr_base r) + (k + m) \<and> k + m < window \<and> ?g (k + m))"
      using r'(2) by (auto simp: reader_set_def base)
    have B: "x \<in> ?B \<longleftrightarrow> unat init \<le> x \<and> x < unat (rr_base r) \<or> (\<exists>k. x = unat (rr_base r) + k \<and> k < window \<and> ?g k)"
      using set j(2) by (auto simp: reader_set_def nj)
    show "x \<in> ?A \<longleftrightarrow> x \<in> ?B"
    proof (cases "x < unat (rr_base r) + m")
      case True
      then have "x < unat (rr_base r) \<or> (\<exists>k. x = unat (rr_base r) + k \<and> k < m)"
        by (metis add_less_cancel_left le_Suc_ex not_le)
      then show ?thesis unfolding A B using m(1,2) init True by fastforce
    next
      case False
      then obtain i where "x = unat (rr_base r) + (i + m)"
        by (metis add.assoc add.commute le_Suc_ex not_less)
      then show ?thesis unfolding A B by auto
    qed
  qed
  ultimately show ?thesis using adv by blast
qed

lemma reader_on_data_refines:
  assumes inv: "reader_inv window init r" and cap: "length actions \<le> cap"
  shows "\<exists>e r' as. reader_on_data window cap n r actions = Some (e, r', actions @ as) \<and>
    reader_inv window init r' \<and> rr_config r' = rr_config r \<and>
    as = (if e = rs_none then [received_action n] else []) \<and>
    data_spec window init (length actions < cap) n (reader_set window init r) = (e, reader_set window init r')"
proof -
  note fm = first_missing_base [OF inv]
  have w: "length (rr_received r) = window" "0 < window" "window \<le> 256" "rr_valid r"
    using inv by (simp_all add: reader_inv_def)
  show ?thesis
  proof (cases "valid_state_sequence n \<and> rr_base r \<le> n \<and> unat n < unat (rr_base r) + window")
    case False
    moreover have "n - rr_base r \<ge> of_nat window \<longleftrightarrow> unat (rr_base r) + window \<le> unat n" if "rr_base r \<le> n"
      using that w(3) by (simp add: word_le_nat_alt unat_sub unat_of_nat) arith
    ultimately show ?thesis
      using inv w by (auto simp: reader_on_data_def data_spec.simps fm word_less_nat_alt word_le_nat_alt Let_def)
  next
    case True
    let ?j = "unat n - unat (rr_base r)"
    have j: "unat (n - rr_base r) = ?j" "?j < window" using True by (auto simp: unat_sub word_le_nat_alt)
    have off: "\<not> n - rr_base r \<ge> of_nat window" using j w(3) by (simp add: word_le_nat_alt unat_of_nat)
    have slot: "(rr_base_index r + ?j) mod window < length (rr_received r)" using w by simp
    have flag: "rr_received r ! ((rr_base_index r + ?j) mod window) \<longleftrightarrow> unat n \<in> reader_set window init r"
      using reader_set_flag [OF inv, of "unat n"] True by (simp add: window_flag_def word_le_nat_alt)
    have spec: "data_spec window init (length actions < cap) n (reader_set window init r) =
      (if unat n \<in> reader_set window init r then (rs_duplicate_data, reader_set window init r)
       else if \<not> length actions < cap then (rs_action_capacity_exceeded, reader_set window init r)
       else (rs_none, insert (unat n) (reader_set window init r)))"
      using True by (simp add: data_spec.simps fm word_le_nat_alt)
    obtain received base_index base where adv: "advance_base window
      ((rr_received r)[(rr_base_index r + ?j) mod window := True]) (rr_base_index r) (rr_base r) =
        Some (received, base_index, base)"
      "reader_inv window init (r\<lparr>rr_received := received, rr_base_index := base_index, rr_base := base\<rparr>)"
      "reader_set window init (r\<lparr>rr_received := received, rr_base_index := base_index, rr_base := base\<rparr>) =
        insert (unat n) (reader_set window init r)"
      using reader_accepts [OF inv _ _ refl j(2)] True by blast
    show ?thesis
      using True off slot flag adv cap inv w
      by (auto simp: reader_on_data_def spec j(1) Let_def wr_def actions_remaining_def received_action_def)
  qed
qed

section \<open>Answering heartbeats\<close>

lemma missing_samples_correct:
  assumes inv: "reader_inv window init r" and n: "unat num_bits \<le> window"
    and state: "sns_wf state" "sns_num_bits state = num_bits" "\<forall>k < unat num_bits. \<not> sns_bit state k"
  shows "\<exists>s. missing_samples window r num_bits state = Some s \<and> sns_wf s \<and>
    sns_bitmap_base s = sns_bitmap_base state \<and> sns_num_bits s = num_bits \<and>
    (\<forall>k < unat num_bits. sns_bit s k \<longleftrightarrow> \<not> window_flag window (rr_received r) (rr_base_index r) k)"
proof -
  let ?P = "\<lambda>j s. sns_wf s \<and> sns_bitmap_base s = sns_bitmap_base state \<and> sns_num_bits s = num_bits \<and>
    (\<forall>k < unat num_bits. sns_bit s k \<longleftrightarrow> k < j \<and> \<not> window_flag window (rr_received r) (rr_base_index r) k)"
  have w: "0 < window" "length (rr_received r) = window" using inv by (simp_all add: reader_inv_def)
  have "\<exists>s. missing_samples window r num_bits state = Some s \<and> ?P (0 + unat num_bits) s"
    unfolding missing_samples_def
  proof (rule for_loop_invariant)
    show "?P 0 state" using state by simp
  next
    fix j s assume j: "0 \<le> j" "j < 0 + unat num_bits" and P: "?P j s"
    have u: "unat (of_nat j :: u32) = j"
      using j unsigned_less [of num_bits, where 'a = nat] by (simp add: unat_of_nat)
    have lt: "of_nat j < sns_num_bits s" using P j u by (simp add: word_less_nat_alt)
    have idx: "j div 32 < length (sns_bitmap s)" using sns_index [OF _ lt] P u by simp
    have ins: "?P (Suc j) (sns_insert j s)" if "\<not> window_flag window (rr_received r) (rr_base_index r) j"
      using P j idx that sns_insert_wf [of s j] by (auto simp: sns_bit_insert less_Suc_eq)
    have skip: "?P (Suc j) s" if "window_flag window (rr_received r) (rr_base_index r) j"
      using P that by (auto simp: less_Suc_eq)
    show "\<exists>s'. (do { received \<leftarrow> rd (rr_received r) ((rr_base_index r + j) mod window);
        if \<not> received then map_option snd (sns_set (of_nat j) s) else Some s }) = Some s' \<and> ?P (Suc j) s'"
      using P w ins skip lt sns_set_insert [of s "of_nat j"] u
      by (cases "window_flag window (rr_received r) (rr_base_index r) j") (simp_all add: window_flag_def)
  qed
  then show ?thesis by simp
qed

text \<open>What the ACKNACK that answers a heartbeat says, in terms of the set of accepted samples.\<close>

lemma reader_base_valid: "reader_inv window init r \<Longrightarrow> valid_sequence_number (rr_base r)"
  by (auto simp: reader_inv_def valid_sequence_number_def word_le_0_iff)

lemma reader_num_bits:
  assumes inv: "reader_inv window init r" and last: "rr_base r \<le> last_seq" "last_seq \<le> INT64_MAX"
    and nb: "num_bits = (if last_seq - rr_base r + 1 < of_nat window then ucast (last_seq - rr_base r + 1) else of_nat window :: u32)"
  shows "unat num_bits = min (unat last_seq - unat (rr_base r) + 1) window" "sns_range_ok (rr_base r) num_bits"
proof -
  have w: "0 < window" "window \<le> 256" using inv by (simp_all add: reader_inv_def)
  have d: "unat (last_seq - rr_base r) = unat last_seq - unat (rr_base r)" using last(1) by (simp add: unat_sub)
  have le: "unat last_seq \<le> 2 ^ 63 - 1" "unat (rr_base r) \<le> unat last_seq"
    using last unat_INT64_MAX by (simp_all add: word_le_nat_alt)
  have av: "unat (last_seq - rr_base r + 1) = unat last_seq - unat (rr_base r) + 1"
    using le d by (simp add: unat_word_ariths)
  have wn: "unat (of_nat window :: u64) = window" "unat (of_nat window :: u32) = window"
    using w by (simp_all add: unat_of_nat)
  show u: "unat num_bits = min (unat last_seq - unat (rr_base r) + 1) window"
    using unat_ucast_offset(1) [of "last_seq - rr_base r + 1" "of_nat window"] w(2) av wn
    by (auto simp: nb word_less_nat_alt min_def unsigned_ucast_eq take_bit_nat_eq_self)
  have nz: "num_bits \<noteq> 0" using u w(1) by (auto simp: min_def split: if_splits)
  have "unat (num_bits - 1) = unat num_bits - 1" using nz by (simp add: unat_minus_one)
  then have "unat (rr_base r) + unat (num_bits - 1) \<le> unat INT64_MAX"
    using u le last(2) by (simp add: word_le_nat_alt)
  then have "rr_base r \<le> INT64_MAX - ucast (num_bits - 1)"
    by (simp add: word_le_nat_alt unat_sub_if')
  then show "sns_range_ok (rr_base r) num_bits"
    using reader_base_valid [OF inv] u w(2) by (simp add: sns_range_ok_def maximum_bits_def word_le_nat_alt)
qed

lemma unat_sequence_offset:
  assumes "(base :: u64) \<le> n"
  shows "n - base < ucast (num_bits :: u32) \<longleftrightarrow> unat n < unat base + unat num_bits" "unat (n - base) = unat n - unat base"
  using assms by (auto simp: word_less_nat_alt word_le_nat_alt unat_sub)

lemma acknack_answers_missing:
  assumes inv: "reader_inv window init r" and covers: "rr_base r \<le> hb_last_sequence_number hb"
    and nb: "unat num_bits = min (unat (hb_last_sequence_number hb) - unat (rr_base r) + 1) window"
    and s: "sns_wf s" "sns_bitmap_base s = rr_base r" "sns_num_bits s = num_bits"
      "\<forall>k < unat num_bits. sns_bit s k \<longleftrightarrow> \<not> window_flag window (rr_received r) (rr_base_index r) k"
  shows "acknack_answers window init (reader_set window init r) hb s"
proof -
  let ?R = "reader_set window init r"
  have le: "unat (rr_base r) \<le> unat (hb_last_sequence_number hb)" using covers by (simp add: word_le_nat_alt)
  have bit: "sns_bit s (unat n - unat (rr_base r)) \<longleftrightarrow> unat n \<notin> ?R"
    if "unat (rr_base r) \<le> unat n" "unat n < unat (rr_base r) + unat num_bits" for n :: u64
  proof -
    have "unat num_bits \<le> window" using nb by simp
    moreover have "unat n - unat (rr_base r) < unat num_bits" using that by linarith
    ultimately show ?thesis using reader_set_flag [OF inv, of "unat n"] that s(4) by simp
  qed
  have req: "sns_requests s n \<longleftrightarrow> unat (rr_base r) \<le> unat n \<and> unat n < unat (rr_base r) + unat num_bits \<and> unat n \<notin> ?R" for n
    using bit [of n] unat_sequence_offset(1) [of "rr_base r" n num_bits] unat_sequence_offset(2) [of "rr_base r" n]
    by (auto simp: sns_requests_def s(2,3) word_le_nat_alt)
  have ack: "unat n < unat init \<or> unat n \<in> ?R" if "sns_acknowledges s n" for n
  proof (cases "n < rr_base r")
    case True
    then show ?thesis by (auto simp: reader_set_def word_less_nat_alt)
  next
    case False
    then show ?thesis using that bit [of n] unat_sequence_offset(1) [of "rr_base r" n num_bits] unat_sequence_offset(2) [of "rr_base r" n]
      by (auto simp: sns_acknowledges_def s(2,3) word_less_nat_alt word_le_nat_alt not_less)
  qed
  show ?thesis
    unfolding acknack_answers_def first_missing_base [OF inv] req
    using s ack le nb by (auto simp: min_def split: if_splits)
qed

lemma acknack_answers_empty:
  assumes inv: "reader_inv window init r" and "hb_last_sequence_number hb < rr_base r"
    and s: "s = \<lparr>sns_bitmap_base = rr_base r, sns_num_bits = 0, sns_bitmap = replicate maximum_words 0\<rparr>"
  shows "acknack_answers window init (reader_set window init r) hb s"
proof -
  have "sns_wf s"
    unfolding s by (rule sns_reset_wf) (use reader_base_valid [OF inv] in \<open>simp add: sns_range_ok_def maximum_bits_def\<close>)
  then show ?thesis
    using assms(2) unfolding acknack_answers_def first_missing_base [OF inv]
    by (auto simp: s sns_requests_def sns_acknowledges_def reader_set_def word_less_nat_alt)
qed

lemma heartbeat_acknack_answers:
  assumes inv: "reader_inv window init r" and hb: "valid_heartbeat_range hb"
  shows "\<exists>state. heartbeat_acknack window hb r = Some (acknack_action r hb state) \<and>
    acknack_answers window init (reader_set window init r) hb state"
proof (cases "rr_base r \<le> hb_last_sequence_number hb")
  case covers: True
  let ?base = "rr_base r" and ?last = "hb_last_sequence_number hb"
  let ?nb = "if ?last - ?base + 1 < of_nat window then ucast (?last - ?base + 1) else of_nat window :: u32"
  have last: "?last \<le> INT64_MAX" using hb by (simp add: valid_heartbeat_range_def)
  note nb = reader_num_bits [OF inv covers last refl]
  let ?state = "\<lparr>sns_bitmap_base = ?base, sns_num_bits = ?nb, sns_bitmap = replicate maximum_words 0\<rparr>"
  have state: "snd (sns_reset ?base ?nb s) = ?state" for s
    using nb(2) by (simp add: sns_reset_ok)
  have bits: "unat ?nb \<le> window" "\<forall>k < unat ?nb. \<not> sns_bit ?state k"
    using nb(1) inv by (auto simp: reader_inv_def)
  obtain s where s: "missing_samples window r ?nb ?state = Some s" "sns_wf s" "sns_bitmap_base s = ?base"
    "sns_num_bits s = ?nb"
    "\<forall>k < unat ?nb. sns_bit s k \<longleftrightarrow> \<not> window_flag window (rr_received r) (rr_base_index r) k"
    using missing_samples_correct [OF inv bits(1) sns_reset_wf [OF nb(2)] _ bits(2)] by auto
  have "acknack_answers window init (reader_set window init r) hb s"
    by (rule acknack_answers_missing [OF inv covers nb(1) s(2-5)])
  moreover have "heartbeat_acknack window hb r = Some (acknack_action r hb s)"
    unfolding heartbeat_acknack_def Let_def state using covers s(1)
    by (simp add: acknack_action_def not_less)
  ultimately show ?thesis by blast
next
  case False
  let ?state = "\<lparr>sns_bitmap_base = rr_base r, sns_num_bits = 0, sns_bitmap = replicate maximum_words 0\<rparr>"
  have "acknack_answers window init (reader_set window init r) hb ?state"
    by (rule acknack_answers_empty [OF inv _ refl]) (use False in simp)
  moreover have "heartbeat_acknack window hb r = Some (acknack_action r hb ?state)"
    using False reader_base_valid [OF inv]
    by (simp add: heartbeat_acknack_def acknack_action_def sns_reset_ok sns_range_ok_def maximum_bits_def)
  ultimately show ?thesis by blast
qed

lemma reader_inv_counts [simp]:
  "reader_inv window init (r\<lparr>rr_acknack_count := c\<rparr>) = reader_inv window init r"
  "reader_inv window init (r\<lparr>rr_last_heartbeat_count := d, rr_heartbeat_count_initialized := b\<rparr>) = reader_inv window init r"
  "reader_set window init (r\<lparr>rr_acknack_count := c\<rparr>) = reader_set window init r"
  "reader_set window init (r\<lparr>rr_last_heartbeat_count := d, rr_heartbeat_count_initialized := b\<rparr>) = reader_set window init r"
  by (simp_all add: reader_inv_def reader_set_def)

lemma reader_on_heartbeat_cases:
  assumes "rr_valid r" "length actions \<le> cap"
  shows "reader_on_heartbeat window cap hb r actions =
    (if heartbeat_error cap hb r actions \<noteq> rs_none then Some (heartbeat_error cap hb r actions, r, actions)
     else if response_required hb r
     then map_option (\<lambda>action. (rs_none, r\<lparr>rr_acknack_count := ra_control_count action,
            rr_last_heartbeat_count := hb_count hb, rr_heartbeat_count_initialized := True\<rparr>, actions @ [action]))
            (heartbeat_acknack window hb r)
     else Some (rs_none, r\<lparr>rr_last_heartbeat_count := hb_count hb, rr_heartbeat_count_initialized := True\<rparr>, actions))"
  using assms
  by (cases "heartbeat_acknack window hb r")
     (simp_all add: reader_on_heartbeat_def heartbeat_error_def response_required_def actions_remaining_def Let_def)

lemma reader_on_heartbeat_answers:
  assumes inv: "reader_inv window init r" and cap: "length actions \<le> cap"
  shows "\<exists>r' as. reader_on_heartbeat window cap hb r actions = Some (heartbeat_error cap hb r actions, r', actions @ as) \<and>
    reader_inv window init r' \<and> reader_set window init r' = reader_set window init r \<and> rr_config r' = rr_config r \<and>
    (if heartbeat_error cap hb r actions = rs_none \<and> response_required hb r
     then \<exists>state. as = [acknack_action r hb state] \<and> acknack_answers window init (reader_set window init r) hb state
     else as = [])"
proof -
  have valid: "rr_valid r" using inv by (simp add: reader_inv_def)
  show ?thesis
  proof (cases "heartbeat_error cap hb r actions = rs_none")
    case True
    then have "valid_heartbeat_range hb" by (auto simp: heartbeat_error_def split: if_splits)
    with heartbeat_acknack_answers [OF inv] obtain state where
      "heartbeat_acknack window hb r = Some (acknack_action r hb state)"
      "acknack_answers window init (reader_set window init r) hb state" by blast
    with True inv show ?thesis by (auto simp: reader_on_heartbeat_cases [OF valid cap])
  next
    case False
    then have "reader_on_heartbeat window cap hb r actions = Some (heartbeat_error cap hb r actions, r, actions @ [])"
      using reader_on_heartbeat_cases [OF valid cap, of window hb] by simp
    with inv False show ?thesis by (intro exI [of _ r] exI [of _ "[]"]) simp
  qed
qed

section \<open>Runs of a reader\<close>

text \<open>One call with an empty action buffer; the result is the answer to a DATA submessage.\<close>

lemma reader_step_refines:
  assumes "reader_inv window init r" "0 < cap"
  shows "\<exists>e r'. reader_step window cap op r = Some (e, r') \<and> reader_inv window init r' \<and>
    reader_spec window init op (reader_set window init r) = (e, reader_set window init r')"
proof (cases op)
  case (ReaderData n)
  then show ?thesis using reader_on_data_refines [OF assms(1), of "[]" cap n] assms(2) by auto
next
  case (ReaderHeartbeat hb)
  then show ?thesis using reader_on_heartbeat_answers [OF assms(1), of "[]" cap hb] by auto
qed

interpretation reader: refinement "reader_inv window init" "reader_set window init"
  "reader_step window (Suc cap)" "reader_spec window init" for window init cap
  by unfold_locales (simp add: reader_step_refines)

lemma reader_new:
  assumes "0 < window" "window \<le> 256" "valid_state_sequence (rc_initial_sequence_number config)"
  shows "reader_inv window (rc_initial_sequence_number config) (reliable_reader_new window config)"
    and "reader_set window (rc_initial_sequence_number config) (reliable_reader_new window config) = {}"
  using assms by (auto simp: reader_inv_def reader_set_def reliable_reader_new_def window_flag_def valid_state_sequence_def)

lemma accepted_once:
  "run_spec (reader_spec window init) ops R = (rs, R') \<Longrightarrow>
   distinct (accepted_samples ops rs) \<and> set (accepted_samples ops rs) \<inter> R = {} \<and> R' = R \<union> set (accepted_samples ops rs)"
proof (induction ops arbitrary: R rs)
  case Nil
  then show ?case by (simp add: accepted_samples_def)
next
  case (Cons op ops)
  obtain e R1 rs1 where step: "reader_spec window init op R = (e, R1)" "run_spec (reader_spec window init) ops R1 = (rs1, R')"
    "rs = e # rs1"
    using Cons.prems by (auto split: prod.splits)
  note IH = Cons.IH [OF step(2)]
  show ?case
  proof (cases op)
    case (ReaderData n)
    then have "e = Some rs_none \<and> unat n \<notin> R \<and> R1 = insert (unat n) R \<or> e \<noteq> Some rs_none \<and> R1 = R"
      using step(1) by (auto simp: data_spec.simps split: if_splits)
    then show ?thesis using IH step(3) ReaderData by (auto simp: accepted_samples_def)
  next
    case (ReaderHeartbeat hb)
    then show ?thesis using IH step(1,3) by (auto simp: accepted_samples_def)
  qed
qed

section \<open>Properties\<close>

text \<open>C13: over every interleaving of DATA and HEARTBEAT submessages, no call of the reader reads or
  writes outside its window, and it answers each DATA exactly as a reader that remembers the set of
  all accepted sequence numbers would: stale below the first missing one, out of the window from
  \<open>WindowBits\<close> above it, duplicate when in the set, otherwise accepted. The next expected
  sequence number is the first missing one.\<close>

theorem reader_refines_set:
  assumes "0 < window" "window \<le> 256" "valid_state_sequence (rc_initial_sequence_number config)"
  shows "\<exists>rs r. run_ops (reader_step window (Suc cap)) ops (reliable_reader_new window config) = Some (rs, r) \<and>
    (\<exists>R. run_spec (reader_spec window (rc_initial_sequence_number config)) ops {} = (rs, R) \<and>
       unat (rr_base r) = first_missing (rc_initial_sequence_number config) R)"
  using reader.run_refines [OF reader_new(1) [OF assms], of cap ops] reader_new(2) [OF assms] first_missing_base
  by fastforce

theorem reader_refines_set_witness:
  "\<exists>rs r. run_ops (reader_step 4 1) [ReaderData 3, ReaderData 1, ReaderData 3, ReaderData 9]
      (reliable_reader_new 4 demo_reader_config) = Some (rs, r) \<and>
    (\<exists>R. run_spec (reader_spec 4 1) [ReaderData 3, ReaderData 1, ReaderData 3, ReaderData 9] {} = (rs, R) \<and>
       unat (rr_base r) = first_missing 1 R)"
  using reader_refines_set [of 4 demo_reader_config 0 "[ReaderData 3, ReaderData 1, ReaderData 3, ReaderData 9]"]
  by (simp add: demo_reader_config_def valid_state_sequence_def INT64_MAX_def)

text \<open>C15: whatever arrives, in whatever order and however often, the reader accepts no
  sequence number twice.\<close>

theorem reader_accepts_once:
  assumes "0 < window" "window \<le> 256" "valid_state_sequence (rc_initial_sequence_number config)"
    and "run_ops (reader_step window (Suc cap)) ops (reliable_reader_new window config) = Some (rs, r)"
  shows "distinct (accepted_samples ops rs)"
  using reader.run_refines [OF reader_new(1) [OF assms(1-3)], of cap ops] reader_new(2) [OF assms(1-3)] assms(4)
    accepted_once [of window "rc_initial_sequence_number config" ops "{}" rs]
  by auto

theorem reader_accepts_once_witness:
  "\<exists>rs r. run_ops (reader_step 4 1) [ReaderData 3, ReaderData 1, ReaderData 3, ReaderData 2]
      (reliable_reader_new 4 demo_reader_config) = Some (rs, r) \<and>
     rs = [Some rs_none, Some rs_none, Some rs_duplicate_data, Some rs_none] \<and>
     distinct (accepted_samples [ReaderData 3, ReaderData 1, ReaderData 3, ReaderData 2] rs)"
proof -
  let ?ops = "[ReaderData 3, ReaderData 1, ReaderData 3, ReaderData 2]"
  have "map_option fst (run_ops (reader_step 4 1) ?ops (reliable_reader_new 4 demo_reader_config)) =
      Some [Some rs_none, Some rs_none, Some rs_duplicate_data, Some rs_none]"
    by code_simp
  then obtain r where r: "run_ops (reader_step 4 (Suc 0)) ?ops (reliable_reader_new 4 demo_reader_config) =
      Some ([Some rs_none, Some rs_none, Some rs_duplicate_data, Some rs_none], r)"
    by auto
  have init: "valid_state_sequence (rc_initial_sequence_number demo_reader_config)" by code_simp
  show ?thesis using reader_accepts_once [OF _ _ init r] r by auto
qed

text \<open>C17: an accepted HEARTBEAT that needs an answer gets exactly one ACKNACK, with a
  well-formed set whose base is the first missing sequence number and that requests exactly the
  missing samples in the window up to the writer's last; whatever it acknowledges was received or
  precedes the reader's start.\<close>

theorem on_heartbeat_correct:
  assumes "reader_inv window init r" "length actions \<le> cap"
    and "reader_on_heartbeat window cap hb r actions = Some (rs_none, r', actions')" "response_required hb r"
  shows "\<exists>state. actions' = actions @ [acknack_action r hb state] \<and>
    acknack_answers window init (reader_set window init r) hb state \<and>
    reader_set window init r' = reader_set window init r"
  using reader_on_heartbeat_answers [OF assms(1,2), of hb] assms(3,4) by auto

theorem on_heartbeat_correct_witness:
  "\<exists>r' state. reader_on_heartbeat 4 1 (demo_heartbeat\<lparr>hb_first_sequence_number := 1, hb_last_sequence_number := 4\<rparr>)
       demo_reader [] = Some (rs_none, r', [acknack_action demo_reader
         (demo_heartbeat\<lparr>hb_first_sequence_number := 1, hb_last_sequence_number := 4\<rparr>) state]) \<and>
     sns_requests state 2 \<and> \<not> sns_requests state 3"
proof -
  let ?hb = "demo_heartbeat\<lparr>hb_first_sequence_number := 1, hb_last_sequence_number := 4\<rparr>"
  have config: "valid_state_sequence (rc_initial_sequence_number demo_reader_config)" by code_simp
  have w: "0 < (4 :: nat)" "(4 :: nat) \<le> 256" by simp_all
  obtain rs r where run: "run_ops (reader_step 4 (Suc 0)) [ReaderData 3, ReaderData 1]
      (reliable_reader_new 4 demo_reader_config) = Some (rs, r)"
    "reader_inv 4 (rc_initial_sequence_number demo_reader_config) r"
    using reader.run_refines [OF reader_new(1) [OF w config], of 0 "[ReaderData 3, ReaderData 1]"] by blast
  have "demo_reader = r" by (simp only: demo_reader_def run option.sel snd_conv)
  then have inv: "reader_inv 4 1 demo_reader" using run(2) by (simp add: demo_reader_config_def)
  have set: "first_missing 1 (reader_set 4 1 demo_reader) = 2" "2 \<notin> reader_set 4 1 demo_reader" "3 \<in> reader_set 4 1 demo_reader"
  proof -
    have base: "rr_base demo_reader = 2" by code_simp
    show "first_missing 1 (reader_set 4 1 demo_reader) = 2"
      using first_missing_base [OF inv] base by simp
    have flags: "\<not> window_flag 4 (rr_received demo_reader) (rr_base_index demo_reader) 0"
      "window_flag 4 (rr_received demo_reader) (rr_base_index demo_reader) 1" by code_simp+
    show "2 \<notin> reader_set 4 1 demo_reader" "3 \<in> reader_set 4 1 demo_reader"
      using reader_set_flag [OF inv, of 2] reader_set_flag [OF inv, of 3] base flags by simp_all
  qed
  have "map_option fst (reader_on_heartbeat 4 1 ?hb demo_reader []) = Some rs_none" by code_simp
  then obtain r' as where ok: "reader_on_heartbeat 4 1 ?hb demo_reader [] = Some (rs_none, r', as)" by auto
  have req: "response_required ?hb demo_reader" by code_simp
  from on_heartbeat_correct [OF inv _ ok req] obtain state where
    state: "as = [acknack_action demo_reader ?hb state]"
      "acknack_answers 4 1 (reader_set 4 1 demo_reader) ?hb state" by auto
  then have "sns_requests state n \<longleftrightarrow> 2 \<le> unat n \<and> unat n < 6 \<and> unat n \<le> 4 \<and> unat n \<notin> reader_set 4 1 demo_reader" for n
    unfolding acknack_answers_def set(1) by simp
  from this [of 2] this [of 3] set ok state(1) show ?thesis by auto
qed

end
