(* ===== verification/Static_Entities.thy ===== *)
theory Static_Entities
  imports Cdr Reliable_Reader
begin

text \<open>
  The static DDS entities of \<open>src/include/openrtdds/dds/static_entities.hpp\<close> and
  \<open>src/src/dds/static_entities.cpp\<close>: participants, topics, the typed \<open>DataWriter\<close> and \<open>DataReader\<close>,
  which compose the CDR codec, the DATA, HEARTBEAT and ACKNACK messages and the reliable writer and
  reader. The template arguments are arguments: \<open>depth\<close> and \<open>mx\<close> of the writer, \<open>window\<close> of the
  reader, \<open>cap\<close> of the action buffer, and the type support as a record of its members. A
  buffer argument is a span, returned with what the call wrote into it. The \<open>VehicleState\<close> type
  support is the one of \<open>src/examples/static_dds_udp.cpp\<close>.

  The last part puts one writer and one reader on an unreliable network that loses, reorders,
  duplicates datagrams and mixes in those of others, as a step relation over the calls of the two
  entities.
\<close>

section \<open>Model\<close>

datatype dds_error =
  dds_none | dds_invalid_participant | dds_invalid_topic | dds_invalid_endpoint | dds_serialization_failed
  | dds_deserialization_failed | dds_rtps_data_failed | dds_reliability_message_failed
  | dds_reliability_state_failed | dds_unexpected_participant | dds_unexpected_endpoint | dds_invalid_action

record dds_result =
  dds_error :: dds_error
  dds_cdr_error :: cdr_error
  dds_rtps_error :: rtps_error
  dds_reliability_message_error :: reliability_message_error
  dds_reliability_error :: reliability_error
  dds_bytes :: nat
  dds_sequence_number :: u64

definition dds_success :: dds_result where
  "dds_success =
     \<lparr>dds_error = dds_none, dds_cdr_error = cdr_none, dds_rtps_error = rtps_none,
      dds_reliability_message_error = rel_none, dds_reliability_error = rs_none, dds_bytes = 0,
      dds_sequence_number = 0\<rparr>"

definition dds_ok :: "dds_result \<Rightarrow> bool" where
  "dds_ok r \<longleftrightarrow> dds_error r = dds_none"

record domain_participant_config =
  dp_domain_id :: u32
  dp_version :: protocol_version
  dp_vendor_id :: vendor_id
  dp_guid_prefix :: guid_prefix

record domain_participant =
  dp_config :: domain_participant_config
  dp_valid :: bool

definition nonzero_octets :: "byte list \<Rightarrow> bool" where
  "nonzero_octets octets \<longleftrightarrow> list_ex (\<lambda>octet. octet \<noteq> 0) octets"

definition domain_participant_new :: "domain_participant_config \<Rightarrow> domain_participant" where
  "domain_participant_new config =
     \<lparr>dp_config = config,
      dp_valid = (pv_major (dp_version config) = 2 \<and> pv_minor (dp_version config) \<noteq> 0 \<and>
        pv_minor (dp_version config) \<le> 5 \<and> nonzero_octets (dp_guid_prefix config))\<rparr>"

text \<open>\<open>Publisher\<close> and \<open>Subscriber\<close> hold the same copy of their participant.\<close>

record participant_child =
  pc_participant :: domain_participant_config
  pc_valid :: bool

definition participant_child_new :: "domain_participant \<Rightarrow> participant_child" where
  "participant_child_new participant = \<lparr>pc_participant = dp_config participant, pc_valid = dp_valid participant\<rparr>"

record topic_config =
  tc_topic_id :: u32
  tc_type_id :: u32

record 'a type_support =
  ts_type_id :: u32
  ts_default :: 'a
  ts_serialize :: "'a \<Rightarrow> cdr_writer \<Rightarrow> (bool \<times> cdr_writer) option"
  ts_deserialize :: "cdr_reader \<Rightarrow> 'a \<Rightarrow> (bool \<times> 'a \<times> cdr_reader) option"

record topic =
  tp_config :: topic_config
  tp_valid :: bool

definition topic_new :: "'a type_support \<Rightarrow> topic_config \<Rightarrow> topic" where
  "topic_new ts config =
     \<lparr>tp_config = config,
      tp_valid = (tc_topic_id config \<noteq> 0 \<and> tc_type_id config \<noteq> 0 \<and> tc_type_id config = ts_type_id ts)\<rparr>"

record static_endpoint_config =
  se_reader_id :: entity_id
  se_writer_id :: entity_id
  se_remote_guid_prefix :: guid_prefix
  se_byte_order :: byte_order

record reliable_writer_qos =
  wq_max_repair_attempts :: byte
  wq_repair_window_ns :: u64

definition valid_endpoint :: "static_endpoint_config \<Rightarrow> bool" where
  "valid_endpoint endpoint \<longleftrightarrow>
     (let byte_order_valid = (se_byte_order endpoint = big_endian \<or> se_byte_order endpoint = little_endian)
      in nonzero_octets (se_reader_id endpoint) \<and> nonzero_octets (se_writer_id endpoint) \<and>
         nonzero_octets (se_remote_guid_prefix endpoint) \<and> byte_order_valid)"

definition reliability_result :: "reliability_error \<Rightarrow> dds_result" where
  "reliability_result e =
     dds_success\<lparr>dds_error := dds_reliability_state_failed, dds_reliability_error := e\<rparr>"

definition make_writer_config :: "static_endpoint_config \<Rightarrow> reliable_writer_qos \<Rightarrow> reliable_writer_config" where
  "make_writer_config endpoint qos =
     \<lparr>wc_reader_id = se_reader_id endpoint, wc_writer_id = se_writer_id endpoint,
      wc_max_repair_attempts = wq_max_repair_attempts qos, wc_repair_window_ns = wq_repair_window_ns qos\<rparr>"

definition make_reader_config :: "static_endpoint_config \<Rightarrow> reliable_reader_config" where
  "make_reader_config endpoint =
     \<lparr>rc_reader_id = se_reader_id endpoint, rc_writer_id = se_writer_id endpoint, rc_initial_sequence_number = 1\<rparr>"

text \<open>\<open>DataWriter\<close> and \<open>DataReader\<close> start with the same members.\<close>

record data_endpoint =
  de_participant :: domain_participant_config
  de_topic :: topic_config
  de_endpoint :: static_endpoint_config
  de_participant_valid :: bool
  de_topic_valid :: bool
  de_endpoint_valid :: bool
  de_valid :: bool

record data_writer = data_endpoint +
  dw_serialized :: "byte list"
  dw_reliability :: reliable_writer
  dw_next_sequence :: u64

record data_reader = data_endpoint +
  dr_reliability :: reliable_reader

definition data_writer_new ::
  "nat \<Rightarrow> nat \<Rightarrow> participant_child \<Rightarrow> topic \<Rightarrow> static_endpoint_config \<Rightarrow> reliable_writer_qos \<Rightarrow> data_writer" where
  "data_writer_new depth mx publisher tp endpoint qos =
     (let endpoint_valid = (valid_endpoint endpoint \<and> wq_repair_window_ns qos \<noteq> 0)
      in \<lparr>de_participant = pc_participant publisher, de_topic = tp_config tp, de_endpoint = endpoint,
          de_participant_valid = pc_valid publisher, de_topic_valid = tp_valid tp,
          de_endpoint_valid = endpoint_valid,
          de_valid = (pc_valid publisher \<and> tp_valid tp \<and> endpoint_valid),
          dw_serialized = replicate mx 0,
          dw_reliability = reliable_writer_new depth mx (make_writer_config endpoint qos),
          dw_next_sequence = 1\<rparr>)"

definition data_reader_new ::
  "nat \<Rightarrow> participant_child \<Rightarrow> topic \<Rightarrow> static_endpoint_config \<Rightarrow> data_reader" where
  "data_reader_new window subscriber tp endpoint =
     \<lparr>de_participant = pc_participant subscriber, de_topic = tp_config tp, de_endpoint = endpoint,
      de_participant_valid = pc_valid subscriber, de_topic_valid = tp_valid tp,
      de_endpoint_valid = valid_endpoint endpoint,
      de_valid = (pc_valid subscriber \<and> tp_valid tp \<and> valid_endpoint endpoint),
      dr_reliability = reliable_reader_new window (make_reader_config endpoint)\<rparr>"

definition invalid_result :: "('b) data_endpoint_scheme \<Rightarrow> dds_result" where
  "invalid_result e =
     dds_success\<lparr>dds_error :=
       (if \<not> de_endpoint_valid e then dds_invalid_endpoint
        else if \<not> de_topic_valid e then dds_invalid_topic else dds_invalid_participant)\<rparr>"

definition make_data_config :: "u64 \<Rightarrow> data_writer \<Rightarrow> data_message_config" where
  "make_data_config sequence_number w =
     \<lparr>dc_version = dp_version (de_participant w), dc_vendor_id = dp_vendor_id (de_participant w),
      dc_guid_prefix = dp_guid_prefix (de_participant w), dc_reader_id = se_reader_id (de_endpoint w),
      dc_writer_id = se_writer_id (de_endpoint w), dc_sequence_number = sequence_number,
      dc_byte_order = se_byte_order (de_endpoint w)\<rparr>"

definition data_writer_write ::
  "'a type_support \<Rightarrow> nat \<Rightarrow> nat \<Rightarrow> 'a \<Rightarrow> u64 \<Rightarrow> span \<Rightarrow> data_writer \<Rightarrow> (dds_result \<times> span \<times> data_writer) option" where
  "data_writer_write ts depth mx sample now_ns datagram w =
     (if \<not> de_valid w then Some (invalid_result w, datagram, w)
      else do {
        (begun, cdr) \<leftarrow> cw_begin (se_byte_order (de_endpoint w)) (cdr_writer_new (Span (dw_serialized w)));
        (ok, cdr) \<leftarrow> (if begun then ts_serialize ts sample cdr else Some (False, cdr));
        let w = w\<lparr>dw_serialized := span_bytes (cw_buffer cdr)\<rparr>;
        if \<not> ok
        then Some (dds_success\<lparr>dds_error := dds_serialization_failed, dds_cdr_error := cw_error cdr\<rparr>, datagram, w)
        else do {
          serialized \<leftarrow> rd_block (dw_serialized w) 0 (cw_offset cdr);
          (built, builder) \<leftarrow> data_build (make_data_config (dw_next_sequence w) w) (Span serialized)
             (data_builder_new datagram);
          let datagram = db_buffer builder;
          if \<not> built
          then Some (dds_success\<lparr>dds_error := dds_rtps_data_failed, dds_rtps_error := db_error builder\<rparr>, datagram, w)
          else do {
            (e, reliability, actions) \<leftarrow> writer_write depth mx 1 (Span serialized) (dw_next_sequence w) now_ns
              (dw_reliability w) [];
            let w = w\<lparr>dw_reliability := reliability\<rparr>;
            if e \<noteq> rs_none then Some (reliability_result e, datagram, w)
            else Some (dds_success\<lparr>dds_bytes := db_size builder, dds_sequence_number := dw_next_sequence w\<rparr>,
                       datagram, w\<lparr>dw_next_sequence := dw_next_sequence w + 1\<rparr>) } } })"

text \<open>The bytes an action points at: \<open>ra_data\<close> is the index of a history record.\<close>

definition action_payload :: "reliability_action \<Rightarrow> reliable_writer \<Rightarrow> span option" where
  "action_payload action w =
     (case ra_data action of
        None \<Rightarrow> Some (Null (ra_data_size action))
      | Some slot \<Rightarrow> do {
          record \<leftarrow> rd (rw_records w) slot;
          bytes \<leftarrow> rd_block (bs_payload (wr_sample record)) 0 (ra_data_size action);
          Some (Span bytes) })"

definition build_data_action ::
  "reliability_action \<Rightarrow> span \<Rightarrow> data_writer \<Rightarrow> (dds_result \<times> span) option" where
  "build_data_action action datagram w =
     (if \<not> de_valid w then Some (invalid_result w, datagram)
      else if (ra_kind action \<noteq> send_data \<and> ra_kind action \<noteq> retransmit_data) \<or>
              ra_data action = None \<or> ra_data_size action < 4
      then Some (dds_success\<lparr>dds_error := dds_invalid_action\<rparr>, datagram)
      else do {
        payload \<leftarrow> action_payload action (dw_reliability w);
        (built, builder) \<leftarrow> data_build (make_data_config (ra_sequence_number action) w) payload
          (data_builder_new datagram);
        if \<not> built
        then Some (dds_success\<lparr>dds_error := dds_rtps_data_failed, dds_rtps_error := db_error builder\<rparr>,
                   db_buffer builder)
        else Some (dds_success\<lparr>dds_bytes := db_size builder, dds_sequence_number := ra_sequence_number action\<rparr>,
                   db_buffer builder) })"

definition participant_header :: "domain_participant_config \<Rightarrow> byte_order \<Rightarrow> reliability_message_header" where
  "participant_header participant order =
     \<lparr>rh_version = dp_version participant, rh_vendor_id = dp_vendor_id participant,
      rh_guid_prefix = dp_guid_prefix participant, rh_byte_order = order\<rparr>"

text \<open>A default-constructed HEARTBEAT with its header and final flag.\<close>

definition initial_heartbeat :: "reliability_message_header \<Rightarrow> bool \<Rightarrow> heartbeat" where
  "initial_heartbeat h final_flag =
     \<lparr>hb_header = h, hb_reader_id = replicate 4 0, hb_writer_id = replicate 4 0, hb_first_sequence_number = 1,
      hb_last_sequence_number = 0, hb_count = 1, hb_final_flag = final_flag, hb_liveliness_flag = False\<rparr>"

definition data_writer_heartbeat ::
  "span \<Rightarrow> bool \<Rightarrow> data_writer \<Rightarrow> (dds_result \<times> span \<times> data_writer) option" where
  "data_writer_heartbeat datagram final_flag w =
     (if \<not> de_valid w then Some (invalid_result w, datagram, w)
      else do {
        let heartbeat = initial_heartbeat (participant_header (de_participant w) (se_byte_order (de_endpoint w))) final_flag;
        (e, heartbeat, reliability) \<leftarrow> writer_fill_heartbeat heartbeat (dw_reliability w);
        let w = w\<lparr>dw_reliability := reliability\<rparr>;
        if e \<noteq> rs_none then Some (reliability_result e, datagram, w)
        else do {
          (built, builder) \<leftarrow> build_heartbeat heartbeat (reliability_builder_new datagram);
          if \<not> built
          then Some (dds_success\<lparr>dds_error := dds_reliability_message_failed,
                                 dds_reliability_message_error := rb_error builder\<rparr>, rb_buffer builder, w)
          else Some (dds_success\<lparr>dds_bytes := rb_size builder,
                                 dds_sequence_number := hb_last_sequence_number heartbeat\<rparr>,
                     rb_buffer builder, w) } })"

definition data_writer_on_acknack ::
  "nat \<Rightarrow> span \<Rightarrow> u64 \<Rightarrow> data_writer \<Rightarrow> action_buffer \<Rightarrow> (dds_result \<times> data_writer \<times> action_buffer) option" where
  "data_writer_on_acknack cap datagram now_ns w actions =
     (if \<not> de_valid w then Some (invalid_result w, w, actions)
      else do {
        parsed \<leftarrow> parse_acknack_message datagram;
        case parsed of
          Inl e \<Rightarrow> Some (dds_success\<lparr>dds_error := dds_reliability_message_failed,
                                      dds_reliability_message_error := e\<rparr>, w, actions)
        | Inr acknack \<Rightarrow>
            if rh_guid_prefix (an_header acknack) \<noteq> se_remote_guid_prefix (de_endpoint w)
            then Some (dds_success\<lparr>dds_error := dds_unexpected_participant\<rparr>, w, actions)
            else do {
              (e, reliability, actions) \<leftarrow> writer_on_acknack cap acknack now_ns (dw_reliability w) actions;
              let w = w\<lparr>dw_reliability := reliability\<rparr>;
              if e \<noteq> rs_none then Some (reliability_result e, w, actions)
              else Some (dds_success, w, actions) } })"

definition data_writer_on_timer ::
  "nat \<Rightarrow> u64 \<Rightarrow> data_writer \<Rightarrow> action_buffer \<Rightarrow> (dds_result \<times> data_writer \<times> action_buffer) option" where
  "data_writer_on_timer cap now_ns w actions =
     (if \<not> de_valid w then Some (invalid_result w, w, actions)
      else do {
        (e, reliability, actions) \<leftarrow> writer_on_timer cap now_ns (dw_reliability w) actions;
        Some (if e = rs_none then dds_success else reliability_result e, w\<lparr>dw_reliability := reliability\<rparr>, actions) })"

definition data_reader_take ::
  "'a type_support \<Rightarrow> nat \<Rightarrow> span \<Rightarrow> 'a \<Rightarrow> data_reader \<Rightarrow> (dds_result \<times> 'a \<times> data_reader) option" where
  "data_reader_take ts window datagram sample r =
     (if \<not> de_valid r then Some (invalid_result r, sample, r)
      else do {
        parsed \<leftarrow> parse_data_message datagram;
        case parsed of
          Inl e \<Rightarrow> Some (dds_success\<lparr>dds_error := dds_rtps_data_failed, dds_rtps_error := e\<rparr>, sample, r)
        | Inr view \<Rightarrow>
            if dv_guid_prefix view \<noteq> se_remote_guid_prefix (de_endpoint r)
            then Some (dds_success\<lparr>dds_error := dds_unexpected_participant\<rparr>, sample, r)
            else if dv_reader_id view \<noteq> se_reader_id (de_endpoint r) \<or> dv_writer_id view \<noteq> se_writer_id (de_endpoint r)
            then Some (dds_success\<lparr>dds_error := dds_unexpected_endpoint\<rparr>, sample, r)
            else do {
              (begun, cdr) \<leftarrow> cr_begin (cdr_reader_new (Span (dv_payload view)));
              (ok, candidate, cdr) \<leftarrow> (if begun then ts_deserialize ts cdr (ts_default ts) else Some (False, ts_default ts, cdr));
              if \<not> ok
              then Some (dds_success\<lparr>dds_error := dds_deserialization_failed, dds_cdr_error := cr_error cdr\<rparr>, sample, r)
              else do {
                (e, reliability, actions) \<leftarrow> reader_on_data window 1 (dv_sequence_number view) (dr_reliability r) [];
                let r = r\<lparr>dr_reliability := reliability\<rparr>;
                if e \<noteq> rs_none then Some (reliability_result e, sample, r)
                else Some (dds_success\<lparr>dds_bytes := span_size datagram, dds_sequence_number := dv_sequence_number view\<rparr>,
                           candidate, r) } } })"

definition reader_acknack :: "reliability_action \<Rightarrow> data_reader \<Rightarrow> acknack" where
  "reader_acknack action r =
     \<lparr>an_header = participant_header (de_participant r) (se_byte_order (de_endpoint r)),
      an_reader_id = ra_reader_id action, an_writer_id = ra_writer_id action,
      an_reader_state = ra_reader_state action, an_count = ra_control_count action,
      an_final_flag = ra_final_flag action\<rparr>"

definition data_reader_on_heartbeat ::
  "nat \<Rightarrow> span \<Rightarrow> span \<Rightarrow> data_reader \<Rightarrow> (dds_result \<times> span \<times> data_reader) option" where
  "data_reader_on_heartbeat window datagram response r =
     (if \<not> de_valid r then Some (invalid_result r, response, r)
      else do {
        parsed \<leftarrow> parse_heartbeat_message datagram;
        case parsed of
          Inl e \<Rightarrow> Some (dds_success\<lparr>dds_error := dds_reliability_message_failed,
                                      dds_reliability_message_error := e\<rparr>, response, r)
        | Inr heartbeat \<Rightarrow>
            if rh_guid_prefix (hb_header heartbeat) \<noteq> se_remote_guid_prefix (de_endpoint r)
            then Some (dds_success\<lparr>dds_error := dds_unexpected_participant\<rparr>, response, r)
            else do {
              (e, reliability, actions) \<leftarrow> reader_on_heartbeat window 1 heartbeat (dr_reliability r) [];
              let r = r\<lparr>dr_reliability := reliability\<rparr>;
              if e \<noteq> rs_none then Some (reliability_result e, response, r)
              else if length actions = 0 then Some (dds_success, response, r)
              else do {
                action \<leftarrow> rd actions 0;
                (built, builder) \<leftarrow> build_acknack (reader_acknack action r) (reliability_builder_new response);
                if \<not> built
                then Some (dds_success\<lparr>dds_error := dds_reliability_message_failed,
                                       dds_reliability_message_error := rb_error builder\<rparr>, rb_buffer builder, r)
                else Some (dds_success\<lparr>dds_bytes := rb_size builder\<rparr>, rb_buffer builder, r) } } })"

record vehicle_state =
  vs_timestamp_ns :: u64
  vs_velocity_mps :: u32

definition vehicle_serialize :: "vehicle_state \<Rightarrow> cdr_writer \<Rightarrow> (bool \<times> cdr_writer) option" where
  "vehicle_serialize sample w = do {
     (ok, w) \<leftarrow> cw_write_uint64 (vs_timestamp_ns sample) w;
     if ok then cw_write_float32 (vs_velocity_mps sample) w else Some (False, w) }"

definition vehicle_deserialize :: "cdr_reader \<Rightarrow> vehicle_state \<Rightarrow> (bool \<times> vehicle_state \<times> cdr_reader) option" where
  "vehicle_deserialize r sample = do {
     (timestamp, r) \<leftarrow> cr_read_uint64 r;
     case timestamp of
       None \<Rightarrow> Some (False, sample, r)
     | Some timestamp \<Rightarrow> do {
         let sample = sample\<lparr>vs_timestamp_ns := timestamp\<rparr>;
         (velocity, r) \<leftarrow> cr_read_float32 r;
         case velocity of
           None \<Rightarrow> Some (False, sample, r)
         | Some velocity \<Rightarrow> Some (True, sample\<lparr>vs_velocity_mps := velocity\<rparr>, r) } }"

definition vehicle_type_support :: "vehicle_state type_support" where
  "vehicle_type_support =
     \<lparr>ts_type_id = 0x56535431, ts_default = \<lparr>vs_timestamp_ns = 0, vs_velocity_mps = 0\<rparr>,
      ts_serialize = vehicle_serialize, ts_deserialize = vehicle_deserialize\<rparr>"

section \<open>A writer and a reader on a network\<close>

text \<open>
  The state of a writer and a reader with what passed between them: the datagrams on the network,
  the samples that \<open>write\<close> accepted, the samples that \<open>take\<close> returned, each with its sequence number, and the
  actions that \<open>on_acknack\<close> and \<open>on_timer\<close> reported. A datagram on the network stays there, so it
  may be received again, late or never.
\<close>

record 'a dds_system =
  sy_writer :: data_writer
  sy_reader :: data_reader
  sy_net :: "byte list set"
  sy_written :: "(u64 \<times> 'a) list"
  sy_taken :: "(u64 \<times> 'a) list"
  sy_reported :: "reliability_action list"

definition dds_start :: "data_writer \<Rightarrow> data_reader \<Rightarrow> 'a dds_system" where
  "dds_start w r = \<lparr>sy_writer = w, sy_reader = r, sy_net = {}, sy_written = [], sy_taken = [], sy_reported = []\<rparr>"

definition sent_datagrams :: "dds_result \<Rightarrow> span \<Rightarrow> byte list set" where
  "sent_datagrams res datagram =
     (if dds_ok res \<and> dds_bytes res \<noteq> 0 then {take (dds_bytes res) (span_bytes datagram)} else {})"

text \<open>The retransmissions that a caller sends for the actions \<open>on_acknack\<close> reported.\<close>

definition retransmitted :: "span \<Rightarrow> data_writer \<Rightarrow> reliability_action list \<Rightarrow> byte list set" where
  "retransmitted buffer w actions =
     \<Union> (set (map (\<lambda>a. case build_data_action a buffer w of None \<Rightarrow> {} | Some (res, d) \<Rightarrow> sent_datagrams res d)
       actions))"

text \<open>
  A datagram of somebody else, in which nothing is forged in the name of the two endpoints: no DATA
  that names the reader's matched writer, by the remote participant and both entity ids, and no
  ACKNACK that names the writer's matched reader. Everything else is allowed: malformed bytes, the
  messages of other participants, those of other endpoints of the same two participants, and any
  HEARTBEAT, one that names the matched writer included.
\<close>

definition foreign_datagram :: "data_writer \<Rightarrow> data_reader \<Rightarrow> byte list \<Rightarrow> bool" where
  "foreign_datagram w r m \<longleftrightarrow>
     (case parse_data_message (Span m) of
        Some (Inr v) \<Rightarrow> \<not> (dv_guid_prefix v = se_remote_guid_prefix (de_endpoint r) \<and>
          dv_reader_id v = se_reader_id (de_endpoint r) \<and> dv_writer_id v = se_writer_id (de_endpoint r))
      | _ \<Rightarrow> True) \<and>
     (case parse_acknack_message (Span m) of
        Some (Inr v) \<Rightarrow> \<not> (rh_guid_prefix (an_header v) = se_remote_guid_prefix (de_endpoint w) \<and>
          an_reader_id v = se_reader_id (de_endpoint w) \<and> an_writer_id v = se_writer_id (de_endpoint w))
      | _ \<Rightarrow> True)"

inductive dds_step ::
  "'a type_support \<Rightarrow> nat \<Rightarrow> nat \<Rightarrow> nat \<Rightarrow> nat \<Rightarrow> 'a dds_system \<Rightarrow> 'a dds_system \<Rightarrow> bool"
  for ts :: "'a type_support" and depth mx window cap :: nat where
  Write: "data_writer_write ts depth mx x now_ns buffer (sy_writer s) = Some (res, d, w) \<Longrightarrow>
    dds_step ts depth mx window cap s (s\<lparr>sy_writer := w, sy_net := sy_net s \<union> sent_datagrams res d,
      sy_written := sy_written s @ (if dds_ok res then [(dds_sequence_number res, x)] else [])\<rparr>)"
| Heartbeat: "data_writer_heartbeat buffer final_flag (sy_writer s) = Some (res, d, w) \<Longrightarrow>
    dds_step ts depth mx window cap s (s\<lparr>sy_writer := w, sy_net := sy_net s \<union> sent_datagrams res d\<rparr>)"
| AckNack: "m \<in> sy_net s \<Longrightarrow> data_writer_on_acknack cap (Span m) now_ns (sy_writer s) [] = Some (res, w, actions) \<Longrightarrow>
    dds_step ts depth mx window cap s (s\<lparr>sy_writer := w, sy_net := sy_net s \<union> retransmitted buffer w actions,
      sy_reported := sy_reported s @ actions\<rparr>)"
| Timer: "data_writer_on_timer cap now_ns (sy_writer s) [] = Some (res, w, actions) \<Longrightarrow>
    dds_step ts depth mx window cap s (s\<lparr>sy_writer := w, sy_reported := sy_reported s @ actions\<rparr>)"
| Take: "m \<in> sy_net s \<Longrightarrow> data_reader_take ts window (Span m) x (sy_reader s) = Some (res, y, r) \<Longrightarrow>
    dds_step ts depth mx window cap s (s\<lparr>sy_reader := r,
      sy_taken := sy_taken s @ (if dds_ok res then [(dds_sequence_number res, y)] else [])\<rparr>)"
| OnHeartbeat: "m \<in> sy_net s \<Longrightarrow> data_reader_on_heartbeat window (Span m) response (sy_reader s) = Some (res, d, r) \<Longrightarrow>
    dds_step ts depth mx window cap s (s\<lparr>sy_reader := r, sy_net := sy_net s \<union> sent_datagrams res d\<rparr>)"
| Foreign: "foreign_datagram (sy_writer s) (sy_reader s) m \<Longrightarrow>
    dds_step ts depth mx window cap s (s\<lparr>sy_net := insert m (sy_net s)\<rparr>)"

definition carries :: "'a type_support \<Rightarrow> byte list \<Rightarrow> 'a \<Rightarrow> bool" where
  "carries ts p x \<longleftrightarrow> (\<exists>r r'. cr_begin (cdr_reader_new (Span p)) = Some (True, r) \<and>
     ts_deserialize ts r (ts_default ts) = Some (True, x, r'))"

definition record_bytes :: "writer_record \<Rightarrow> byte list" where
  "record_bytes r = take (bs_size (wr_sample r)) (bs_payload (wr_sample r))"

definition same_endpoint :: "'b data_endpoint_scheme \<Rightarrow> 'b data_endpoint_scheme \<Rightarrow> bool" where
  "same_endpoint e e' \<longleftrightarrow> de_participant e' = de_participant e \<and> de_endpoint e' = de_endpoint e \<and> de_valid e' = de_valid e"

definition wf_endpoint :: "'b data_endpoint_scheme \<Rightarrow> bool" where
  "wf_endpoint e \<longleftrightarrow> wf_vendor_id (dp_vendor_id (de_participant e)) \<and> wf_guid_prefix (dp_guid_prefix (de_participant e)) \<and>
     wf_entity_id (se_reader_id (de_endpoint e)) \<and> wf_entity_id (se_writer_id (de_endpoint e))"

definition dw_inv :: "nat \<Rightarrow> nat \<Rightarrow> data_writer \<Rightarrow> bool" where
  "dw_inv depth mx w \<longleftrightarrow> wf_endpoint w \<and> mx \<le> SIZE_MAX \<and> length (dw_serialized w) = mx \<and>
     writer_inv depth mx (dw_reliability w) \<and>
     wc_reader_id (rw_config (dw_reliability w)) = se_reader_id (de_endpoint w) \<and>
     wc_writer_id (rw_config (dw_reliability w)) = se_writer_id (de_endpoint w)"

definition dr_inv :: "nat \<Rightarrow> data_reader \<Rightarrow> bool" where
  "dr_inv window r \<longleftrightarrow> wf_endpoint r \<and> reader_inv window 1 (dr_reliability r) \<and>
     rc_reader_id (rr_config (dr_reliability r)) = se_reader_id (de_endpoint r) \<and>
     rc_writer_id (rr_config (dr_reliability r)) = se_writer_id (de_endpoint r)"

definition data_datagram_ok :: "'a type_support \<Rightarrow> static_endpoint_config \<Rightarrow> (u64 \<times> 'a) list \<Rightarrow> byte list \<Rightarrow> bool" where
  "data_datagram_ok ts e written m \<longleftrightarrow>
     (\<forall>v. parse_data_message (Span m) = Some (Inr v) \<longrightarrow> dv_guid_prefix v = se_remote_guid_prefix e \<longrightarrow>
        dv_reader_id v = se_reader_id e \<longrightarrow> dv_writer_id v = se_writer_id e \<longrightarrow>
        (\<exists>x. (dv_sequence_number v, x) \<in> set written \<and> carries ts (dv_payload v) x))"

definition acknack_datagram_ok :: "static_endpoint_config \<Rightarrow> (u64 \<times> 'a) list \<Rightarrow> byte list \<Rightarrow> bool" where
  "acknack_datagram_ok e taken m \<longleftrightarrow>
     (\<forall>v. parse_acknack_message (Span m) = Some (Inr v) \<longrightarrow> rh_guid_prefix (an_header v) = se_remote_guid_prefix e \<longrightarrow>
        an_reader_id v = se_reader_id e \<longrightarrow> an_writer_id v = se_writer_id e \<longrightarrow>
        (\<forall>n. sns_acknowledges (an_reader_state v) n \<longrightarrow> n = 0 \<or> n \<in> fst ` set taken))"

definition decisions_applied ::
  "(writer_record \<Rightarrow> decision) \<Rightarrow> data_writer \<Rightarrow> data_writer \<Rightarrow> reliability_action list \<Rightarrow> bool" where
  "decisions_applied f w w' as \<longleftrightarrow> same_endpoint w w' \<and> dw_serialized w' = dw_serialized w \<and>
     writer_live (dw_reliability w') = writer_live (writer_kept f (dw_reliability w)) \<and>
     (\<forall>a. action_payload a (dw_reliability w') = action_payload a (writer_kept f (dw_reliability w))) \<and>
     as = writer_actions f (dw_reliability w)"

definition endpoints_paired :: "data_writer \<Rightarrow> data_reader \<Rightarrow> bool" where
  "endpoints_paired w r \<longleftrightarrow>
     se_remote_guid_prefix (de_endpoint r) = dp_guid_prefix (de_participant w) \<and>
     se_remote_guid_prefix (de_endpoint w) = dp_guid_prefix (de_participant r) \<and>
     se_reader_id (de_endpoint r) = se_reader_id (de_endpoint w) \<and>
     se_writer_id (de_endpoint r) = se_writer_id (de_endpoint w)"

text \<open>The writer and the reader of \<open>static_dds_udp.cpp\<close>, with the sample it sends.\<close>

definition example_participant :: "byte \<Rightarrow> participant_child" where
  "example_participant seed = participant_child_new (domain_participant_new
     \<lparr>dp_domain_id = 7, dp_version = \<lparr>pv_major = 2, pv_minor = 5\<rparr>, dp_vendor_id = [0x12, 0x34],
      dp_guid_prefix = map (\<lambda>index. seed + of_nat index) [0..<12]\<rparr>)"

definition example_endpoint :: "byte \<Rightarrow> static_endpoint_config" where
  "example_endpoint seed =
     \<lparr>se_reader_id = [0, 0, 1, 4], se_writer_id = [0, 0, 2, 3],
      se_remote_guid_prefix = dp_guid_prefix (pc_participant (example_participant seed)), se_byte_order = little_endian\<rparr>"

definition example_topic :: topic where
  "example_topic = topic_new vehicle_type_support \<lparr>tc_topic_id = 0x1001, tc_type_id = 0x56535431\<rparr>"

definition example_writer :: data_writer where
  "example_writer = data_writer_new 4 32 (example_participant 0x10) example_topic (example_endpoint 0x40)
     \<lparr>wq_max_repair_attempts = 2, wq_repair_window_ns = 100000000\<rparr>"

definition example_reader :: data_reader where
  "example_reader = data_reader_new 8 (example_participant 0x40) example_topic (example_endpoint 0x10)"

definition example_sample :: vehicle_state where
  "example_sample = \<lparr>vs_timestamp_ns = 1000000, vs_velocity_mps = 0x41480000\<rparr>"

text \<open>The reader's answer to a HEARTBEAT that announced the sample it has not received: a negative acknowledgement.\<close>

definition example_acknack :: acknack where
  "example_acknack =
     \<lparr>an_header = participant_header (pc_participant (example_participant 0x40)) little_endian,
      an_reader_id = [0, 0, 1, 4], an_writer_id = [0, 0, 2, 3],
      an_reader_state = \<lparr>sns_bitmap_base = 1, sns_num_bits = 1, sns_bitmap = [0x80000000, 0, 0, 0, 0, 0, 0, 0]\<rparr>,
      an_count = 1, an_final_flag = False\<rparr>"

definition example_request :: "byte list" where
  "example_request = message_bytes (an_header example_acknack) (acknack_submessage example_acknack)"

text \<open>
  The invariant of the system: every record of the history carries the sample that was written
  with its number; the reader's window is the set of taken numbers; every DATA of the writer on
  the network carries a written sample, and every ACKNACK of the reader acknowledges taken ones only.
\<close>

definition record_ok :: "'a type_support \<Rightarrow> data_writer \<Rightarrow> (u64 \<times> 'a) list \<Rightarrow> writer_record \<Rightarrow> bool" where
  "record_ok ts w written r \<longleftrightarrow> data_config_ok (make_data_config (record_sequence r) w) (record_bytes r) \<and>
     (\<exists>x. (record_sequence r, x) \<in> set written \<and> carries ts (record_bytes r) x)"

text \<open>A successful result of \<open>build_data_action\<close>: the datagram repairs the sample the action names.\<close>

definition repairs ::
  "'a type_support \<Rightarrow> data_writer \<Rightarrow> (u64 \<times> 'a) list \<Rightarrow> reliability_action \<Rightarrow> dds_result \<Rightarrow> span \<Rightarrow> bool" where
  "repairs ts w written a res d \<longleftrightarrow> dds_ok res \<and> dds_sequence_number res = ra_sequence_number a \<and>
     dds_bytes res = data_message_overhead + ra_data_size a \<and>
     (\<exists>v x. parse_data_message (Span (take (dds_bytes res) (span_bytes d))) = Some (Inr v) \<and>
        dv_guid_prefix v = dp_guid_prefix (de_participant w) \<and> dv_reader_id v = se_reader_id (de_endpoint w) \<and>
        dv_writer_id v = se_writer_id (de_endpoint w) \<and> dv_sequence_number v = ra_sequence_number a \<and>
        (ra_sequence_number a, x) \<in> set written \<and> carries ts (dv_payload v) x)"

definition writer_side ::
  "'a type_support \<Rightarrow> nat \<Rightarrow> nat \<Rightarrow> data_writer \<Rightarrow> (u64 \<times> 'a) list \<Rightarrow> reliability_action list \<Rightarrow> bool" where
  "writer_side ts depth mx w written reported \<longleftrightarrow> dw_inv depth mx w \<and>
     list_all (record_ok ts w written) (writer_live (dw_reliability w)) \<and>
     (\<exists>tr. trace_inv (dw_reliability w) tr \<and> filter (\<lambda>a. ra_kind a \<noteq> send_data) tr = reported \<and>
        map ra_sequence_number (filter (\<lambda>a. ra_kind a = send_data) tr) = map fst written)"

definition reader_side :: "nat \<Rightarrow> data_reader \<Rightarrow> (u64 \<times> 'a) list \<Rightarrow> bool" where
  "reader_side window r taken \<longleftrightarrow> dr_inv window r \<and> distinct (map fst taken) \<and>
     reader_set window 1 (dr_reliability r) = unat ` fst ` set taken"

definition net_ok ::
  "'a type_support \<Rightarrow> data_writer \<Rightarrow> data_reader \<Rightarrow> (u64 \<times> 'a) list \<Rightarrow> (u64 \<times> 'a) list \<Rightarrow> byte list \<Rightarrow> bool" where
  "net_ok ts w r written taken m \<longleftrightarrow>
     data_datagram_ok ts (de_endpoint r) written m \<and> acknack_datagram_ok (de_endpoint w) taken m"

definition dds_inv :: "'a type_support \<Rightarrow> nat \<Rightarrow> nat \<Rightarrow> nat \<Rightarrow> 'a dds_system \<Rightarrow> bool" where
  "dds_inv ts depth mx window s \<longleftrightarrow>
     writer_side ts depth mx (sy_writer s) (sy_written s) (sy_reported s) \<and>
     reader_side window (sy_reader s) (sy_taken s) \<and> set (sy_taken s) \<subseteq> set (sy_written s) \<and>
     (\<forall>m \<in> sy_net s. net_ok ts (sy_writer s) (sy_reader s) (sy_written s) (sy_taken s) m) \<and>
     (\<forall>a \<in> set (sy_reported s). ra_kind a = sample_delivered \<longrightarrow> ra_sequence_number a \<in> fst ` set (sy_taken s))"

section \<open>Messages on the network\<close>

lemma data_build_bytes:
  assumes "wf_data_config c" "data_build c (Span p) (data_builder_new s) = Some (True, d)"
  shows "data_config_ok c p" "take (db_size d) (span_bytes (db_buffer d)) = data_bytes c p" "db_size d \<noteq> 0"
proof -
  from assms(2) obtain b where b: "s = Span b" "data_config_ok c p" "data_message_overhead + length p \<le> length b"
    by (auto elim: data_build_success)
  with data_build_cases [OF assms(1) refl _ b(2), of "data_builder_new s" b] assms length_data_bytes [OF assms(1), of p]
  show "data_config_ok c p" "take (db_size d) (span_bytes (db_buffer d)) = data_bytes c p" "db_size d \<noteq> 0"
    by (auto simp: data_message_overhead_44)
qed

lemma find_other_submessage:
  assumes "\<not> unsupported_version version" "wf_vendor_id vendor" "wf_guid_prefix prefix" "closed_ok s" "sm_id s \<noteq> wanted"
  shows "find_submessage (Span (rtps_header version vendor prefix @ encode_submessages [s] None)) wanted 0 =
    Some (Inl route_submessage_not_found)"
  using assms by (subst find_submessage_encoded) simp_all

lemma control_ids_distinct:
  "submessage_id_data \<noteq> submessage_id_acknack" "submessage_id_heartbeat \<noteq> submessage_id_acknack"
  "submessage_id_heartbeat \<noteq> submessage_id_data" "submessage_id_acknack \<noteq> submessage_id_data"
  by (simp_all add: submessage_id_data_def submessage_id_acknack_def submessage_id_heartbeat_def)

lemma parse_data_as_acknack:
  assumes "wf_data_config c" "data_config_ok c p"
  shows "parse_acknack_message (Span (data_bytes c p)) = Some (Inl rel_unsupported_submessage)"
proof -
  have "find_submessage (Span (data_bytes c p)) submessage_id_acknack 0 = Some (Inl route_submessage_not_found)"
    unfolding data_bytes_def using assms data_submessage_closed [OF assms(2,1)] control_ids_distinct
    by (intro find_other_submessage) (auto simp: wf_data_config_def data_config_ok_def)
  then show ?thesis by (simp add: parse_acknack_message_def parse_prefix_def)
qed

lemma find_other_message:
  assumes "wf_reliability_header h" "header_ok h" "closed_ok s" "sm_id s \<noteq> wanted"
  shows "find_submessage (Span (message_bytes h s)) wanted 0 = Some (Inl route_submessage_not_found)"
  unfolding message_bytes_def header_bytes_def
  using assms by (intro find_other_submessage) (auto simp: wf_reliability_header_def header_ok_def supported_version_iff)

lemma control_submessage_ids:
  "sm_id (heartbeat_submessage hb) = submessage_id_heartbeat" "sm_id (acknack_submessage an) = submessage_id_acknack"
  by (simp_all add: heartbeat_submessage_def acknack_submessage_def Let_def)

lemma parse_heartbeat_as_other:
  assumes "wf_heartbeat c" "header_ok (hb_header c)"
  shows "parse_data_message (Span (message_bytes (hb_header c) (heartbeat_submessage c))) = Some (Inl rtps_unsupported_submessage)"
    and "parse_acknack_message (Span (message_bytes (hb_header c) (heartbeat_submessage c))) = Some (Inl rel_unsupported_submessage)"
  using assms control_ids_distinct
  by (simp_all add: parse_data_message_def parse_acknack_message_def parse_prefix_def find_other_message
    heartbeat_submessage_closed wf_heartbeat_def [THEN iffD1] control_submessage_ids)

lemma parse_acknack_as_data:
  assumes "wf_acknack c" "header_ok (an_header c)"
  shows "parse_data_message (Span (message_bytes (an_header c) (acknack_submessage c))) = Some (Inl rtps_unsupported_submessage)"
  using assms control_ids_distinct
  by (simp add: parse_data_message_def find_other_message acknack_submessage_closed wf_acknack_def [THEN iffD1]
    control_submessage_ids)

lemma parse_acknack_message_total:
  "\<exists>parsed. parse_acknack_message message = Some parsed \<and> (\<forall>an. parsed = Inr an \<longrightarrow> sns_wf (an_reader_state an))"
proof -
  obtain p where p: "parse_prefix message submessage_id_acknack = Some p" using parse_prefix_total by blast
  show ?thesis
  proof (cases p)
    case (Inr v)
    then show ?thesis using p parse_acknack_content_total [of v] parse_acknack_content_wf [of v]
      by (auto simp: parse_acknack_message_def)
  qed (use p in \<open>simp add: parse_acknack_message_def\<close>)
qed

lemma parse_heartbeat_message_total: "\<exists>parsed. parse_heartbeat_message message = Some parsed"
proof -
  obtain p where p: "parse_prefix message submessage_id_heartbeat = Some p" using parse_prefix_total by blast
  then show ?thesis using parse_heartbeat_content_total by (cases p) (auto simp: parse_heartbeat_message_def)
qed

section \<open>What a type support promises\<close>

text \<open>
  The contract of a \<open>TypeSupport\<close>: its \<open>serialize\<close> only appends to a CDR writer, and its \<open>deserialize\<close>
  returns on every reader and gives back what \<open>serialize\<close> appended. A sample that does not fit
  may make \<open>serialize\<close> return false.
\<close>

locale type_support_laws =
  fixes ts :: "'a type_support"
  assumes serialize_defined: "supported_byte_order order \<Longrightarrow> 4 + length rest \<le> SIZE_MAX \<Longrightarrow>
      \<exists>ok w b. ts_serialize ts x (cw_at order (cdr_header order) rest) = Some (ok, w) \<and>
        cw_buffer w = Span b \<and> length b = 4 + length rest"
    and serialize_appends: "supported_byte_order order \<Longrightarrow> 4 + length rest \<le> SIZE_MAX \<Longrightarrow>
      ts_serialize ts x (cw_at order (cdr_header order) rest) = Some (True, w) \<Longrightarrow>
      \<exists>p rest'. w = cw_at order (cdr_header order @ p) rest' \<and> length p + length rest' = length rest"
    and deserialize_defined: "cr_begin (cdr_reader_new sp) = Some (True, r) \<Longrightarrow>
      \<exists>ok y r'. ts_deserialize ts r x = Some (ok, y, r')"
    and deserialize_inverts: "supported_byte_order order \<Longrightarrow> 4 + length rest \<le> SIZE_MAX \<Longrightarrow>
      ts_serialize ts x (cw_at order (cdr_header order) rest) = Some (True, cw_at order (cdr_header order @ p) rest') \<Longrightarrow>
      \<exists>r. ts_deserialize ts (cr_at order (cdr_header order @ p) 4) y = Some (True, x, r)"
begin

lemma cdr_write_sample:
  assumes "length buf \<le> SIZE_MAX"
  shows "\<exists>ok w b. Option.bind (cw_begin order (cdr_writer_new (Span buf)))
      (\<lambda>(begun, cdr). if begun then ts_serialize ts x cdr else Some (False, cdr)) = Some (ok, w) \<and>
      cw_buffer w = Span b \<and> length b = length buf \<and>
      (ok \<longrightarrow> cw_offset w \<le> length buf \<and> carries ts (take (cw_offset w) b) x)"
proof (cases "supported_byte_order order \<and> 4 \<le> length buf")
  case False
  then show ?thesis
    by (auto simp: supported_byte_order_def cw_begin_def cdr_writer_new_def encapsulation_size_def cw_fail_def Let_def)
next
  case True
  then have order: "supported_byte_order order" and len: "4 + length (drop 4 buf) = length buf" by simp_all
  have start: "cw_begin order (cdr_writer_new (Span buf)) = Some (True, cw_at order (cdr_header order) (drop 4 buf))"
    using True by (intro cw_begin_new) (auto simp: supported_byte_order_def)
  obtain ok w b where w: "ts_serialize ts x (cw_at order (cdr_header order) (drop 4 buf)) = Some (ok, w)"
    "cw_buffer w = Span b" "length b = length buf"
    using serialize_defined [OF order, of "drop 4 buf" x] len assms by auto
  have "cw_offset w \<le> length buf \<and> carries ts (take (cw_offset w) b) x" if ok
  proof -
    have s: "ts_serialize ts x (cw_at order (cdr_header order) (drop 4 buf)) = Some (True, w)" using w(1) that by simp
    obtain p rest' where p: "w = cw_at order (cdr_header order @ p) rest'" "length p + length rest' = length (drop 4 buf)"
      using serialize_appends [OF order _ s] len assms by auto
    have "\<exists>r. ts_deserialize ts (cr_at order (cdr_header order @ p) 4) (ts_default ts) = Some (True, x, r)"
      using deserialize_inverts [OF order _ s [unfolded p(1)]] len assms by auto
    moreover have "cr_begin (cdr_reader_new (Span (cdr_header order @ p))) = Some (True, cr_at order (cdr_header order @ p) 4)"
      using order by (intro cr_begin_new) (auto simp: supported_byte_order_def)
    moreover have "take (cw_offset w) b = cdr_header order @ p" "cw_offset w \<le> length buf"
      using p w(2) len by (auto simp: cw_at_def)
    ultimately show ?thesis by (auto simp: carries_def)
  qed
  with w show ?thesis by (simp add: start)
qed

text \<open>An accepted write puts one DATA message with the sample on the network and stores it.\<close>

lemma data_writer_write_effect:
  assumes inv: "dw_inv depth mx w"
  defines "n \<equiv> dw_next_sequence w"
  shows "\<exists>res d w'. data_writer_write ts depth mx x now_ns buffer w = Some (res, d, w') \<and>
    same_endpoint w w' \<and> length (dw_serialized w') = mx \<and>
    (if dds_ok res
     then dds_sequence_number res = n \<and> (\<exists>p as. carries ts p x \<and> data_config_ok (make_data_config n w) p \<and>
       sent_datagrams res d = {data_bytes (make_data_config n w) p} \<and>
       writer_write depth mx 1 (Span p) n now_ns (dw_reliability w) [] = Some (rs_none, dw_reliability w', as))
     else dw_reliability w' = dw_reliability w \<and> sent_datagrams res d = {})"
proof (cases "de_valid w")
  case False
  then show ?thesis
    by (auto simp: data_writer_write_def invalid_result_def same_endpoint_def sent_datagrams_def dds_ok_def
      dds_success_def inv [unfolded dw_inv_def])
next
  case valid: True
  let ?order = "se_byte_order (de_endpoint w)" and ?c = "make_data_config n w"
  have len: "length (dw_serialized w) = mx" "length (dw_serialized w) \<le> SIZE_MAX" and winv: "writer_inv depth mx (dw_reliability w)"
    and wf: "wf_data_config ?c"
    using inv by (auto simp: dw_inv_def wf_endpoint_def wf_data_config_def make_data_config_def)
  obtain ok cdr b where cdr: "Option.bind (cw_begin ?order (cdr_writer_new (Span (dw_serialized w))))
      (\<lambda>(begun, cdr). if begun then ts_serialize ts x cdr else Some (False, cdr)) = Some (ok, cdr)"
    "cw_buffer cdr = Span b" "length b = mx" "ok \<longrightarrow> cw_offset cdr \<le> mx \<and> carries ts (take (cw_offset cdr) b) x"
    using cdr_write_sample [OF len(2)] len(1) by metis
  then obtain begun cdr0 where cdr0: "cw_begin ?order (cdr_writer_new (Span (dw_serialized w))) = Some (begun, cdr0)"
    "(if begun then ts_serialize ts x cdr0 else Some (False, cdr0)) = Some (ok, cdr)"
    by (auto split: bind_splits)
  define w1 where "w1 = w\<lparr>dw_serialized := b\<rparr>"
  have eq: "data_writer_write ts depth mx x now_ns buffer w =
    (if \<not> ok
     then Some (dds_success\<lparr>dds_error := dds_serialization_failed, dds_cdr_error := cw_error cdr\<rparr>, buffer, w1)
     else do {
       (built, builder) \<leftarrow> data_build ?c (Span (take (cw_offset cdr) b)) (data_builder_new buffer);
       if \<not> built
       then Some (dds_success\<lparr>dds_error := dds_rtps_data_failed, dds_rtps_error := db_error builder\<rparr>, db_buffer builder, w1)
       else do {
         (e, reliability, actions) \<leftarrow> writer_write depth mx 1 (Span (take (cw_offset cdr) b)) n now_ns (dw_reliability w) [];
         let w = w1\<lparr>dw_reliability := reliability\<rparr>;
         if e \<noteq> rs_none then Some (reliability_result e, db_buffer builder, w)
         else Some (dds_success\<lparr>dds_bytes := db_size builder, dds_sequence_number := n\<rparr>, db_buffer builder,
                    w\<lparr>dw_next_sequence := n + 1\<rparr>) } })"
    using valid cdr0 cdr(2,3,4) by (cases ok) (simp_all add: data_writer_write_def n_def w1_def make_data_config_def rd_block_def Let_def cong: if_cong)
  show ?thesis
  proof (cases ok)
    case False
    then show ?thesis using cdr(3)
      by (auto simp: eq w1_def same_endpoint_def sent_datagrams_def dds_ok_def dds_success_def)
  next
    case True
    let ?p = "take (cw_offset cdr) b"
    from data_build_total [OF wf, of "Span ?p" "data_builder_new buffer"] obtain builder where
      builder: "data_build ?c (Span ?p) (data_builder_new buffer) = Some (db_error builder = rtps_none, builder)" by blast
    obtain e rel as where wr: "writer_write depth mx 1 (Span ?p) n now_ns (dw_reliability w) [] = Some (e, rel, as)"
      "e \<noteq> rs_none \<longrightarrow> rel = dw_reliability w"
      using writer_write_eq [OF winv, of "[]" 1 "Span ?p" n now_ns] by (auto split: if_splits)
    have sent: "data_config_ok ?c ?p \<and> take (db_size builder) (span_bytes (db_buffer builder)) = data_bytes ?c ?p \<and> db_size builder \<noteq> 0"
      if "db_error builder = rtps_none"
      using data_build_bytes [OF wf, of ?p buffer builder] builder that by simp
    show ?thesis
      using True cdr(3,4) builder wr sent
      by (cases "db_error builder = rtps_none"; cases "e = rs_none")
        (auto simp: eq w1_def same_endpoint_def sent_datagrams_def dds_ok_def dds_success_def reliability_result_def Let_def)
  qed
qed

end

lemma data_datagram_sent:
  assumes "wf_data_config c" "data_config_ok c p" "carries ts p x" "(dc_sequence_number c, x) \<in> set written"
  shows "data_datagram_ok ts e written (data_bytes c p)" "acknack_datagram_ok e' taken (data_bytes c p)"
  using assms parse_data_bytes [OF assms(1,2)] parse_data_as_acknack [OF assms(1,2)]
  by (auto simp: data_datagram_ok_def acknack_datagram_ok_def data_view_def)

lemma heartbeat_datagram_sent:
  assumes "wf_heartbeat c" "header_ok (hb_header c)"
  defines "m \<equiv> message_bytes (hb_header c) (heartbeat_submessage c)"
  shows "data_datagram_ok ts e written m" "acknack_datagram_ok e' taken m"
  using parse_heartbeat_as_other [OF assms(1,2)] by (auto simp: data_datagram_ok_def acknack_datagram_ok_def m_def)

lemma acknack_datagram_sent:
  assumes "wf_acknack c" "header_ok (an_header c)"
    and "\<forall>n. sns_acknowledges (an_reader_state c) n \<longrightarrow> n = 0 \<or> n \<in> fst ` set taken"
  defines "m \<equiv> message_bytes (an_header c) (acknack_submessage c)"
  shows "data_datagram_ok ts e written m" "acknack_datagram_ok e' taken m"
  using parse_acknack_as_data [OF assms(1,2)] parse_acknack_bytes [OF assms(1,2)] assms(3)
  by (auto simp: data_datagram_ok_def acknack_datagram_ok_def m_def)

lemma data_datagram_mono: "data_datagram_ok ts e written m \<Longrightarrow> data_datagram_ok ts e (written @ later) m"
  by (fastforce simp: data_datagram_ok_def)

lemma acknack_datagram_mono: "acknack_datagram_ok e taken m \<Longrightarrow> acknack_datagram_ok e (taken @ later) m"
  by (fastforce simp: acknack_datagram_ok_def)

lemma foreign_datagram_ok:
  assumes "foreign_datagram w r m"
  shows "data_datagram_ok ts (de_endpoint r) written m" and "acknack_datagram_ok (de_endpoint w) taken m"
  using assms by (auto simp: foreign_datagram_def data_datagram_ok_def acknack_datagram_ok_def)

section \<open>The calls of the writer\<close>

lemma kept_records:
  assumes "writer_inv depth mx w" "r' \<in> set (writer_live (writer_kept f w))"
  shows "\<exists>r \<in> set (writer_live w). record_sequence r' = record_sequence r \<and> record_bytes r' = record_bytes r"
proof -
  obtain kept as where c: "compact (fates f) 0 (writer_live w) = (kept, as)" by fastforce
  then have "r' \<in> (\<lambda>r. retained_record (f r) r) ` set (writer_live w)"
    using assms writer_kept_live [OF assms(1)] compact_exact [OF c] by auto
  then show ?thesis by (auto simp: retained_record_def record_bytes_def record_sequence_def)
qed

lemma kept_actions:
  assumes "a \<in> set (writer_actions f w)"
  shows "\<exists>r \<in> set (writer_live w). ra_sequence_number a = record_sequence r \<and> f r \<noteq> Keep \<and>
    ra_kind a = fst (decision_outcome (f r))"
proof -
  obtain kept as where c: "compact (fates f) 0 (writer_live w) = (kept, as)" by fastforce
  then have "action_summary a \<in> set (map action_summary as)" using assms by (auto simp: writer_actions_def)
  then show ?thesis unfolding compact_exact [OF c, THEN conjunct2]
    by (auto simp: action_summary_def intro!: bexI) (metis fst_conv)
qed

lemma decision_not_sent [simp]: "fst (decision_outcome d) \<noteq> send_data" "send_data \<noteq> fst (decision_outcome d)"
  by (cases d; simp)+

lemma kept_retransmission:
  assumes inv: "writer_inv depth mx w" and a: "a \<in> set (writer_actions f w)" "ra_kind a = retransmit_data"
  shows "\<exists>r \<in> set (writer_live w). record_sequence r = ra_sequence_number a \<and> ra_data a \<noteq> None \<and>
    ra_data_size a = length (record_bytes r) \<and> action_payload a (writer_kept f w) = Some (Span (record_bytes r))"
proof -
  let ?w = "writer_kept f w"
  obtain kept as where c: "compact (fates f) 0 (writer_live w) = (kept, as)" by fastforce
  have "a \<in> set as" using a(1) c by (simp add: writer_actions_def)
  from compact_slots [OF c this a(2)] obtain j where j: "j < length kept" "ra_data a = Some j"
    "record_sequence (kept ! j) = ra_sequence_number a" "bs_size (wr_sample (kept ! j)) = ra_data_size a" by auto
  have live: "writer_live ?w = kept" and rec: "rw_records ?w = kept @ drop (length kept) (rw_records w)"
    using writer_kept_live [OF inv, of f] c by (simp_all add: writer_kept_def Let_def)
  obtain r where r: "r \<in> set (writer_live w)" "kept ! j = retained_record (f r) r"
  proof -
    have "kept ! j \<in> (\<lambda>r. retained_record (f r) r) ` set (writer_live w)"
      using nth_mem [OF j(1)] compact_exact [OF c, THEN conjunct1] by auto
    then show thesis using that by blast
  qed
  have "length (bs_payload (wr_sample r)) = mx \<and> bs_size (wr_sample r) \<le> mx"
    using inv r(1) by (auto simp: writer_inv_def writer_live_def dest: in_set_takeD)
  moreover have "wr_sample (kept ! j) = wr_sample r" by (simp add: r(2) retained_record_def)
  ultimately have "action_payload a ?w = Some (Span (record_bytes r))" "ra_data_size a = length (record_bytes r)"
    using j by (simp_all add: action_payload_def rec rd_def nth_append rd_block_def record_bytes_def)
  moreover have "record_sequence r = ra_sequence_number a"
    using j(3) r(2) by (simp add: retained_record_def record_sequence_def split: if_splits)
  ultimately show ?thesis using r(1) j(2) by blast
qed

lemma writer_kept_counts [simp]:
  "writer_live (w\<lparr>rw_last_acknack_count := c, rw_acknack_count_initialized := i\<rparr>) = writer_live w"
  "action_payload a (w\<lparr>rw_last_acknack_count := c, rw_acknack_count_initialized := i\<rparr>) = action_payload a w"
  by (simp_all add: writer_live_def action_payload_def cong: option.case_cong)

lemma control_message_sent:
  assumes "builder_done h m (reliability_builder_new buffer) result"
  shows "\<exists>ok b. result = Some (ok, b) \<and> (ok \<longrightarrow> header_ok h \<and> take (rb_size b) (span_bytes (rb_buffer b)) = m)"
  using assms by (auto simp: builder_done_def split: if_splits)

lemma data_writer_heartbeat_effect:
  assumes inv: "dw_inv depth mx w"
  shows "\<exists>res d w' count. data_writer_heartbeat buffer final_flag w = Some (res, d, w') \<and>
    w' = w\<lparr>dw_reliability := (dw_reliability w)\<lparr>rw_heartbeat_count := count\<rparr>\<rparr> \<and>
    (\<forall>m \<in> sent_datagrams res d. \<exists>c. wf_heartbeat c \<and> header_ok (hb_header c) \<and>
       m = message_bytes (hb_header c) (heartbeat_submessage c))"
proof (cases "de_valid w \<and> rw_valid (dw_reliability w)")
  case False
  have winv: "writer_inv depth mx (dw_reliability w)" using inv by (simp add: dw_inv_def)
  have "\<exists>res. data_writer_heartbeat buffer final_flag w = Some (res, buffer, w) \<and> sent_datagrams res buffer = {}"
    using False by (auto simp: data_writer_heartbeat_def writer_fill_heartbeat_eq [OF winv] invalid_result_def
      reliability_result_def sent_datagrams_def dds_ok_def dds_success_def)
  moreover have "w = w\<lparr>dw_reliability := (dw_reliability w)\<lparr>rw_heartbeat_count := rw_heartbeat_count (dw_reliability w)\<rparr>\<rparr>"
    by simp
  ultimately show ?thesis by (metis empty_iff)
next
  case True
  have winv: "writer_inv depth mx (dw_reliability w)" using inv by (simp add: dw_inv_def)
  let ?h = "initial_heartbeat (participant_header (de_participant w) (se_byte_order (de_endpoint w))) final_flag"
  obtain hb where fill: "writer_fill_heartbeat ?h (dw_reliability w) = Some (rs_none, hb,
      (dw_reliability w)\<lparr>rw_heartbeat_count := rw_heartbeat_count (dw_reliability w) + 1\<rparr>)"
    and hb: "hb_header hb = participant_header (de_participant w) (se_byte_order (de_endpoint w))"
      "hb_reader_id hb = se_reader_id (de_endpoint w)" "hb_writer_id hb = se_writer_id (de_endpoint w)"
    using writer_fill_heartbeat_eq [OF winv, of ?h] True inv by (auto simp: dw_inv_def initial_heartbeat_def)
  have wf: "wf_heartbeat hb"
    using inv hb by (auto simp: dw_inv_def wf_endpoint_def wf_heartbeat_def wf_reliability_header_def participant_header_def)
  obtain ok b where b: "build_heartbeat hb (reliability_builder_new buffer) = Some (ok, b)"
    "ok \<longrightarrow> header_ok (hb_header hb) \<and>
      take (rb_size b) (span_bytes (rb_buffer b)) = message_bytes (hb_header hb) (heartbeat_submessage hb)"
    using build_heartbeat_done [OF wf, of "reliability_builder_new buffer"] control_message_sent
    by (metis (no_types, lifting))
  then show ?thesis using True fill wf
    by (auto simp: data_writer_heartbeat_def sent_datagrams_def dds_ok_def dds_success_def Let_def)
qed

lemma data_writer_acknack_effect:
  assumes inv: "dw_inv depth mx w"
  shows "\<exists>res w' as. data_writer_on_acknack cap datagram now_ns w [] = Some (res, w', as) \<and>
    (w' = w \<and> as = [] \<or>
     (\<exists>an. de_valid w \<and> parse_acknack_message datagram = Some (Inr an) \<and> sns_wf (an_reader_state an) \<and>
        rh_guid_prefix (an_header an) = se_remote_guid_prefix (de_endpoint w) \<and>
        an_reader_id an = se_reader_id (de_endpoint w) \<and> an_writer_id an = se_writer_id (de_endpoint w) \<and>
        writer_on_acknack cap an now_ns (dw_reliability w) [] = Some (rs_none, dw_reliability w', as) \<and>
        decisions_applied (acknack_decision an now_ns (dw_reliability w)) w w' as))"
proof (cases "de_valid w")
  case False
  then show ?thesis by (simp add: data_writer_on_acknack_def)
next
  case valid: True
  have winv: "writer_inv depth mx (dw_reliability w)" using inv by (simp add: dw_inv_def)
  obtain parsed where p: "parse_acknack_message datagram = Some parsed"
    "\<forall>an. parsed = Inr an \<longrightarrow> sns_wf (an_reader_state an)"
    using parse_acknack_message_total by blast
  show ?thesis
  proof (cases "\<exists>an. parsed = Inr an \<and> rh_guid_prefix (an_header an) = se_remote_guid_prefix (de_endpoint w)")
    case False
    then show ?thesis using valid p by (auto simp: data_writer_on_acknack_def split: sum.splits)
  next
    case True
    then obtain an where an: "parsed = Inr an" "rh_guid_prefix (an_header an) = se_remote_guid_prefix (de_endpoint w)" by blast
    let ?f = "acknack_decision an now_ns (dw_reliability w)"
    let ?rel = "(writer_kept ?f (dw_reliability w))\<lparr>rw_last_acknack_count := an_count an, rw_acknack_count_initialized := True\<rparr>"
    have wf: "sns_wf (an_reader_state an)" using p(2) an(1) by simp
    consider (ok) "writer_on_acknack cap an now_ns (dw_reliability w) [] =
        Some (rs_none, ?rel, writer_actions ?f (dw_reliability w))"
        "an_reader_id an = se_reader_id (de_endpoint w)" "an_writer_id an = se_writer_id (de_endpoint w)"
      | (error) e where "e \<noteq> rs_none" "writer_on_acknack cap an now_ns (dw_reliability w) [] = Some (e, dw_reliability w, [])"
      using writer_on_acknack_eq [OF winv wf, of "[]" cap now_ns] inv by (auto simp: dw_inv_def split: if_splits)
    then show ?thesis
    proof cases
      case ok
      then show ?thesis using valid p(1) an wf
        by (simp add: data_writer_on_acknack_def decisions_applied_def same_endpoint_def Let_def)
    next
      case error
      then show ?thesis using valid p(1) an wf by (simp add: data_writer_on_acknack_def Let_def)
    qed
  qed
qed

lemma data_writer_timer_effect:
  assumes inv: "dw_inv depth mx w"
  shows "\<exists>res w' as. data_writer_on_timer cap now_ns w [] = Some (res, w', as) \<and>
    (w' = w \<and> as = [] \<or>
     writer_on_timer cap now_ns (dw_reliability w) [] = Some (rs_none, dw_reliability w', as) \<and>
       decisions_applied (timer_decision (rw_config (dw_reliability w)) now_ns) w w' as)"
  using writer_on_timer_eq [of depth mx "dw_reliability w" "[]" cap now_ns] inv
  by (auto simp: data_writer_on_timer_def dw_inv_def decisions_applied_def same_endpoint_def Let_def split: if_splits)

lemma build_data_action_effect:
  assumes inv: "wf_endpoint w" and payload: "action_payload a (dw_reliability w) = Some (Span p)"
  shows "\<exists>res d. build_data_action a buffer w = Some (res, d) \<and>
    (\<forall>m \<in> sent_datagrams res d. (ra_kind a = send_data \<or> ra_kind a = retransmit_data) \<and>
       data_config_ok (make_data_config (ra_sequence_number a) w) p \<and>
       m = data_bytes (make_data_config (ra_sequence_number a) w) p)"
proof -
  let ?c = "make_data_config (ra_sequence_number a) w"
  have wf: "wf_data_config ?c"
    using inv by (auto simp: wf_endpoint_def wf_data_config_def make_data_config_def)
  obtain b where b: "data_build ?c (Span p) (data_builder_new buffer) = Some (db_error b = rtps_none, b)"
    using data_build_total [OF wf] by blast
  show ?thesis using b data_build_bytes [OF wf, of p buffer b] payload
    by (cases "db_error b = rtps_none")
      (auto simp: build_data_action_def invalid_result_def sent_datagrams_def dds_ok_def dds_success_def)
qed

section \<open>The calls of the reader\<close>

context type_support_laws
begin

lemma data_reader_take_carried:
  assumes inv: "dr_inv window r" and v: "parse_data_message datagram = Some (Inr v)" "de_valid r"
      "dv_guid_prefix v = se_remote_guid_prefix (de_endpoint r)" "dv_reader_id v = se_reader_id (de_endpoint r)"
      "dv_writer_id v = se_writer_id (de_endpoint r)"
    and carries: "carries ts (dv_payload v) y"
    and spec: "data_spec window 1 True (dv_sequence_number v) (reader_set window 1 (dr_reliability r)) = (e, R)"
  shows "\<exists>r'. data_reader_take ts window datagram x r =
      Some (if e = rs_none
            then (dds_success\<lparr>dds_bytes := span_size datagram, dds_sequence_number := dv_sequence_number v\<rparr>, y, r')
            else (reliability_result e, x, r')) \<and>
    dr_inv window r' \<and> same_endpoint r r' \<and> reader_set window 1 (dr_reliability r') = R"
proof -
  obtain cdr cdr' where cdr: "cr_begin (cdr_reader_new (Span (dv_payload v))) = Some (True, cdr)"
    "ts_deserialize ts cdr (ts_default ts) = Some (True, y, cdr')" using carries by (auto simp: carries_def)
  obtain e' rel as where rel: "reader_on_data window 1 (dv_sequence_number v) (dr_reliability r) [] = Some (e', rel, as)"
    "reader_inv window 1 rel" "rr_config rel = rr_config (dr_reliability r)"
    "data_spec window 1 True (dv_sequence_number v) (reader_set window 1 (dr_reliability r)) = (e', reader_set window 1 rel)"
    using reader_on_data_refines [of window 1 "dr_reliability r" "[]" 1 "dv_sequence_number v"] inv
    by (auto simp: dr_inv_def)
  have "dr_inv window (r\<lparr>dr_reliability := rel\<rparr>)" "same_endpoint r (r\<lparr>dr_reliability := rel\<rparr>)"
    using inv rel(2,3) by (simp_all add: dr_inv_def wf_endpoint_def same_endpoint_def)
  moreover have "e' = e" "reader_set window 1 rel = R" using rel(4) spec by simp_all
  ultimately show ?thesis
    using v cdr rel(1) by (intro exI [of _ "r\<lparr>dr_reliability := rel\<rparr>"]) (simp add: data_reader_take_def Let_def)
qed

lemma data_reader_take_effect:
  assumes inv: "dr_inv window r"
  shows "\<exists>res y r'. data_reader_take ts window datagram x r = Some (res, y, r') \<and> dr_inv window r' \<and> same_endpoint r r' \<and>
    (if dds_ok res
     then \<exists>v. parse_data_message datagram = Some (Inr v) \<and> dv_guid_prefix v = se_remote_guid_prefix (de_endpoint r) \<and>
       dv_reader_id v = se_reader_id (de_endpoint r) \<and> dv_writer_id v = se_writer_id (de_endpoint r) \<and>
       carries ts (dv_payload v) y \<and> dds_sequence_number res = dv_sequence_number v \<and>
       data_spec window 1 True (dv_sequence_number v) (reader_set window 1 (dr_reliability r)) =
         (rs_none, reader_set window 1 (dr_reliability r'))
     else y = x \<and> reader_set window 1 (dr_reliability r') = reader_set window 1 (dr_reliability r))"
proof -
  obtain parsed where p: "parse_data_message datagram = Some parsed" using parse_data_message_total by blast
  show ?thesis
  proof (cases "de_valid r \<and> (\<exists>v y. parsed = Inr v \<and> dv_guid_prefix v = se_remote_guid_prefix (de_endpoint r) \<and>
      dv_reader_id v = se_reader_id (de_endpoint r) \<and> dv_writer_id v = se_writer_id (de_endpoint r) \<and> carries ts (dv_payload v) y)")
    case False
    have "\<exists>res. data_reader_take ts window datagram x r = Some (res, x, r) \<and> \<not> dds_ok res"
    proof (cases "\<exists>v. parsed = Inr v")
      case True
      then obtain v where v: "parsed = Inr v" by blast
      obtain begun cdr where cdr: "cr_begin (cdr_reader_new (Span (dv_payload v))) = Some (begun, cdr)"
        using cr_begin_inv [of "cdr_reader_new (Span (dv_payload v))"] by blast
      have "begun \<Longrightarrow> \<exists>ok y r'. ts_deserialize ts cdr (ts_default ts) = Some (ok, y, r')"
        using deserialize_defined cdr by simp
      then show ?thesis using False p v cdr
        by (cases begun) (auto simp: data_reader_take_def invalid_result_def dds_ok_def dds_success_def carries_def)
    qed (use p in \<open>auto simp: data_reader_take_def invalid_result_def dds_ok_def dds_success_def split: sum.splits\<close>)
    then show ?thesis using inv by (auto simp: same_endpoint_def)
  next
    case True
    then obtain v y where v: "de_valid r" "parsed = Inr v" "dv_guid_prefix v = se_remote_guid_prefix (de_endpoint r)"
      "dv_reader_id v = se_reader_id (de_endpoint r)" "dv_writer_id v = se_writer_id (de_endpoint r)" "carries ts (dv_payload v) y"
      by blast
    obtain e R where spec: "data_spec window 1 True (dv_sequence_number v) (reader_set window 1 (dr_reliability r)) = (e, R)"
      by fastforce
    have same: "R = reader_set window 1 (dr_reliability r)" if "e \<noteq> rs_none" using spec that by (auto simp: data_spec.simps split: if_splits)
    from data_reader_take_carried [OF inv p [unfolded v(2)] v(1,3-6) spec] same v(2-6) p spec show ?thesis
      by (cases "e = rs_none") (fastforce simp: dds_ok_def dds_success_def reliability_result_def)+
  qed
qed

end

lemma data_reader_heartbeat_effect:
  assumes inv: "dr_inv window r"
  shows "\<exists>res d r'. data_reader_on_heartbeat window datagram response r = Some (res, d, r') \<and> dr_inv window r' \<and>
    same_endpoint r r' \<and> reader_set window 1 (dr_reliability r') = reader_set window 1 (dr_reliability r) \<and>
    (\<forall>m \<in> sent_datagrams res d. \<exists>c. wf_acknack c \<and> header_ok (an_header c) \<and>
       m = message_bytes (an_header c) (acknack_submessage c) \<and>
       (\<forall>n. sns_acknowledges (an_reader_state c) n \<longrightarrow>
          unat n < unat (1 :: u64) \<or> unat n \<in> reader_set window 1 (dr_reliability r)))"
proof -
  let ?R = "reader_set window 1 (dr_reliability r)"
  obtain parsed where p: "parse_heartbeat_message datagram = Some parsed" using parse_heartbeat_message_total by blast
  show ?thesis
  proof (cases "de_valid r \<and> (\<exists>hb. parsed = Inr hb \<and> rh_guid_prefix (hb_header hb) = se_remote_guid_prefix (de_endpoint r))")
    case False
    then have "\<exists>res. data_reader_on_heartbeat window datagram response r = Some (res, response, r) \<and> \<not> dds_ok res"
      using p by (auto simp: data_reader_on_heartbeat_def invalid_result_def dds_ok_def dds_success_def split: sum.splits)
    then show ?thesis using inv by (auto simp: same_endpoint_def sent_datagrams_def)
  next
    case True
    then obtain hb where hb: "de_valid r" "parsed = Inr hb" "rh_guid_prefix (hb_header hb) = se_remote_guid_prefix (de_endpoint r)"
      by blast
    let ?e = "heartbeat_error 1 hb (dr_reliability r) []"
    obtain rel as where rel: "reader_on_heartbeat window 1 hb (dr_reliability r) [] = Some (?e, rel, as)"
      "reader_inv window 1 rel" "reader_set window 1 rel = ?R" "rr_config rel = rr_config (dr_reliability r)"
      and as: "if ?e = rs_none \<and> response_required hb (dr_reliability r)
        then \<exists>state. as = [acknack_action (dr_reliability r) hb state] \<and> acknack_answers window 1 ?R hb state else as = []"
      using reader_on_heartbeat_answers [of window 1 "dr_reliability r" "[]" 1 hb] inv
      by (auto simp: dr_inv_def simp del: One_nat_def)
    let ?r = "r\<lparr>dr_reliability := rel\<rparr>"
    have inv': "dr_inv window ?r" "same_endpoint r ?r" "reader_set window 1 (dr_reliability ?r) = ?R"
      using inv rel by (simp_all add: dr_inv_def wf_endpoint_def same_endpoint_def)
    show ?thesis
    proof (cases "?e = rs_none \<and> response_required hb (dr_reliability r)")
      case False
      then have "\<exists>res. data_reader_on_heartbeat window datagram response r = Some (res, response, ?r) \<and> sent_datagrams res response = {}"
        using p hb rel(1) as
        by (auto simp: data_reader_on_heartbeat_def reliability_result_def sent_datagrams_def dds_ok_def dds_success_def Let_def)
      then show ?thesis using inv' by auto
    next
      case True
      then obtain state where state: "as = [acknack_action (dr_reliability r) hb state]" "acknack_answers window 1 ?R hb state"
        using as by auto
      define c where "c = reader_acknack (acknack_action (dr_reliability r) hb state) ?r"
      have wf: "wf_acknack c" and acks: "\<forall>n. sns_acknowledges (an_reader_state c) n \<longrightarrow> unat n < unat (1 :: u64) \<or> unat n \<in> ?R"
        using inv state(2)
        by (auto simp: c_def reader_acknack_def acknack_action_def wf_acknack_def wf_reliability_header_def acknack_answers_def
          participant_header_def dr_inv_def wf_endpoint_def)
      obtain ok b where b: "build_acknack c (reliability_builder_new response) = Some (ok, b)"
        "ok \<longrightarrow> header_ok (an_header c) \<and>
          take (rb_size b) (span_bytes (rb_buffer b)) = message_bytes (an_header c) (acknack_submessage c)"
        using control_message_sent [OF build_acknack_done [OF wf, of "reliability_builder_new response"]] by blast
      have "data_reader_on_heartbeat window datagram response r =
        Some (if ok then dds_success\<lparr>dds_bytes := rb_size b\<rparr>
              else dds_success\<lparr>dds_error := dds_reliability_message_failed, dds_reliability_message_error := rb_error b\<rparr>,
              rb_buffer b, ?r)"
        using p hb rel(1) True state(1) b(1)
        by (simp add: data_reader_on_heartbeat_def c_def [symmetric] rd_def Let_def)
      then show ?thesis using inv' b(2) wf acks
        by (cases ok) (auto simp: sent_datagrams_def dds_ok_def dds_success_def)
    qed
  qed
qed

section \<open>Every step keeps the invariant of the system\<close>

lemma trace_inv_heartbeat [simp]:
  "trace_inv (w\<lparr>rw_heartbeat_count := c\<rparr>) tr = trace_inv w tr" "writer_live (w\<lparr>rw_heartbeat_count := c\<rparr>) = writer_live w"
  "writer_inv depth mx (w\<lparr>rw_heartbeat_count := c\<rparr>) = writer_inv depth mx w"
  by (simp_all add: trace_inv_def sample_accounted_def writer_live_def writer_inv_def)

lemma record_ok_endpoint:
  assumes "same_endpoint w w'"
  shows "record_ok ts w = record_ok ts w'"
  using assms by (simp add: record_ok_def make_data_config_def same_endpoint_def fun_eq_iff)

text \<open>A call of the reliable writer that reports no new sample, as \<open>on_acknack\<close> and \<open>on_timer\<close> do.\<close>

lemma writer_side_step:
  assumes side: "writer_side ts depth mx w written reported" and ok: "writer_op_ok op"
    and step: "writer_step depth mx cap op (dw_reliability w) = Some ((e, as, hb), dw_reliability w')"
    and same: "same_endpoint w w'" "length (dw_serialized w') = mx"
    and live: "list_all (record_ok ts w written') (writer_live (dw_reliability w'))"
    and written: "map fst written' = map fst written @ map ra_sequence_number (filter (\<lambda>a. ra_kind a = send_data) as)"
  shows "writer_side ts depth mx w' written' (reported @ filter (\<lambda>a. ra_kind a \<noteq> send_data) as)"
proof -
  obtain tr where tr: "trace_inv (dw_reliability w) tr" "filter (\<lambda>a. ra_kind a \<noteq> send_data) tr = reported"
    "map ra_sequence_number (filter (\<lambda>a. ra_kind a = send_data) tr) = map fst written"
    using side by (auto simp: writer_side_def)
  have inv: "writer_inv depth mx (dw_reliability w)" using side by (simp add: writer_side_def dw_inv_def)
  have "writer_inv depth mx (dw_reliability w')" "trace_inv (dw_reliability w') (tr @ as)"
    "rw_config (dw_reliability w') = rw_config (dw_reliability w)"
    using writer_step_accounted [OF inv tr(1) ok, of cap] step by auto
  then show ?thesis
    using side same live [unfolded record_ok_endpoint [OF same(1)]] written tr(2,3)
    by (auto simp: writer_side_def dw_inv_def same_endpoint_def wf_endpoint_def intro!: exI [of _ "tr @ as"])
qed

lemma kept_side:
  assumes "writer_side ts depth mx w written reported"
    and "writer_live rel = writer_live (writer_kept f (dw_reliability w))"
  shows "list_all (record_ok ts w written) (writer_live rel)"
  unfolding list_all_iff
proof
  fix r' assume "r' \<in> set (writer_live rel)"
  then obtain r where "r \<in> set (writer_live (dw_reliability w))" "record_sequence r' = record_sequence r"
    "record_bytes r' = record_bytes r"
    using kept_records [of depth mx "dw_reliability w" r' f] assms by (auto simp: writer_side_def dw_inv_def)
  then show "record_ok ts w written r'"
    using assms(1) by (auto simp: writer_side_def record_ok_def list_all_iff)
qed

lemma net_ok_cong:
  assumes "same_endpoint w w'" "same_endpoint r r'" "net_ok ts w r written taken m"
  shows "net_ok ts w' r' (written @ later) (taken @ later') m"
  using assms by (auto simp: net_ok_def same_endpoint_def intro: data_datagram_mono acknack_datagram_mono)

lemma dds_inv_start:
  assumes "wf_endpoint w" "wf_endpoint r" "mx \<le> SIZE_MAX" "0 < window" "window \<le> 256"
    and "w = data_writer_new depth mx publisher tp endpoint qos" "r = data_reader_new window subscriber tp' endpoint'"
  shows "dds_inv ts depth mx window (dds_start w r)"
proof -
  have new: "reader_inv window 1 (reliable_reader_new window (make_reader_config endpoint'))"
    "reader_set window 1 (reliable_reader_new window (make_reader_config endpoint')) = {}"
    using reader_new [OF assms(4,5), of "make_reader_config endpoint'"]
    by (simp_all add: make_reader_config_def valid_state_sequence_def INT64_MAX_def)
  have "writer_live (reliable_writer_new depth mx (make_writer_config endpoint qos)) = []"
    by (simp add: writer_live_def reliable_writer_new_def)
  then show ?thesis
    using assms new reliable_writer_new_inv [of depth mx "make_writer_config endpoint qos"]
      trace_inv_new [of depth mx "make_writer_config endpoint qos"]
    by (auto simp: dds_inv_def dds_start_def writer_side_def reader_side_def dw_inv_def dr_inv_def data_writer_new_def
      data_reader_new_def reliable_writer_new_def reliable_reader_new_def make_writer_config_def make_reader_config_def Let_def)
qed

lemma writer_side_cong:
  assumes "writer_side ts depth mx w written reported" "dw_reliability w' = dw_reliability w" "same_endpoint w w'"
    and "length (dw_serialized w') = mx"
  shows "writer_side ts depth mx w' written reported"
  using assms record_ok_endpoint [OF assms(3), of ts]
  by (simp add: writer_side_def dw_inv_def same_endpoint_def wf_endpoint_def)

lemma record_ok_mono: "record_ok ts w written r \<Longrightarrow> record_ok ts w (written @ later) r"
  by (auto simp: record_ok_def)

lemma writer_write_ok:
  assumes inv: "writer_inv depth mx w" and ok: "writer_write depth mx 1 (Span p) n now_ns w [] = Some (rs_none, w', as)"
  shows "map ra_sequence_number as = [n]" "map ra_kind as = [send_data]"
    and "\<exists>r. writer_live w' = writer_live w @ [r] \<and> record_sequence r = n \<and> record_bytes r = p"
proof -
  let ?r = "written_record (Span p) n now_ns (rw_records w ! rw_size w)"
  have w': "w' = writer_written (Span p) n now_ns w" "as = [data_action send_data (rw_size w) ?r]" "rw_size w \<noteq> depth"
    using ok writer_write_eq [OF inv, of "[]" 1 "Span p" n now_ns] by (auto split: if_splits)
  have r: "record_sequence ?r = n" "record_bytes ?r = p"
    by (simp_all add: written_record_def record_sequence_def record_bytes_def)
  show "map ra_sequence_number as = [n]" "map ra_kind as = [send_data]"
    using w'(2) r(1) by (simp_all add: data_action_def default_action_def)
  show "\<exists>r. writer_live w' = writer_live w @ [r] \<and> record_sequence r = n \<and> record_bytes r = p"
    using w'(1) writer_written_live [OF inv w'(3)] r by auto
qed

context type_support_laws
begin

text \<open>A writer with room, a valid next number and a sample that fits accepts it.\<close>

lemma data_writer_write_accepts:
  assumes inv: "dw_inv depth mx w" and valid: "de_valid w" "rw_valid (dw_reliability w)"
    and n: "n = dw_next_sequence w" "valid_state_sequence n" "rw_last_sequence_number (dw_reliability w) < n"
    and room: "rw_size (dw_reliability w) \<noteq> depth" "4 \<le> mx" "48 + length p \<le> length b" "48 + length p \<le> 65507"
    and order: "order = se_byte_order (de_endpoint w)" "supported_byte_order order"
    and version: "\<not> unsupported_version (dp_version (de_participant w))"
    and ser: "ts_serialize ts x (cw_at order (cdr_header order) (drop 4 (dw_serialized w))) =
      Some (True, cw_at order (cdr_header order @ p) rest)"
  shows "\<exists>d w'. data_writer_write ts depth mx x now_ns (Span b) w =
    Some (dds_success\<lparr>dds_bytes := 48 + length p, dds_sequence_number := n\<rparr>, d, w')"
proof -
  let ?c = "make_data_config n w" and ?p = "cdr_header order @ p"
  have len: "length (dw_serialized w) = mx" "mx \<le> SIZE_MAX" and winv: "writer_inv depth mx (dw_reliability w)"
    and wf: "wf_data_config ?c"
    using inv by (auto simp: dw_inv_def wf_endpoint_def wf_data_config_def make_data_config_def)
  obtain p' rest' where "cw_at order ?p rest = cw_at order (cdr_header order @ p') rest'" "length p' + length rest' = mx - 4"
    using serialize_appends [OF order(2) _ ser] len room(2) by auto
  then have fits: "length p + length rest = mx - 4" by (auto simp: cw_at_def dest: arg_cong [of _ _ length])
  have start: "cw_begin order (cdr_writer_new (Span (dw_serialized w))) =
      Some (True, cw_at order (cdr_header order) (drop 4 (dw_serialized w)))"
    using cw_begin_new [of order "dw_serialized w"] order(2) len(1) room(2) by (auto simp: supported_byte_order_def)
  have "n \<le> INT64_MAX" using n(2) by (simp add: valid_state_sequence_def less_imp_le)
  then have ok: "data_config_ok ?c ?p"
    using n(2) order version room(4)
    by (auto simp: data_config_ok_def make_data_config_def valid_state_sequence_def cdr_header_def data_message_overhead_44
      maximum_udp_payload_size_def)
  obtain d where d: "data_build ?c (Span ?p) (data_builder_new (Span b)) =
      Some (True, \<lparr>db_buffer = d, db_size = 48 + length p, db_error = rtps_none\<rparr>)"
    using data_build_cases [OF wf refl _ ok, of "data_builder_new (Span b)" b] room(3) by (auto simp: data_message_overhead_44)
  obtain rel as where wr: "writer_write depth mx 1 (Span ?p) n now_ns (dw_reliability w) [] = Some (rs_none, rel, as)"
  proof -
    have "\<not> mx < span_size (Span ?p)" using fits room(2) by simp
    moreover have "\<not> (rw_last_sequence_number (dw_reliability w) \<noteq> 0 \<and> n \<le> rw_last_sequence_number (dw_reliability w))"
      using n(3) by (simp add: not_le)
    ultimately show thesis
      using writer_write_eq [OF winv, of "[]" 1 "Span ?p" n now_ns] valid(2) n(2) room(1)
      by (intro that) (simp add: valid_span_def)
  qed
  have rd: "rd_block (?p @ rest) 0 (4 + length p) = Some ?p" by (simp add: rd_block_def)
  have "make_data_config n (w\<lparr>dw_serialized := ?p @ rest\<rparr>) = ?c" by (simp add: make_data_config_def)
  with d wr rd show ?thesis
    using valid start ser order(1) n(1) by (simp add: data_writer_write_def cw_at_def Let_def)
qed

lemma dds_write_step:
  assumes inv: "dds_inv ts depth mx window s"
    and call: "data_writer_write ts depth mx x now_ns buffer (sy_writer s) = Some (res, d, w)"
  shows "dds_inv ts depth mx window (s\<lparr>sy_writer := w, sy_net := sy_net s \<union> sent_datagrams res d,
      sy_written := sy_written s @ (if dds_ok res then [(dds_sequence_number res, x)] else [])\<rparr>)"
proof -
  let ?w = "sy_writer s" and ?n = "dw_next_sequence (sy_writer s)"
  have side: "writer_side ts depth mx ?w (sy_written s) (sy_reported s)" and dw: "dw_inv depth mx ?w"
    using inv by (simp_all add: dds_inv_def writer_side_def)
  have same: "same_endpoint ?w w" "length (dw_serialized w) = mx"
    and eff: "if dds_ok res
     then dds_sequence_number res = ?n \<and> (\<exists>p as. carries ts p x \<and> data_config_ok (make_data_config ?n ?w) p \<and>
       sent_datagrams res d = {data_bytes (make_data_config ?n ?w) p} \<and>
       writer_write depth mx 1 (Span p) ?n now_ns (dw_reliability ?w) [] = Some (rs_none, dw_reliability w, as))
     else dw_reliability w = dw_reliability ?w \<and> sent_datagrams res d = {}"
    using data_writer_write_effect [OF dw, of x now_ns buffer] call by auto
  have net: "\<forall>m \<in> sy_net s. net_ok ts w (sy_reader s) (sy_written s @ later) (sy_taken s) m" for later
    using inv net_ok_cong [OF same(1), of "sy_reader s" "sy_reader s" _ _ _ _ later "[]"]
    by (auto simp: dds_inv_def same_endpoint_def)
  show ?thesis
  proof (cases "dds_ok res")
    case False
    then show ?thesis using inv eff net [of "[]"] writer_side_cong [OF side _ same] by (simp add: dds_inv_def)
  next
    case True
    then obtain p as where n: "dds_sequence_number res = ?n" and p: "carries ts p x" "data_config_ok (make_data_config ?n ?w) p"
      "sent_datagrams res d = {data_bytes (make_data_config ?n ?w) p}"
      and wr: "writer_write depth mx 1 (Span p) ?n now_ns (dw_reliability ?w) [] = Some (rs_none, dw_reliability w, as)"
      using eff by auto
    let ?written = "sy_written s @ [(?n, x)]"
    have winv: "writer_inv depth mx (dw_reliability ?w)" using dw by (simp add: dw_inv_def)
    note ok = writer_write_ok [OF winv wr]
    have as: "filter (\<lambda>a. ra_kind a = send_data) as = as" "filter (\<lambda>a. ra_kind a \<noteq> send_data) as = []"
      using ok(2) by (auto simp: map_eq_Cons_conv)
    have step: "writer_step depth mx 1 (WriteSample (Span p) ?n now_ns) (dw_reliability ?w) = Some ((rs_none, as, None), dw_reliability w)"
      using wr by simp
    have live: "list_all (record_ok ts ?w ?written) (writer_live (dw_reliability w))"
      using ok(3) side p(1,2) record_ok_mono [of ts ?w "sy_written s"]
      by (auto simp: writer_side_def list_all_iff) (auto simp: record_ok_def)
    have "writer_side ts depth mx w ?written (sy_reported s)"
      using writer_side_step [OF side _ step same live] ok(1) as by simp
    moreover have "net_ok ts w (sy_reader s) ?written (sy_taken s) (data_bytes (make_data_config ?n ?w) p)"
      using data_datagram_sent [of "make_data_config ?n ?w" p ts x ?written] p dw
      by (auto simp: net_ok_def make_data_config_def wf_data_config_def dw_inv_def wf_endpoint_def)
    ultimately show ?thesis using inv net [of "[(?n, x)]"] True n p(3) by (auto simp: dds_inv_def)
  qed
qed

end

lemma dds_heartbeat_step:
  assumes inv: "dds_inv ts depth mx window s"
    and call: "data_writer_heartbeat buffer final_flag (sy_writer s) = Some (res, d, w)"
  shows "dds_inv ts depth mx window (s\<lparr>sy_writer := w, sy_net := sy_net s \<union> sent_datagrams res d\<rparr>)"
proof -
  have dw: "dw_inv depth mx (sy_writer s)" using inv by (simp add: dds_inv_def writer_side_def)
  obtain count where w: "w = (sy_writer s)\<lparr>dw_reliability := (dw_reliability (sy_writer s))\<lparr>rw_heartbeat_count := count\<rparr>\<rparr>"
    and sent: "\<forall>m \<in> sent_datagrams res d. \<exists>c. wf_heartbeat c \<and> header_ok (hb_header c) \<and>
       m = message_bytes (hb_header c) (heartbeat_submessage c)"
    using data_writer_heartbeat_effect [OF dw, of buffer final_flag] call by auto
  have "\<forall>m \<in> sent_datagrams res d. net_ok ts w (sy_reader s) (sy_written s) (sy_taken s) m"
    using sent heartbeat_datagram_sent by (fastforce simp: net_ok_def)
  moreover have "writer_side ts depth mx w (sy_written s) (sy_reported s)"
    using inv record_ok_endpoint [of "sy_writer s" w ts]
    by (simp add: dds_inv_def writer_side_def w dw_inv_def wf_endpoint_def same_endpoint_def)
  moreover have "net_ok ts w = net_ok ts (sy_writer s)" by (simp add: w net_ok_def fun_eq_iff)
  ultimately show ?thesis using inv by (auto simp: dds_inv_def)
qed

lemma dds_heartbeat_received_step:
  assumes inv: "dds_inv ts depth mx window s"
    and call: "data_reader_on_heartbeat window (Span m) response (sy_reader s) = Some (res, d, r)"
  shows "dds_inv ts depth mx window (s\<lparr>sy_reader := r, sy_net := sy_net s \<union> sent_datagrams res d\<rparr>)"
proof -
  let ?R = "reader_set window 1 (dr_reliability (sy_reader s))"
  have dr: "dr_inv window (sy_reader s)" and R: "?R = unat ` fst ` set (sy_taken s)"
    using inv by (simp_all add: dds_inv_def reader_side_def)
  have r: "dr_inv window r" "same_endpoint (sy_reader s) r" "reader_set window 1 (dr_reliability r) = ?R"
    and sent: "\<forall>m \<in> sent_datagrams res d. \<exists>c. wf_acknack c \<and> header_ok (an_header c) \<and>
       m = message_bytes (an_header c) (acknack_submessage c) \<and>
       (\<forall>n. sns_acknowledges (an_reader_state c) n \<longrightarrow> unat n < unat (1 :: u64) \<or> unat n \<in> ?R)"
    using data_reader_heartbeat_effect [OF dr, of "Span m" response] call by auto
  have taken: "n = 0 \<or> n \<in> fst ` set (sy_taken s)" if "unat n < unat (1 :: u64) \<or> unat n \<in> ?R" for n :: u64
    using that R by (auto simp: word_unat_eq_iff image_iff)
  have new: "net_ok ts (sy_writer s) r (sy_written s) (sy_taken s) m'" if sent': "m' \<in> sent_datagrams res d" for m'
  proof -
    obtain c where c: "wf_acknack c" "header_ok (an_header c)" "m' = message_bytes (an_header c) (acknack_submessage c)"
      and acks: "\<forall>n. sns_acknowledges (an_reader_state c) n \<longrightarrow> unat n < unat (1 :: u64) \<or> unat n \<in> ?R"
      using bspec [OF sent sent'] by auto
    have "\<forall>n. sns_acknowledges (an_reader_state c) n \<longrightarrow> n = 0 \<or> n \<in> fst ` set (sy_taken s)"
      using taken acks by (intro allI impI) simp
    from acknack_datagram_sent [OF c(1,2) this] show ?thesis by (simp add: net_ok_def c(3))
  qed
  have "\<forall>m \<in> sy_net s. net_ok ts (sy_writer s) r (sy_written s) (sy_taken s) m"
    using inv net_ok_cong [OF _ r(2), of "sy_writer s" "sy_writer s" ts _ _ _ "[]" "[]"] by (auto simp: dds_inv_def same_endpoint_def)
  with new show ?thesis using inv r by (auto simp: dds_inv_def reader_side_def)
qed

lemma acknack_delivers:
  assumes inv: "writer_inv depth mx w" and a: "a \<in> set (writer_actions (acknack_decision an now_ns w) w)"
    "ra_kind a = sample_delivered"
  shows "sns_acknowledges (an_reader_state an) (ra_sequence_number a)" "ra_sequence_number a \<noteq> 0"
proof -
  obtain r where r: "r \<in> set (writer_live w)" "ra_sequence_number a = record_sequence r"
    "fst (decision_outcome (acknack_decision an now_ns w r)) = sample_delivered"
    using kept_actions [OF a(1)] a(2) by auto
  then show "ra_sequence_number a \<noteq> 0" using inv by (auto simp: writer_inv_def valid_state_sequence_def)
  show "sns_acknowledges (an_reader_state an) (ra_sequence_number a)"
    using r by (auto simp: record_decision_def split: if_splits)
qed

lemma build_other_action:
  assumes "ra_kind a \<noteq> send_data" "ra_kind a \<noteq> retransmit_data"
  shows "\<exists>res. build_data_action a buffer w = Some (res, buffer) \<and> sent_datagrams res buffer = {}"
  using assms by (auto simp: build_data_action_def invalid_result_def sent_datagrams_def dds_success_def dds_ok_def)

lemma retransmitted_ok:
  assumes side: "writer_side ts depth mx w written reported" and dw: "dw_inv depth mx w'"
    and applied: "decisions_applied f w w' as" and m: "m \<in> retransmitted buffer w' as"
  shows "net_ok ts w' r written taken m"
proof -
  have inv: "writer_inv depth mx (dw_reliability w)" using side by (simp add: writer_side_def dw_inv_def)
  have as: "as = writer_actions f (dw_reliability w)" using applied by (simp add: decisions_applied_def)
  obtain a res d where a: "a \<in> set as" "build_data_action a buffer w' = Some (res, d)" "m \<in> sent_datagrams res d"
    using m by (auto simp: retransmitted_def split: option.splits)
  have "ra_kind a \<noteq> send_data" using kept_actions [of a f "dw_reliability w"] a(1) as by auto
  then have kind: "ra_kind a = retransmit_data" using build_other_action [of a buffer w'] a(2,3) by fastforce
  obtain rec where rec: "rec \<in> set (writer_live (dw_reliability w))" "record_sequence rec = ra_sequence_number a"
    "action_payload a (dw_reliability w') = Some (Span (record_bytes rec))"
    using kept_retransmission [OF inv, of a f] a(1) as kind applied by (auto simp: decisions_applied_def)
  obtain x where x: "(ra_sequence_number a, x) \<in> set written" "carries ts (record_bytes rec) x"
    using side rec(1,2) by (fastforce simp: writer_side_def record_ok_def list_all_iff)
  let ?c = "make_data_config (ra_sequence_number a) w'"
  have "data_config_ok ?c (record_bytes rec)" "m = data_bytes ?c (record_bytes rec)"
    using build_data_action_effect [OF _ rec(3), of buffer] a(2,3) dw by (auto simp: dw_inv_def)
  then show ?thesis using data_datagram_sent [of ?c "record_bytes rec" ts x written] x dw
    by (auto simp: net_ok_def make_data_config_def wf_data_config_def dw_inv_def wf_endpoint_def)
qed

text \<open>A call that applies decisions to the history, and reports only acknowledged samples as delivered.\<close>

lemma dds_applied_step:
  assumes inv: "dds_inv ts depth mx window s" and ok: "writer_op_ok op"
    and step: "writer_step depth mx cap op (dw_reliability (sy_writer s)) = Some ((e, as, hb), dw_reliability w)"
    and applied: "decisions_applied f (sy_writer s) w as"
    and delivered: "\<And>a. a \<in> set as \<Longrightarrow> ra_kind a = sample_delivered \<Longrightarrow> ra_sequence_number a \<in> fst ` set (sy_taken s)"
    and net: "net \<subseteq> retransmitted buffer w as"
  shows "dds_inv ts depth mx window (s\<lparr>sy_writer := w, sy_net := sy_net s \<union> net, sy_reported := sy_reported s @ as\<rparr>)"
proof -
  let ?w = "sy_writer s"
  have side: "writer_side ts depth mx ?w (sy_written s) (sy_reported s)" and dw: "dw_inv depth mx ?w"
    using inv by (simp_all add: dds_inv_def writer_side_def)
  have same: "same_endpoint ?w w" "length (dw_serialized w) = mx"
    and live: "writer_live (dw_reliability w) = writer_live (writer_kept f (dw_reliability ?w))"
    and as: "as = writer_actions f (dw_reliability ?w)"
    using dw applied by (simp_all add: decisions_applied_def dw_inv_def)
  have "ra_kind a \<noteq> send_data" if "a \<in> set as" for a
    using kept_actions [of a f "dw_reliability ?w"] that as by auto
  then have filters: "filter (\<lambda>a. ra_kind a = send_data) as = []" "filter (\<lambda>a. ra_kind a \<noteq> send_data) as = as"
    by (auto simp: filter_id_conv filter_empty_conv)
  have side': "writer_side ts depth mx w (sy_written s) (sy_reported s @ as)"
    using writer_side_step [OF side ok step same kept_side [OF side live]] filters by simp
  then have dw': "dw_inv depth mx w" by (simp add: writer_side_def)
  have "net_ok ts w (sy_reader s) (sy_written s) (sy_taken s) m" if "m \<in> net" for m
    using retransmitted_ok [OF side dw' applied] that net by blast
  moreover have "net_ok ts w = net_ok ts ?w" using same(1) by (simp add: same_endpoint_def net_ok_def fun_eq_iff)
  ultimately show ?thesis using inv side' delivered by (auto simp: dds_inv_def)
qed

lemma dds_acknack_step:
  assumes inv: "dds_inv ts depth mx window s" and m: "m \<in> sy_net s"
    and call: "data_writer_on_acknack cap (Span m) now_ns (sy_writer s) [] = Some (res, w, as)"
  shows "dds_inv ts depth mx window (s\<lparr>sy_writer := w, sy_net := sy_net s \<union> retransmitted buffer w as,
      sy_reported := sy_reported s @ as\<rparr>)"
proof -
  let ?w = "sy_writer s"
  have dw: "dw_inv depth mx ?w" using inv by (simp add: dds_inv_def writer_side_def)
  then have winv: "writer_inv depth mx (dw_reliability ?w)" by (simp add: dw_inv_def)
  consider (same) "w = ?w" "as = []" | (applied) an where "parse_acknack_message (Span m) = Some (Inr an)"
      "sns_wf (an_reader_state an)" "rh_guid_prefix (an_header an) = se_remote_guid_prefix (de_endpoint ?w)"
      "an_reader_id an = se_reader_id (de_endpoint ?w)" "an_writer_id an = se_writer_id (de_endpoint ?w)"
      "writer_on_acknack cap an now_ns (dw_reliability ?w) [] = Some (rs_none, dw_reliability w, as)"
      "decisions_applied (acknack_decision an now_ns (dw_reliability ?w)) ?w w as"
    using data_writer_acknack_effect [OF dw, of cap "Span m" now_ns] call by auto
  then show ?thesis
  proof cases
    case same
    then show ?thesis using inv by (auto simp: dds_inv_def retransmitted_def)
  next
    case applied
    have step: "writer_step depth mx cap (OnAckNack an now_ns) (dw_reliability ?w) = Some ((rs_none, as, None), dw_reliability w)"
      using applied(6) by simp
    have "acknack_datagram_ok (de_endpoint ?w) (sy_taken s) m"
      using inv m by (simp add: dds_inv_def net_ok_def)
    then have acks: "n = 0 \<or> n \<in> fst ` set (sy_taken s)" if "sns_acknowledges (an_reader_state an) n" for n
      using applied(1,3,4,5) that by (simp add: acknack_datagram_ok_def)
    have "ra_sequence_number a \<in> fst ` set (sy_taken s)" if "a \<in> set as" "ra_kind a = sample_delivered" for a
      using acknack_delivers [OF winv _ that(2), of an now_ns] that(1) applied(7) acks [of "ra_sequence_number a"]
      by (simp add: decisions_applied_def)
    then show ?thesis using dds_applied_step [OF inv _ step applied(7) _ subset_refl] applied(2) by simp
  qed
qed

lemma dds_timer_step:
  assumes inv: "dds_inv ts depth mx window s"
    and call: "data_writer_on_timer cap now_ns (sy_writer s) [] = Some (res, w, as)"
  shows "dds_inv ts depth mx window (s\<lparr>sy_writer := w, sy_reported := sy_reported s @ as\<rparr>)"
proof -
  let ?w = "sy_writer s" and ?f = "timer_decision (rw_config (dw_reliability (sy_writer s))) now_ns"
  have dw: "dw_inv depth mx ?w" using inv by (simp add: dds_inv_def writer_side_def)
  consider (same) "w = ?w" "as = []" | (applied)
      "writer_on_timer cap now_ns (dw_reliability ?w) [] = Some (rs_none, dw_reliability w, as)"
      "decisions_applied ?f ?w w as"
    using data_writer_timer_effect [OF dw, of cap now_ns] call by auto
  then show ?thesis
  proof cases
    case same
    then show ?thesis using inv by simp
  next
    case applied
    have step: "writer_step depth mx cap (OnTimer now_ns) (dw_reliability ?w) = Some ((rs_none, as, None), dw_reliability w)"
      using applied(1) by simp
    have "ra_kind a \<noteq> sample_delivered" if "a \<in> set as" for a
      using kept_actions [of a ?f "dw_reliability ?w"] that applied(2)
      by (auto simp: decisions_applied_def timer_decision_def split: if_splits)
    then show ?thesis using dds_applied_step [OF inv _ step applied(2) _ empty_subsetI] by simp
  qed
qed

context type_support_laws
begin

lemma carries_unique: "carries ts p x \<Longrightarrow> carries ts p y \<Longrightarrow> x = y"
  by (auto simp: carries_def)

lemma dds_take_step:
  assumes inv: "dds_inv ts depth mx window s" and m: "m \<in> sy_net s"
    and call: "data_reader_take ts window (Span m) x (sy_reader s) = Some (res, y, r)"
  shows "dds_inv ts depth mx window (s\<lparr>sy_reader := r,
      sy_taken := sy_taken s @ (if dds_ok res then [(dds_sequence_number res, y)] else [])\<rparr>)"
proof -
  let ?r = "sy_reader s" and ?R = "reader_set window 1 (dr_reliability (sy_reader s))"
  have side: "reader_side window ?r (sy_taken s)" and dr: "dr_inv window ?r"
    using inv by (simp_all add: dds_inv_def reader_side_def)
  have r: "dr_inv window r" "same_endpoint ?r r" and eff: "if dds_ok res
     then \<exists>v. parse_data_message (Span m) = Some (Inr v) \<and> dv_guid_prefix v = se_remote_guid_prefix (de_endpoint ?r) \<and>
       dv_reader_id v = se_reader_id (de_endpoint ?r) \<and> dv_writer_id v = se_writer_id (de_endpoint ?r) \<and>
       carries ts (dv_payload v) y \<and> dds_sequence_number res = dv_sequence_number v \<and>
       data_spec window 1 True (dv_sequence_number v) ?R = (rs_none, reader_set window 1 (dr_reliability r))
     else y = x \<and> reader_set window 1 (dr_reliability r) = ?R"
    using data_reader_take_effect [OF dr, of "Span m" x] call by auto
  have net: "\<forall>m \<in> sy_net s. net_ok ts (sy_writer s) r (sy_written s) (sy_taken s @ later) m" for later
    using inv net_ok_cong [OF _ r(2), of "sy_writer s" "sy_writer s" ts _ _ _ "[]" later] by (auto simp: dds_inv_def same_endpoint_def)
  show ?thesis
  proof (cases "dds_ok res")
    case False
    then show ?thesis using inv eff r(1) net [of "[]"] by (simp add: dds_inv_def reader_side_def)
  next
    case True
    then obtain v where v: "parse_data_message (Span m) = Some (Inr v)" "dv_guid_prefix v = se_remote_guid_prefix (de_endpoint ?r)"
      "carries ts (dv_payload v) y" "dds_sequence_number res = dv_sequence_number v"
      "dv_reader_id v = se_reader_id (de_endpoint ?r)" "dv_writer_id v = se_writer_id (de_endpoint ?r)"
      and spec: "data_spec window 1 True (dv_sequence_number v) ?R = (rs_none, reader_set window 1 (dr_reliability r))"
      using eff by auto
    have R: "unat (dv_sequence_number v) \<notin> ?R" "reader_set window 1 (dr_reliability r) = insert (unat (dv_sequence_number v)) ?R"
      using spec by (auto simp: data_spec.simps split: if_splits)
    have "data_datagram_ok ts (de_endpoint ?r) (sy_written s) m"
      using inv m by (simp add: dds_inv_def net_ok_def)
    then have "(dv_sequence_number v, y) \<in> set (sy_written s)"
      using v(1-3,5,6) carries_unique by (auto simp: data_datagram_ok_def)
    moreover have "reader_side window r (sy_taken s @ [(dv_sequence_number v, y)])"
      using side R r(1) by (auto simp: reader_side_def)
    ultimately show ?thesis using inv True v(4) net [of "[(dv_sequence_number v, y)]"] by (auto simp: dds_inv_def)
  qed
qed

lemma dds_step_inv:
  assumes "dds_step ts depth mx window cap s s'" "dds_inv ts depth mx window s"
  shows "dds_inv ts depth mx window s'"
  using assms
proof cases
  case (Foreign m)
  then show ?thesis using assms(2) foreign_datagram_ok by (fastforce simp: dds_inv_def net_ok_def)
qed (use assms(2) dds_write_step dds_heartbeat_step dds_acknack_step dds_timer_step dds_take_step dds_heartbeat_received_step
  in \<open>simp_all\<close>)

lemma dds_reachable_inv:
  assumes "(dds_step ts depth mx window cap)\<^sup>*\<^sup>* s s'" "dds_inv ts depth mx window s"
  shows "dds_inv ts depth mx window s'"
  using assms by (induction rule: rtranclp_induct) (auto intro: dds_step_inv)

end

section \<open>The type support of the example\<close>

lemma write_values_buffer:
  assumes "4 \<le> length pre" "length (pre @ rest) \<le> SIZE_MAX" "list_all cdr_value_ok vs"
  shows "\<exists>ok w b. write_values vs (cw_at order pre rest) = Some (ok, w) \<and> cw_buffer w = Span b \<and>
    length b = length pre + length rest"
  using assms
proof (induction vs arbitrary: pre rest)
  case Nil
  then show ?case by (auto simp: cw_at_def)
next
  case (Cons v vs)
  let ?e = "cdr_encode order (length pre - 4) v"
  show ?case
    using Cons.IH [of "pre @ ?e" "drop (length ?e) rest"] Cons.prems write_value_at [of pre rest v order]
    by (cases "length ?e \<le> length rest") (auto simp: cw_at_def [of order pre rest])
qed

lemma vehicle_serialize_values:
  "vehicle_serialize x w = write_values [VU64 (vs_timestamp_ns x), VU32 (vs_velocity_mps x)] w"
proof -
  have "write_values [VU32 v] w = cw_write_uint32 v w" for v w
    by (cases "cw_write_uint32 v w") auto
  then show ?thesis by (cases "cw_write_uint64 (vs_timestamp_ns x) w") (simp_all add: vehicle_serialize_def cw_write_float32_def split: prod.splits)
qed

lemma vehicle_deserialize_values:
  assumes "read_values [TU64, TU32] r = Some (vs, r')"
  shows "\<exists>ok y. vehicle_deserialize r x = Some (ok, y, r') \<and>
    (\<forall>t v. vs = Some [VU64 t, VU32 v] \<longrightarrow> ok \<and> y = x\<lparr>vs_timestamp_ns := t, vs_velocity_mps := v\<rparr>)"
proof -
  from assms obtain t r1 where t: "cr_read_uint64 r = Some (t, r1)"
    by (cases "cr_read_uint64 r") auto
  show ?thesis
  proof (cases t)
    case None
    then show ?thesis using assms t by (intro exI [of _ False]) (simp add: vehicle_deserialize_def)
  next
    case (Some t')
    with assms t obtain v r2 where v: "cr_read_uint32 r1 = Some (v, r2)"
      by (cases "cr_read_uint32 r1") auto
    show ?thesis using assms t Some v
      by (cases v) (auto simp: vehicle_deserialize_def cr_read_float32_def)
  qed
qed

interpretation vehicle: type_support_laws vehicle_type_support
proof
  fix order :: byte_order and rest :: "byte list" and x :: vehicle_state and w :: cdr_writer and y p rest'
  define vs where "vs = [VU64 (vs_timestamp_ns x), VU32 (vs_velocity_mps x)]"
  define e where "e = cdr_encode_all order 0 vs"
  assume max: "4 + length rest \<le> SIZE_MAX"
  have vs: "list_all cdr_value_ok vs" "list_all2 cdr_typed [TU64, TU32] vs" by (simp_all add: vs_def)
  have wr: "if length e \<le> length rest
    then write_values vs (cw_at order (cdr_header order) rest) = Some (True, cw_at order (cdr_header order @ e) (drop (length e) rest))
    else \<exists>w. write_values vs (cw_at order (cdr_header order) rest) = Some (False, w) \<and> cw_error w = cdr_overflow"
    using write_values_at [of "cdr_header order" rest vs e order] max vs by (simp add: e_def)
  have ts: "ts_serialize vehicle_type_support x w = write_values vs w" for w
    by (simp add: vehicle_type_support_def vehicle_serialize_values vs_def)
  show "\<exists>ok w b. ts_serialize vehicle_type_support x (cw_at order (cdr_header order) rest) = Some (ok, w) \<and>
      cw_buffer w = Span b \<and> length b = 4 + length rest"
    using write_values_buffer [of "cdr_header order" rest vs order] max vs by (simp add: ts)
  show "\<exists>p rest'. w = cw_at order (cdr_header order @ p) rest' \<and> length p + length rest' = length rest"
    if "ts_serialize vehicle_type_support x (cw_at order (cdr_header order) rest) = Some (True, w)"
    using wr that by (intro exI [of _ e] exI [of _ "drop (length e) rest"]) (auto simp: ts split: if_splits)
  show "\<exists>r. ts_deserialize vehicle_type_support (cr_at order (cdr_header order @ p) 4) y = Some (True, x, r)"
    if "ts_serialize vehicle_type_support x (cw_at order (cdr_header order) rest) = Some (True, cw_at order (cdr_header order @ p) rest')"
  proof -
    have fits: "length e \<le> length rest" and eq: "cw_at order (cdr_header order @ p) rest' = cw_at order (cdr_header order @ e) (drop (length e) rest)"
      using wr that by (auto simp: ts split: if_splits)
    then have "length p = length e" "p @ rest' = e @ drop (length e) rest" by (simp_all add: cw_at_def)
    then have p: "p = e" by simp
    have "read_values [TU64, TU32] (cr_at order (cdr_header order @ e) 4) = Some (Some vs, cr_at order (cdr_header order @ e) (4 + length e))"
      using read_values_at [of "cdr_header order" "cdr_header order @ e" vs "[TU64, TU32]" e "[]" order] vs max fits
      by (simp add: e_def)
    from vehicle_deserialize_values [OF this, of y] show ?thesis by (auto simp: vehicle_type_support_def p vs_def)
  qed
next
  fix sp r and x :: vehicle_state
  assume "cr_begin (cdr_reader_new sp) = Some (True, r)"
  then have "cr_inv r" "cr_error r = cdr_none" using cr_begin_inv [of "cdr_reader_new sp"] by auto
  from read_values_total [OF this, of "[TU64, TU32]"] obtain vs r' where "read_values [TU64, TU32] r = Some (vs, r')" by blast
  from vehicle_deserialize_values [OF this, of x]
  show "\<exists>ok y r'. ts_deserialize vehicle_type_support r x = Some (ok, y, r')"
    by (auto simp: vehicle_type_support_def)
qed

section \<open>The example\<close>

lemma example_inv: "dw_inv 4 32 example_writer" "dr_inv 8 example_reader" "endpoints_paired example_writer example_reader"
  "de_valid example_reader"
proof -
  have "wf_endpoint example_writer" "wf_endpoint example_reader" by code_simp+
  then have "dds_inv vehicle_type_support 4 32 8 (dds_start example_writer example_reader)"
    by (intro dds_inv_start) (auto simp: example_writer_def example_reader_def SIZE_MAX_def)
  then show "dw_inv 4 32 example_writer" "dr_inv 8 example_reader"
    by (simp_all add: dds_inv_def dds_start_def writer_side_def reader_side_def)
  show "endpoints_paired example_writer example_reader" "de_valid example_reader" by code_simp+
qed

lemma example_write:
  "\<exists>d w. data_writer_write vehicle_type_support 4 32 example_sample 1000000 (Span (replicate 60 0)) example_writer =
     Some (dds_success\<lparr>dds_bytes := 60, dds_sequence_number := 1\<rparr>, d, w)"
proof -
  let ?vs = "[VU64 (vs_timestamp_ns example_sample), VU32 (vs_velocity_mps example_sample)]"
  let ?p = "cdr_encode_all little_endian 0 ?vs"
  have p: "length ?p = 12" by (simp add: cdr_encode_def cdr_pad_def)
  have w: "de_valid example_writer" "rw_valid (dw_reliability example_writer)" "dw_next_sequence example_writer = 1"
    "rw_last_sequence_number (dw_reliability example_writer) = 0" "rw_size (dw_reliability example_writer) = 0"
    "se_byte_order (de_endpoint example_writer) = little_endian" "length (dw_serialized example_writer) = 32"
    "\<not> unsupported_version (dp_version (de_participant example_writer))" by code_simp+
  have "vehicle_serialize example_sample (cw_at little_endian (cdr_header little_endian) (drop 4 (dw_serialized example_writer))) =
      Some (True, cw_at little_endian (cdr_header little_endian @ ?p) (drop 12 (drop 4 (dw_serialized example_writer))))"
    using write_values_at [of "cdr_header little_endian" "drop 4 (dw_serialized example_writer)" ?vs ?p little_endian] p w(7)
    unfolding vehicle_serialize_values by (simp add: SIZE_MAX_def del: cdr_encode_all.simps write_values.simps)
  then show ?thesis
    using vehicle.data_writer_write_accepts [OF example_inv(1) w(1,2) w(3) [symmetric], of ?p "replicate 60 0" little_endian
        example_sample "drop 12 (drop 4 (dw_serialized example_writer))" 1000000] w p
    by (simp add: valid_state_sequence_def INT64_MAX_def supported_byte_order_def vehicle_type_support_def
      del: cdr_encode_all.simps)
qed

text \<open>Whether a retransmission is built depends on the room of the buffer alone.\<close>

lemma build_retransmission:
  assumes wf: "wf_endpoint w" and valid: "de_valid w" and rec: "record_ok ts w written r" "record_sequence r = ra_sequence_number a"
    and a: "ra_kind a = retransmit_data" "ra_data a \<noteq> None" "ra_data_size a = length (record_bytes r)"
      "action_payload a (dw_reliability w) = Some (Span (record_bytes r))"
  shows "\<exists>res d. build_data_action a buffer w = Some (res, d) \<and>
    (if \<not> null_span buffer \<and> data_message_overhead + ra_data_size a \<le> span_size buffer
     then repairs ts w written a res d else \<not> dds_ok res)"
proof -
  let ?c = "make_data_config (ra_sequence_number a) w" and ?p = "record_bytes r"
  have c: "wf_data_config ?c" "data_config_ok ?c ?p"
    using wf rec by (auto simp: wf_endpoint_def wf_data_config_def make_data_config_def record_ok_def)
  obtain x where x: "(ra_sequence_number a, x) \<in> set written" "carries ts ?p x" using rec by (auto simp: record_ok_def)
  obtain b where b: "data_build ?c (Span ?p) (data_builder_new buffer) = Some (db_error b = rtps_none, b)"
    using data_build_total [OF c(1)] by blast
  have size: "4 \<le> ra_data_size a" using c(2) a(3) by (simp add: data_config_ok_def)
  have view: "parse_data_message (Span (data_bytes ?c ?p)) = Some (Inr (data_view ?c ?p))"
    using parse_data_bytes [OF c] by simp
  show ?thesis
  proof (cases "db_error b = rtps_none")
    case False
    then show ?thesis using a b size valid data_build_iff(1) [OF c(1) b] c(2)
      by (auto simp: build_data_action_def dds_ok_def dds_success_def)
  next
    case True
    then have bytes: "take (db_size b) (span_bytes (db_buffer b)) = data_bytes ?c ?p"
      using data_build_bytes [OF c(1), of ?p buffer b] b by simp
    have "db_size b = data_message_overhead + length ?p"
    proof -
      obtain s where s: "buffer = Span s" "data_message_overhead + length ?p \<le> length s"
        using data_build_iff(1) [OF c(1) b] True by (cases buffer) auto
      then show ?thesis using data_build_cases [OF c(1) refl _ c(2), of "data_builder_new buffer" s] b by auto
    qed
    with True bytes view x show ?thesis using a b size valid data_build_iff(1) [OF c(1) b] c(2)
      by (auto simp: build_data_action_def repairs_def dds_ok_def dds_success_def data_view_def make_data_config_def)
  qed
qed

lemma acknack_actions_built:
  assumes side: "writer_side ts depth mx w written reported"
  shows "\<exists>res w' as. data_writer_on_acknack cap datagram now_ns w [] = Some (res, w', as) \<and>
    (\<forall>a \<in> set as. \<exists>res d. build_data_action a buffer w' = Some (res, d) \<and>
       (if ra_kind a = retransmit_data \<and> \<not> null_span buffer \<and> data_message_overhead + ra_data_size a \<le> span_size buffer
        then repairs ts w' written a res d else \<not> dds_ok res))"
proof -
  have dw: "dw_inv depth mx w" and inv: "writer_inv depth mx (dw_reliability w)"
    using side by (simp_all add: writer_side_def dw_inv_def)
  obtain res w' as where call: "data_writer_on_acknack cap datagram now_ns w [] = Some (res, w', as)"
    and eff: "w' = w \<and> as = [] \<or> (\<exists>an. de_valid w \<and>
        decisions_applied (acknack_decision an now_ns (dw_reliability w)) w w' as)"
    using data_writer_acknack_effect [OF dw, of cap datagram now_ns] by blast
  have "\<exists>res d. build_data_action a buffer w' = Some (res, d) \<and>
       (if ra_kind a = retransmit_data \<and> \<not> null_span buffer \<and> data_message_overhead + ra_data_size a \<le> span_size buffer
        then repairs ts w' written a res d else \<not> dds_ok res)" if a: "a \<in> set as" for a
  proof -
    obtain an where valid: "de_valid w" and applied: "decisions_applied (acknack_decision an now_ns (dw_reliability w)) w w' as"
      using eff a by auto
    then have same: "same_endpoint w w'" and as: "a \<in> set (writer_actions (acknack_decision an now_ns (dw_reliability w)) (dw_reliability w))"
      using a by (simp_all add: decisions_applied_def)
    show ?thesis
    proof (cases "ra_kind a = retransmit_data")
      case True
      from kept_retransmission [OF inv as True] obtain r where r: "r \<in> set (writer_live (dw_reliability w))"
        "record_sequence r = ra_sequence_number a" "ra_data a \<noteq> None" "ra_data_size a = length (record_bytes r)"
        "action_payload a (dw_reliability w') = Some (Span (record_bytes r))"
        using applied by (auto simp: decisions_applied_def)
      have "record_ok ts w' written r"
        using side r(1) record_ok_endpoint [OF same, of ts] by (simp add: writer_side_def list_all_iff)
      moreover have "wf_endpoint w'" "de_valid w'"
        using dw same valid by (simp_all add: same_endpoint_def dw_inv_def wf_endpoint_def)
      ultimately show ?thesis using build_retransmission [of w' ts written r a buffer] r True by simp
    next
      case False
      then have "ra_kind a \<noteq> send_data" using kept_actions [OF as] by auto
      with False show ?thesis by (simp add: build_data_action_def invalid_result_def dds_ok_def dds_success_def)
    qed
  qed
  with call show ?thesis by blast
qed

lemma distinct_by_count: "(\<And>n. length (filter (\<lambda>m. m = n) ns) \<le> Suc 0) \<Longrightarrow> distinct ns"
proof (induction ns)
  case (Cons m ns)
  have "length (filter (\<lambda>x. x = n) ns) \<le> Suc 0" for n using Cons.prems [of n] by (simp split: if_splits)
  moreover have "filter (\<lambda>x. x = m) ns = []" using Cons.prems [of m] by simp
  ultimately show ?case using Cons.IH by (auto simp: filter_empty_conv)
qed simp

lemma dds_inv_accounts:
  assumes "dds_inv ts depth mx window s"
  shows "distinct (map fst (sy_written s))"
    and "(n, x) \<in> set (sy_written s) \<Longrightarrow>
      record_count n (writer_live (dw_reliability (sy_writer s))) + outcomes n (sy_reported s) = 1"
proof -
  obtain tr where tr: "trace_inv (dw_reliability (sy_writer s)) tr" "filter (\<lambda>a. ra_kind a \<noteq> send_data) tr = sy_reported s"
    "map ra_sequence_number (filter (\<lambda>a. ra_kind a = send_data) tr) = map fst (sy_written s)"
    using assms by (auto simp: dds_inv_def writer_side_def)
  have sends: "sends n tr = length (filter (\<lambda>m. m = n) (map fst (sy_written s)))" for n
    unfolding tr(3) [symmetric] by (simp add: action_count_def filter_map o_def)
  have out: "outcomes n tr = outcomes n (sy_reported s)" for n
    unfolding tr(2) [symmetric] action_count_def filter_filter
    by (rule arg_cong [of _ _ length], rule filter_cong) auto
  have acc: "sends n tr = record_count n (writer_live (dw_reliability (sy_writer s))) + outcomes n tr \<and> sends n tr \<le> 1" for n
    using tr(1) unfolding trace_inv_def sample_accounted_def by blast
  show distinct: "distinct (map fst (sy_written s))" using acc sends by (intro distinct_by_count) (metis One_nat_def)
  show "record_count n (writer_live (dw_reliability (sy_writer s))) + outcomes n (sy_reported s) = 1" if "(n, x) \<in> set (sy_written s)"
  proof -
    have "n \<in> set (map fst (sy_written s))" using that by force
    then have "filter (\<lambda>m. m = n) (map fst (sy_written s)) \<noteq> []" by (auto simp: filter_empty_conv)
    then have "sends n tr \<noteq> 0" unfolding sends length_0_conv .
    then show ?thesis using acc [of n] out [of n] by linarith
  qed
qed

lemma example_written:
  assumes "data_writer_write vehicle_type_support 4 32 example_sample 1000000 (Span (replicate 60 0)) example_writer = Some (res, d, w)"
    "dds_ok res"
  shows "\<exists>p. carries vehicle_type_support p example_sample \<and> data_config_ok (make_data_config 1 example_writer) p \<and> length p \<le> 32 \<and>
    sent_datagrams res d = {data_bytes (make_data_config 1 example_writer) p} \<and> same_endpoint example_writer w \<and>
    dw_reliability w = writer_written (Span p) 1 1000000 (dw_reliability example_writer)"
proof -
  have n: "dw_next_sequence example_writer = 1" by code_simp
  obtain p as where p: "carries vehicle_type_support p example_sample" "data_config_ok (make_data_config 1 example_writer) p"
    "sent_datagrams res d = {data_bytes (make_data_config 1 example_writer) p}" "same_endpoint example_writer w"
    and wr: "writer_write 4 32 1 (Span p) 1 1000000 (dw_reliability example_writer) [] = Some (rs_none, dw_reliability w, as)"
    using vehicle.data_writer_write_effect [OF example_inv(1), of example_sample 1000000 "Span (replicate 60 0)"] assms n by auto
  have "writer_inv 4 32 (dw_reliability example_writer)" using example_inv(1) by (simp add: dw_inv_def)
  from writer_write_eq [OF this, of "[]" 1 "Span p" 1 1000000] wr
  have "dw_reliability w = writer_written (Span p) 1 1000000 (dw_reliability example_writer)" "length p \<le> 32"
    by (auto split: if_splits)
  with p show ?thesis by blast
qed

lemma example_repair:
  assumes "data_writer_write vehicle_type_support 4 32 example_sample 1000000 (Span (replicate 60 0)) example_writer = Some (res, d, w)"
    "dds_ok res"
  shows "\<exists>w' a. data_writer_on_acknack 4 (Span example_request) 2000000 w [] = Some (dds_success, w', [a]) \<and>
    ra_kind a = retransmit_data \<and> ra_sequence_number a = 1 \<and> ra_data_size a \<le> 32"
proof -
  from example_written [OF assms] obtain p where p: "length p \<le> 32" "same_endpoint example_writer w"
    and rel: "dw_reliability w = writer_written (Span p) 1 1000000 (dw_reliability example_writer)" by blast
  let ?rel = "dw_reliability w" and ?r = "written_record (Span p) 1 1000000 (rw_records (dw_reliability example_writer) ! 0)"
  have winv: "writer_inv 4 32 (dw_reliability example_writer)" using example_inv(1) by (simp add: dw_inv_def)
  have w0: "rw_size (dw_reliability example_writer) = 0" "rw_valid (dw_reliability example_writer)" "de_valid example_writer"
    "wc_reader_id (rw_config (dw_reliability example_writer)) = [0, 0, 1, 4]"
    "wc_writer_id (rw_config (dw_reliability example_writer)) = [0, 0, 2, 3]"
    "wc_repair_window_ns (rw_config (dw_reliability example_writer)) = 100000000"
    "wc_max_repair_attempts (rw_config (dw_reliability example_writer)) = 2"
    "rw_acknack_count_initialized (dw_reliability example_writer) = False"
    "se_remote_guid_prefix (de_endpoint example_writer) = rh_guid_prefix (an_header example_acknack)"
    "rw_last_sequence_number (dw_reliability example_writer) = 0"
    by code_simp+
  have live: "writer_live ?rel = [?r]"
    using writer_written_live [OF winv, of "Span p" 1 1000000] w0(1) rel by (simp add: writer_live_def)
  have an: "wf_acknack example_acknack" "header_ok (an_header example_acknack)"
    "sns_requests (an_reader_state example_acknack) 1" "\<not> sns_acknowledges (an_reader_state example_acknack) 1"
    "an_reader_id example_acknack = [0, 0, 1, 4]" "an_writer_id example_acknack = [0, 0, 2, 3]" by code_simp+
  have repair: "acknack_decision example_acknack 2000000 ?rel ?r = Repair"
    using w0 an by (simp add: record_decision_def record_sequence_def written_record_def record_expired_def rel writer_written_def)
  have r: "record_sequence ?r = 1" "wr_first_send_ns ?r = 1000000" "bs_size (wr_sample ?r) = length p"
    by (simp_all add: record_sequence_def written_record_def)
  have inv: "writer_inv 4 32 ?rel"
    using writer_written_inv [OF winv, of "Span p" 1 1000000] w0(1) p(1) rel
    by (simp add: valid_state_sequence_def valid_span_def INT64_MAX_def w0(10))
  have "sns_wf (an_reader_state example_acknack)" using an(1) by (simp add: wf_acknack_def)
  from writer_on_acknack_eq [OF inv this, of "[]" 4 2000000]
  have "\<exists>rel' a. writer_on_acknack 4 example_acknack 2000000 ?rel [] = Some (rs_none, rel', [a]) \<and>
      ra_kind a = retransmit_data \<and> ra_sequence_number a = 1 \<and> ra_data_size a \<le> 32"
    using repair live w0 an p(1) r
    by (simp add: writer_actions_def fates_def rel writer_written_def record_regresses_def data_action_def default_action_def)
  then show ?thesis 
    using parse_acknack_bytes [OF an(1,2)] w0(3,9) p(2)
    by (auto simp: data_writer_on_acknack_def example_request_def same_endpoint_def Let_def)
qed

lemma example_steps:
  "\<exists>res d w. data_writer_write vehicle_type_support 4 32 example_sample 1000000 (Span (replicate 60 0)) example_writer = Some (res, d, w) \<and>
     dds_ok res \<and>
     dds_step vehicle_type_support 4 32 8 4 (dds_start example_writer example_reader)
       ((dds_start example_writer example_reader)\<lparr>sy_writer := w, sy_net := sent_datagrams res d, sy_written := [(1, example_sample)]\<rparr>)"
proof -
  obtain d w where w: "data_writer_write vehicle_type_support 4 32 example_sample 1000000 (Span (replicate 60 0)) example_writer =
     Some (dds_success\<lparr>dds_bytes := 60, dds_sequence_number := 1\<rparr>, d, w)" using example_write by blast
  then show ?thesis
    using dds_step.Write [of vehicle_type_support 4 32 example_sample 1000000 "Span (replicate 60 0)" "dds_start example_writer example_reader"]
    by (fastforce simp: dds_start_def dds_ok_def dds_success_def)
qed

lemma example_unreceived: "data_spec 8 1 True 1 (reader_set 8 1 (dr_reliability example_reader)) = (rs_none, {1})"
proof -
  have "reader_set 8 1 (dr_reliability example_reader) = {}"
    using reader_new(2) [of 8 "make_reader_config (example_endpoint 0x10)"]
    by (simp add: example_reader_def data_reader_new_def make_reader_config_def valid_state_sequence_def INT64_MAX_def)
  moreover have "first_missing 1 {} = 1" by (auto simp: first_missing_def intro: Least_equality)
  ultimately show ?thesis by (simp add: data_spec.simps valid_state_sequence_def INT64_MAX_def)
qed

text \<open>The sample written, sent and taken.\<close>

lemma example_run:
  "\<exists>s. (dds_step vehicle_type_support 4 32 8 4)\<^sup>*\<^sup>* (dds_start example_writer example_reader) s \<and>
     sy_written s = [(1, example_sample)] \<and> sy_taken s = [(1, example_sample)]"
proof -
  obtain res d w where w: "data_writer_write vehicle_type_support 4 32 example_sample 1000000 (Span (replicate 60 0)) example_writer = Some (res, d, w)"
      "dds_ok res"
    and step: "dds_step vehicle_type_support 4 32 8 4 (dds_start example_writer example_reader)
       ((dds_start example_writer example_reader)\<lparr>sy_writer := w, sy_net := sent_datagrams res d, sy_written := [(1, example_sample)]\<rparr>)"
    (is "dds_step _ _ _ _ _ _ ?s") using example_steps by blast
  let ?c = "make_data_config 1 example_writer"
  obtain p where p: "carries vehicle_type_support p example_sample" "data_config_ok ?c p" "sent_datagrams res d = {data_bytes ?c p}"
    using example_written [OF w] by blast
  have "wf_data_config ?c"
    using example_inv(1) by (auto simp: dw_inv_def wf_endpoint_def wf_data_config_def make_data_config_def)
  then have view: "parse_data_message (Span (data_bytes ?c p)) = Some (Inr (data_view ?c p))" using parse_data_bytes p(2) by simp
  obtain r where "data_reader_take vehicle_type_support 8 (Span (data_bytes ?c p)) (ts_default vehicle_type_support) example_reader =
      Some (dds_success\<lparr>dds_bytes := length (data_bytes ?c p), dds_sequence_number := 1\<rparr>, example_sample, r)"
    using vehicle.data_reader_take_carried [OF example_inv(2) view example_inv(4), of example_sample rs_none "{1}" "ts_default vehicle_type_support"]
      example_inv(3) p(1) example_unreceived
    by (auto simp: data_view_def make_data_config_def endpoints_paired_def)
  then have "dds_step vehicle_type_support 4 32 8 4 ?s (?s\<lparr>sy_reader := r, sy_taken := [(1, example_sample)]\<rparr>)"
    using dds_step.Take [of "data_bytes ?c p" ?s vehicle_type_support 8 "ts_default vehicle_type_support"] p(3)
    by (fastforce simp: dds_start_def dds_ok_def dds_success_def)
  then have run: "(dds_step vehicle_type_support 4 32 8 4)\<^sup>*\<^sup>* (dds_start example_writer example_reader)
      (?s\<lparr>sy_reader := r, sy_taken := [(1, example_sample)]\<rparr>)" using step by (meson converse_rtranclp_into_rtranclp r_into_rtranclp)
  show ?thesis by (intro exI conjI, rule run) simp_all
qed

section \<open>Properties\<close>

text \<open>C2: a sample that the writer accepts and whose datagram arrives at the paired reader is handled
  as the set of received numbers prescribes: a new number in the window is delivered with exactly
  the value that was written, a known, stale or too distant one is refused with its reason, and
  the caller's sample is then left alone.\<close>

theorem write_take_delivers:
  assumes "type_support_laws ts" "dw_inv depth mx w" "dr_inv window r" "endpoints_paired w r" "de_valid r"
    and "data_writer_write ts depth mx x now_ns buffer w = Some (res, d, w')" "dds_ok res"
  defines "m \<equiv> take (dds_bytes res) (span_bytes d)"
    and "spec \<equiv> data_spec window 1 True (dds_sequence_number res) (reader_set window 1 (dr_reliability r))"
  shows "\<exists>r'. data_reader_take ts window (Span m) y r =
      Some (if fst spec = rs_none
            then (dds_success\<lparr>dds_bytes := length m, dds_sequence_number := dds_sequence_number res\<rparr>, x, r')
            else (reliability_result (fst spec), y, r')) \<and>
    reader_set window 1 (dr_reliability r') = snd spec"
proof -
  let ?c = "make_data_config (dds_sequence_number res) w"
  obtain p where p: "carries ts p x" "data_config_ok ?c p" "sent_datagrams res d = {data_bytes ?c p}"
    using type_support_laws.data_writer_write_effect [OF assms(1,2), of x now_ns buffer] assms(6,7) by auto
  have wf: "wf_data_config ?c"
    using assms(2) by (auto simp: dw_inv_def wf_endpoint_def wf_data_config_def make_data_config_def)
  have m: "m = data_bytes ?c p" using p(3) by (auto simp: m_def sent_datagrams_def split: if_splits)
  have view: "parse_data_message (Span m) = Some (Inr (data_view ?c p))" using parse_data_bytes [OF wf p(2)] m by simp
  obtain e R where spec: "spec = (e, R)" by fastforce
  from type_support_laws.data_reader_take_carried [OF assms(1,3) view assms(5), of x e R y] p(1) spec assms(4)
  show ?thesis by (auto simp: data_view_def make_data_config_def endpoints_paired_def spec_def)
qed

theorem write_take_delivers_witness:
  "\<exists>res d w' res' r'. data_writer_write vehicle_type_support 4 32 example_sample 1000000 (Span (replicate 60 0)) example_writer =
       Some (res, d, w') \<and>
     data_reader_take vehicle_type_support 8 (Span (take (dds_bytes res) (span_bytes d))) (ts_default vehicle_type_support) example_reader =
       Some (res', example_sample, r') \<and> dds_ok res' \<and> dds_sequence_number res' = 1"
proof -
  obtain res d w' where w: "data_writer_write vehicle_type_support 4 32 example_sample 1000000 (Span (replicate 60 0)) example_writer =
      Some (res, d, w')" "dds_ok res" "dds_sequence_number res = 1"
    using example_write by (auto simp: dds_ok_def dds_success_def)
  from example_unreceived w write_take_delivers [OF vehicle.type_support_laws_axioms example_inv w(1,2), of "ts_default vehicle_type_support"]
  show ?thesis by (auto simp: dds_ok_def dds_success_def)
qed

text \<open>C1: over a network that loses, reorders and duplicates the datagrams of a writer and a reader and
  mixes in those of others, and for every interleaving of the calls: the reader takes only samples
  that were written, with their values, and each sequence number at most once; a sample that the
  writer reports delivered was taken; and every accepted sample is either still in the history or
  has been reported exactly once. What others send is any bytes, those of other endpoints of the same
  two participants and forged HEARTBEATs included, except a DATA or an ACKNACK forged under
  the participant and the entity ids of the endpoints themselves: the protocol does not
  authenticate.\<close>

theorem dds_delivery:
  assumes "type_support_laws ts" "wf_endpoint w" "wf_endpoint r" "mx \<le> SIZE_MAX" "0 < window" "window \<le> 256"
    and "w = data_writer_new depth mx publisher tp endpoint qos" "r = data_reader_new window subscriber tp' endpoint'"
    and "(dds_step ts depth mx window cap)\<^sup>*\<^sup>* (dds_start w r) s"
  shows "distinct (map fst (sy_written s)) \<and> distinct (map fst (sy_taken s)) \<and> set (sy_taken s) \<subseteq> set (sy_written s) \<and>
    (\<forall>a \<in> set (sy_reported s). ra_kind a = sample_delivered \<longrightarrow> ra_sequence_number a \<in> fst ` set (sy_taken s)) \<and>
    (\<forall>(n, x) \<in> set (sy_written s).
       record_count n (writer_live (dw_reliability (sy_writer s))) + outcomes n (sy_reported s) = 1)"
proof -
  have inv: "dds_inv ts depth mx window s"
    using type_support_laws.dds_reachable_inv [OF assms(1,9)] dds_inv_start [OF assms(2-8)] by blast
  then show ?thesis using dds_inv_accounts [OF inv] by (auto simp: dds_inv_def reader_side_def)
qed

theorem dds_delivery_witness:
  "\<exists>s. (dds_step vehicle_type_support 4 32 8 4)\<^sup>*\<^sup>* (dds_start example_writer example_reader) s \<and>
     sy_written s = [(1, example_sample)] \<and> sy_taken s = [(1, example_sample)] \<and>
     record_count 1 (writer_live (dw_reliability (sy_writer s))) + outcomes 1 (sy_reported s) = 1"
proof -
  obtain s where s: "(dds_step vehicle_type_support 4 32 8 4)\<^sup>*\<^sup>* (dds_start example_writer example_reader) s"
    "sy_written s = [(1, example_sample)]" "sy_taken s = [(1, example_sample)]" using example_run by blast
  have "wf_endpoint example_writer" "wf_endpoint example_reader" by code_simp+
  from dds_delivery [OF vehicle.type_support_laws_axioms this _ _ _ example_writer_def example_reader_def s(1)] s
  show ?thesis by (auto simp: SIZE_MAX_def intro!: exI [of _ s])
qed

text \<open>C12: in every state that such a run reaches, every call of the writer and of the reader
  returns, whatever the sample, the buffers and the received bytes, null and foreign ones
  included. Every retransmission that \<open>on_acknack\<close> reports can be built, although its data pointer
  refers to a history that the call compacted: into a buffer with room for it the build succeeds and
  the datagram is a DATA of these endpoints with the number of the action and the sample that was
  written with that number; into any other buffer, and for any other action, the build reports an
  error.\<close>

theorem dds_calls_defined:
  assumes "type_support_laws ts" "wf_endpoint w" "wf_endpoint r" "mx \<le> SIZE_MAX" "0 < window" "window \<le> 256"
    and "w = data_writer_new depth mx publisher tp endpoint qos" "r = data_reader_new window subscriber tp' endpoint'"
    and "(dds_step ts depth mx window cap)\<^sup>*\<^sup>* (dds_start w r) s"
  shows "data_writer_write ts depth mx x now_ns buffer (sy_writer s) \<noteq> None \<and>
    data_writer_heartbeat buffer final_flag (sy_writer s) \<noteq> None \<and>
    data_writer_on_timer cap now_ns (sy_writer s) [] \<noteq> None \<and>
    data_reader_take ts window datagram x (sy_reader s) \<noteq> None \<and>
    data_reader_on_heartbeat window datagram buffer (sy_reader s) \<noteq> None \<and>
    (\<exists>res w' as. data_writer_on_acknack cap datagram now_ns (sy_writer s) [] = Some (res, w', as) \<and>
       (\<forall>a \<in> set as. \<exists>res d. build_data_action a buffer w' = Some (res, d) \<and>
          (if ra_kind a = retransmit_data \<and> \<not> null_span buffer \<and> data_message_overhead + ra_data_size a \<le> span_size buffer
           then repairs ts w' (sy_written s) a res d else \<not> dds_ok res)))"
proof -
  have inv: "dds_inv ts depth mx window s"
    using type_support_laws.dds_reachable_inv [OF assms(1,9)] dds_inv_start [OF assms(2-8)] by blast
  then have dw: "dw_inv depth mx (sy_writer s)" and dr: "dr_inv window (sy_reader s)"
    by (simp_all add: dds_inv_def writer_side_def reader_side_def)
  have "data_writer_write ts depth mx x now_ns buffer (sy_writer s) \<noteq> None"
    using type_support_laws.data_writer_write_effect [OF assms(1) dw, of x now_ns buffer] by auto
  moreover have "data_writer_heartbeat buffer final_flag (sy_writer s) \<noteq> None"
    using data_writer_heartbeat_effect [OF dw, of buffer final_flag] by auto
  moreover have "data_writer_on_timer cap now_ns (sy_writer s) [] \<noteq> None"
    using data_writer_timer_effect [OF dw, of cap now_ns] by auto
  moreover have "data_reader_take ts window datagram x (sy_reader s) \<noteq> None"
    using type_support_laws.data_reader_take_effect [OF assms(1) dr, of datagram x] by auto
  moreover have "data_reader_on_heartbeat window datagram buffer (sy_reader s) \<noteq> None"
    using data_reader_heartbeat_effect [OF dr, of datagram buffer] by auto
  moreover have "writer_side ts depth mx (sy_writer s) (sy_written s) (sy_reported s)" using inv by (simp add: dds_inv_def)
  note acknack_actions_built [OF this, of cap datagram now_ns buffer]
  ultimately show ?thesis by blast
qed

theorem dds_calls_defined_witness:
  "\<exists>(s :: vehicle_state dds_system) w' a res d. sy_written s = [(1, example_sample)] \<and>
     data_reader_take vehicle_type_support 8 (Span [1, 2, 3]) example_sample (sy_reader s) \<noteq> None \<and>
     data_writer_on_acknack 4 (Span example_request) 2000000 (sy_writer s) [] = Some (dds_success, w', [a]) \<and>
     build_data_action a (Span (replicate 80 0)) w' = Some (res, d) \<and> dds_ok res \<and> dds_sequence_number res = 1"
proof -
  obtain res d w where w: "data_writer_write vehicle_type_support 4 32 example_sample 1000000 (Span (replicate 60 0)) example_writer = Some (res, d, w)"
      "dds_ok res"
    and step: "dds_step vehicle_type_support 4 32 8 4 (dds_start example_writer example_reader)
       ((dds_start example_writer example_reader)\<lparr>sy_writer := w, sy_net := sent_datagrams res d, sy_written := [(1, example_sample)]\<rparr>)"
    (is "dds_step _ _ _ _ _ _ ?s") using example_steps by blast
  have wf: "wf_endpoint example_writer" "wf_endpoint example_reader" by code_simp+
  have bounds: "32 \<le> SIZE_MAX" "0 < (8 :: nat)" "8 \<le> (256 :: nat)" by (simp_all add: SIZE_MAX_def)
  note defined = dds_calls_defined [OF vehicle.type_support_laws_axioms wf bounds example_writer_def example_reader_def
      r_into_rtranclp [of "dds_step _ _ _ _ _", OF step]]
  obtain w' a where a: "data_writer_on_acknack 4 (Span example_request) 2000000 (sy_writer ?s) [] = Some (dds_success, w', [a])"
    "ra_kind a = retransmit_data" "ra_sequence_number a = 1" "ra_data_size a \<le> 32"
    using example_repair [OF w] by auto
  then obtain res' d' where "build_data_action a (Span (replicate 80 0)) w' = Some (res', d')" "dds_ok res'" "dds_sequence_number res' = 1"
    using defined [of example_sample 2000000 "Span (replicate 80 0)" True "Span example_request"]
    by (auto simp: data_message_overhead_44 repairs_def)
  moreover have "data_reader_take vehicle_type_support 8 (Span [1, 2, 3]) example_sample (sy_reader ?s) \<noteq> None"
    using defined [of example_sample 5 "Span []" True "Span [1, 2, 3]"] by blast
  moreover have "sy_written ?s = [(1, example_sample)]" by simp
  ultimately show ?thesis using a(1) by blast
qed

end
