(* ===== verification/Spec2Isabelle.thy ===== *)
theory Spec2Isabelle
  imports Sedp Static_Entities
begin

text \<open>
  A verification of openRTDDS, a bounded DDS/RTPS implementation in C++ without dynamic allocation.

  \<^bold>\<open>The program.\<close> Containers of fixed capacity hold samples and objects. A CDR codec turns values
  into bytes. An RTPS message is a header and a sequence of submessages; the router walks over a
  received message and finds the submessage of a wanted kind, and builders and parsers exist for
  DATA, HEARTBEAT and ACKNACK. The reliable writer keeps a history and decides, for each ACKNACK
  and at each timer call, which samples are delivered, retransmitted or given up; the reliable reader
  keeps a window of received sequence numbers and answers a HEARTBEAT with an ACKNACK. SPDP announces
  participants and SEDP endpoints, each with a builder, a parser and a table of what was
  discovered; endpoints match by topic, type and quality of service. The static DDS entities compose
  all this into a typed writer and reader. The library performs no I/O and starts no thread:
  every operation is a call with the buffers and the time as arguments.

  \<^bold>\<open>The theories, and the code each one models.\<close>
  \<^item> \<open>Prelude\<close>: machine integers, pointer-and-size arguments, checked memory access, counted loops, the
    \<open>refinement\<close> interface.
  \<^item> \<open>Wire\<close>: the byte-order helpers that every \<open>src/src/rtps\<close> file repeats, with the \<open>byte_codec\<close>
    interface, and the identifier types of \<open>rtps/types.hpp\<close>.
  \<^item> \<open>Storage\<close>: \<open>core/runtime_limits\<close>, \<open>core/keep_last_history.hpp\<close>, \<open>core/static_pool.hpp\<close>.
  \<^item> \<open>Cdr\<close>: \<open>serialization/cdr\<close>, the classes \<open>CdrWriter\<close> and \<open>CdrReader\<close>.
  \<^item> \<open>Router\<close>: \<open>rtps/message_router\<close>, \<open>find_submessage\<close>.
  \<^item> \<open>Data_Message\<close>: \<open>rtps/data_message\<close>, \<open>DataMessageBuilder\<close> and \<open>parse_data_message\<close>.
  \<^item> \<open>Reliability_Messages\<close>: \<open>rtps/reliability_messages\<close>, sequence-number sets, HEARTBEAT and ACKNACK.
  \<^item> \<open>Reliable_Writer\<close> and \<open>Reliable_Reader\<close>: the two classes of \<open>rtps/reliability_state\<close>; the
    \<open>compaction\<close> interface is the loop that removes records in place.
  \<^item> \<open>Parameter_List\<close>: what SPDP and SEDP share, locators, parameter lists and durations; the
    \<open>parameter_handler\<close> interface is the loop over received parameters.
  \<^item> \<open>Slot_Table\<close>: arrays of slots with an \<open>occupied\<close> flag, with the \<open>slot_table\<close> interface of the
    two discovery tables.
  \<^item> \<open>Spdp\<close>: \<open>rtps/spdp\<close>, ports, participant announcements and \<open>ParticipantTable\<close>.
  \<^item> \<open>Sedp\<close>: \<open>rtps/sedp\<close>, endpoint announcements, \<open>EndpointTable\<close>, \<open>evaluate_endpoint_match\<close>.
  \<^item> \<open>Static_Entities\<close>: \<open>dds/static_entities\<close>, \<open>DataWriter\<close> and \<open>DataReader\<close>, with the type support of
    \<open>examples/static_dds_udp.cpp\<close>, and the system of a writer, a reader and a network.

  \<^bold>\<open>State and operations.\<close> A class is a record of its members, a member function a function from the
  old to the new record, a template argument an argument. An enumeration is a datatype;
  where the code can meet a value that the enumeration does not name, the datatype has a constructor
  for it or the type is the integer itself. A result \<open>None\<close> is undefined
  behaviour, an access outside an array or through a null pointer, and an error that the code
  reports is a value, \<open>Inl e\<close> or a status. So a theorem that a call returns \<open>Some\<close> is a theorem that
  no bytes make the code read or write outside its buffers, and that its loops end.

  \<^bold>\<open>What is proved.\<close>
  \<^item> Round trips: what a builder or writer produces, the parser or reader gives back (CDR, DATA,
    HEARTBEAT, ACKNACK, participant and endpoint announcements), with exact conditions for success.
  \<^item> Safety on arbitrary input: every parser and reader returns on any bytes, and what it accepts is
    well formed.
  \<^item> Reference definitions: the router finds what a grammar of messages prescribes, the CDR writer
    produces the reference encoding, two participants match as a symmetric rule prescribes.
  \<^item> Refinement: the keep-last history is a bounded list, the pool a partial map, the reader's window
    a set of received numbers, the discovery tables are bounded maps.
  \<^item> Protocol: the writer accounts for every sample exactly once, the reader accepts every number
    at most once, a participant is present until its lease ends and is removed by a sweep after it,
    and over an unreliable network the reader takes exactly written samples and the writer
    reports delivered only what was taken.

  \<^bold>\<open>The network.\<close> \<open>dds_step\<close> lets every datagram that was sent arrive any number of times, in any
  order or never, and lets others send arbitrary bytes, with one restriction that
  \<open>foreign_datagram\<close> states: no DATA and no ACKNACK forged under the participant GUID prefix and both
  entity ids of the two endpoints. RTPS without its security extension does not authenticate, and
  the code accepts such a forgery.

  \<^bold>\<open>Bounds.\<close> \<open>size_t\<close> values are natural numbers with \<open>SIZE_MAX\<close> written out wherever the code compares
  against it or a sum could wrap. No definition has fuel: the walks over submessages and parameters
  recurse on the remaining bytes, the base of the reader's window on the number of set flags, and
  all other loops are counted. Pointers into the writer's history are slot numbers, read when the
  action is used, as the code does.

  \<^bold>\<open>Not modelled.\<close> The UDP socket, the Linux real-time calls and the main programs of the examples,
  which are input and output; the \<open>to_string\<close> tables; the RMW foundation and graph cache, which the
  RTPS core does not use; and the ROS 2 adapter under \<open>src/rmw_openrtdds_cpp\<close>, which is written
  against packages that are not part of the repository. Object construction and
  destruction in the pool have no effect of their own. The type support of a sample is a
  parameter with the contract \<open>type_support_laws\<close>, which the one of the example is proved to satisfy.
\<close>

end
